theory Spec2Isabelle
  imports Complex_Main "HOL-Library.Word" "HOL-Library.Monad_Syntax" "HOL-Library.Signed_Division"
    "HOL-Library.Log_Nat"
begin

unbundle bit_operations_syntax

section \<open>Conventions of the embedding\<close>

text \<open>
  The compositor is written in C.  Its functions are embedded as follows.

  \<^item> A C \<open>int\<close> is an Isabelle \<open>int\<close>: no claim verified here depends on signed
    overflow, which is undefined in C anyway.  Division of \<open>int\<close>s is C's truncating
    division \<open>sdiv\<close>; a \<open>double\<close> converted to \<open>int\<close> is truncated towards zero
    (\<open>double_to_int\<close>).
  \<^item> A C \<open>double\<close> is an Isabelle \<open>real\<close> that holds the value of the double.  An
    operation on doubles is the exact operation followed by \<open>double_round\<close>, the
    rounding of IEEE 754 binary64 to the nearest double, ties to even; a result that
    is not finite (an overflow, a division by zero) is \<open>None\<close>.  A literal such as
    \<open>0.3\<close> is the double nearest to it (\<open>lit_0_3\<close>).  \<open>(double) n\<close> for an \<open>int n\<close> is
    \<open>n\<close> itself (\<open>double_round_int\<close>).  The one product that is not rounded in the
    model is \<open>width * left_wfact\<close> of the BSP tree, whose factor is \<open>0.5\<close> always:
    half of an \<open>int\<close> is a double.
  \<^item> A bit field (\<open>uint32_t\<close>, \<open>uint64_t\<close>) is a \<open>32 word\<close> or \<open>64 word\<close>.
  \<^item> A pointer is an \<open>option\<close> of an address (\<open>nat\<close>), \<open>None\<close> being \<open>NULL\<close>; the
    objects live in explicit stores (maps from addresses to records).
  \<^item> A function that can dereference \<open>NULL\<close>, fail an assertion, divide by zero or
    loop returns an \<open>option\<close>; \<open>None\<close> is the crash (or the exhausted fuel of a
    loop over pointers).
\<close>

definition double_to_int :: "real \<Rightarrow> int" where
  "double_to_int d = (if 0 \<le> d then \<lfloor>d\<rfloor> else \<lceil>d\<rceil>)"

record wlr_box =
  box_x :: int
  box_y :: int
  box_width :: int
  box_height :: int

section \<open>Arithmetic of doubles (IEEE 754 binary64)\<close>

text \<open>
  \<open>pow2 e\<close> is \<open>2\<^sup>e\<close>.  \<open>double_exponent x\<close> is the exponent of the binade of \<open>x \<noteq> 0\<close>, that is
  \<open>\<lfloor>log\<^sub>2 |x|\<rfloor>\<close>, computed from the number of bits of an integer (\<open>bitlen\<close>).
  \<open>round_half_even\<close> rounds to the nearest integer, a tie to the even one.
  \<open>double_round x\<close> rounds \<open>x\<close> to 53 significant bits, or to a multiple of \<open>2\<^sup>-\<^sup>1\<^sup>0\<^sup>7\<^sup>4\<close> below
  \<open>2\<^sup>-\<^sup>1\<^sup>0\<^sup>2\<^sup>2\<close> (the subnormal numbers), and is \<open>None\<close> when the rounded value is \<open>2\<^sup>1\<^sup>0\<^sup>2\<^sup>4\<close> or
  more in absolute value (an infinity in C).
\<close>

definition pow2 :: "int \<Rightarrow> real" where
  "pow2 e = (if 0 \<le> e then 2 ^ nat e else 1 / 2 ^ nat (- e))"

definition double_exponent :: "real \<Rightarrow> int" where
  "double_exponent x =
     (if 1 \<le> \<bar>x\<bar> then bitlen \<lfloor>\<bar>x\<bar>\<rfloor> - 1 else - bitlen (\<lceil>1 / \<bar>x\<bar>\<rceil> - 1))"

definition round_half_even :: "real \<Rightarrow> int" where
  "round_half_even q =
     (let f = \<lfloor>q\<rfloor>; r = q - real_of_int f
      in if r < 1/2 then f else if 1/2 < r then f + 1 else if even f then f else f + 1)"

definition double_round :: "real \<Rightarrow> real option" where
  "double_round x =
     (if x = 0 then Some 0
      else let e = max (double_exponent x) (- 1022);
               ulp = pow2 (e - 52);
               r = real_of_int (round_half_even (x / ulp)) * ulp
           in if \<bar>r\<bar> < pow2 1024 then Some r else None)"

text \<open>Division of doubles; a division by zero gives an infinity or a NaN.\<close>

definition double_div :: "real \<Rightarrow> real \<Rightarrow> real option" where
  "double_div a b = (if b = 0 then None else double_round (a / b))"

text \<open>The literals of the sources: the doubles nearest to 0.3, 0.4, 0.6 and 0.05.\<close>

definition lit_0_3 :: real where "lit_0_3 = 5404319552844595 / 18014398509481984"
definition lit_0_4 :: real where "lit_0_4 = 3602879701896397 / 9007199254740992"
definition lit_0_6 :: real where "lit_0_6 = 5404319552844595 / 9007199254740992"
definition lit_0_05 :: real where "lit_0_05 = 3602879701896397 / 72057594037927936"

lemmas lit_defs = lit_0_3_def lit_0_4_def lit_0_6_def lit_0_05_def

lemma pow2_powi: "pow2 e = 2 powi e"
  by (simp add: pow2_def power_int_def power_one_over)

lemma pow2_pos [simp]: "0 < pow2 e"
  by (simp add: pow2_powi)

lemma pow2_add: "pow2 (a + b) = pow2 a * pow2 b"
  by (simp add: pow2_powi power_int_add)

lemma pow2_mono: "a \<le> b \<Longrightarrow> pow2 a \<le> pow2 b"
  by (simp add: pow2_powi power_int_increasing)

lemma pow2_nat: "0 \<le> e \<Longrightarrow> pow2 e = 2 ^ nat e"
  by (simp add: pow2_def)

lemma pow2_neg: "0 \<le> e \<Longrightarrow> pow2 (- e) = 1 / 2 ^ nat e"
  by (cases "e = 0") (simp_all add: pow2_def)

text \<open>\<open>double_exponent x\<close> is the exponent of the binade of \<open>x\<close>.\<close>

lemma double_exponent_bounds:
  assumes "x \<noteq> 0"
  shows "pow2 (double_exponent x) \<le> \<bar>x\<bar>" "\<bar>x\<bar> < pow2 (double_exponent x + 1)"
proof -
  have "pow2 (double_exponent x) \<le> \<bar>x\<bar> \<and> \<bar>x\<bar> < pow2 (double_exponent x + 1)"
  proof (cases "1 \<le> \<bar>x\<bar>")
    case True
    define m where "m = \<lfloor>\<bar>x\<bar>\<rfloor>"
    have m: "1 \<le> m" "real_of_int m \<le> \<bar>x\<bar>" "\<bar>x\<bar> < real_of_int m + 1"
      using True by (simp_all add: m_def le_floor_iff)
    have e: "double_exponent x = bitlen m - 1" using True by (simp add: double_exponent_def m_def)
    from m(1) have b1: "1 \<le> bitlen m" by (simp add: bitlen_alt_def)
    from bitlen_bounds[of m] m(1) have bb: "2 ^ nat (bitlen m - 1) \<le> m" "m < 2 ^ nat (bitlen m)"
      by simp_all
    from bb(1) have "(2::real) ^ nat (bitlen m - 1) \<le> real_of_int m"
      by (metis of_int_le_iff of_int_numeral of_int_power)
    moreover have "pow2 (bitlen m - 1) = 2 ^ nat (bitlen m - 1)" using b1 by (simp add: pow2_nat)
    ultimately have lo: "pow2 (bitlen m - 1) \<le> \<bar>x\<bar>" using m(2) by linarith
    from bb(2) have "m + 1 \<le> 2 ^ nat (bitlen m)" by simp
    then have "real_of_int (m + 1) \<le> (2::real) ^ nat (bitlen m)"
      by (metis of_int_le_iff of_int_numeral of_int_power)
    moreover have "pow2 (bitlen m) = 2 ^ nat (bitlen m)" using b1 by (simp add: pow2_nat)
    ultimately have hi: "\<bar>x\<bar> < pow2 (bitlen m)" using m(3) by simp
    from lo hi e show ?thesis by simp
  next
    case False
    define y where "y = 1 / \<bar>x\<bar>"
    define k where "k = \<lceil>y\<rceil> - 1"
    have xp: "0 < \<bar>x\<bar>" "\<bar>x\<bar> < 1" using assms False by simp_all
    have y1: "1 < y" using xp by (simp add: y_def)
    have k: "1 \<le> k" "real_of_int k < y" "y \<le> real_of_int k + 1"
    proof -
      from y1 have "1 < \<lceil>y\<rceil>" by (simp add: less_ceiling_iff)
      then show "1 \<le> k" by (simp add: k_def)
      show "real_of_int k < y" unfolding k_def by linarith
      show "y \<le> real_of_int k + 1" unfolding k_def by linarith
    qed
    have e: "double_exponent x = - bitlen k" using False by (simp add: double_exponent_def k_def y_def)
    from k(1) have b1: "1 \<le> bitlen k" by (simp add: bitlen_alt_def)
    from bitlen_bounds[of k] k(1) have bb: "2 ^ nat (bitlen k - 1) \<le> k" "k < 2 ^ nat (bitlen k)"
      by simp_all
    from bb(2) have "k + 1 \<le> 2 ^ nat (bitlen k)" by simp
    then have "real_of_int (k + 1) \<le> (2::real) ^ nat (bitlen k)"
      by (metis of_int_le_iff of_int_numeral of_int_power)
    with k(3) have "y \<le> 2 ^ nat (bitlen k)" by linarith
    then have "1 / 2 ^ nat (bitlen k) \<le> \<bar>x\<bar>"
      using xp(1) by (simp add: y_def field_simps)
    then have lo: "pow2 (- bitlen k) \<le> \<bar>x\<bar>" using b1 by (simp add: pow2_neg)
    from bb(1) have "(2::real) ^ nat (bitlen k - 1) \<le> real_of_int k"
      by (metis of_int_le_iff of_int_numeral of_int_power)
    with k(2) have "2 ^ nat (bitlen k - 1) < y" by linarith
    then have "\<bar>x\<bar> < 1 / 2 ^ nat (bitlen k - 1)"
      using xp(1) by (simp add: y_def field_simps)
    moreover have "pow2 (- bitlen k + 1) = 1 / 2 ^ nat (bitlen k - 1)"
      using pow2_neg[of "bitlen k - 1"] b1 by simp
    ultimately have hi: "\<bar>x\<bar> < pow2 (- bitlen k + 1)" by simp
    from lo hi e show ?thesis by simp
  qed
  then show "pow2 (double_exponent x) \<le> \<bar>x\<bar>" "\<bar>x\<bar> < pow2 (double_exponent x + 1)" by simp_all
qed

lemma round_half_even_error: "\<bar>real_of_int (round_half_even q) - q\<bar> \<le> 1/2"
  unfolding round_half_even_def Let_def by (auto simp: abs_if) linarith+

lemma round_half_even_int [simp]: "round_half_even (real_of_int k) = k"
  by (simp add: round_half_even_def)

lemma round_half_even_nonneg: "0 \<le> q \<Longrightarrow> 0 \<le> round_half_even q"
  by (auto simp: round_half_even_def Let_def)

text \<open>
  The rounded value is within half a unit in the last place of the argument.  So the
  result is finite when the exponent is below 1023, which is how \<open>double_round\<close> is
  evaluated, and for every argument up to \<open>2\<^sup>1\<^sup>0\<^sup>2\<^sup>3\<close>.
\<close>

lemma double_round_error:
  "\<bar>real_of_int (round_half_even (x / pow2 (e - 52))) * pow2 (e - 52) - x\<bar> \<le> pow2 (e - 53)"
proof -
  define ulp where "ulp = pow2 (e - 52)"
  have up: "0 < ulp" by (simp add: ulp_def)
  have "\<bar>real_of_int (round_half_even (x / ulp)) * ulp - x\<bar>
        = \<bar>real_of_int (round_half_even (x / ulp)) - x / ulp\<bar> * ulp"
    using up by (simp add: field_simps abs_mult[symmetric] abs_of_pos)
  also have "\<dots> \<le> 1/2 * ulp"
    using round_half_even_error[of "x / ulp"] up by (intro mult_right_mono) simp_all
  also have "1/2 * ulp = pow2 (e - 53)"
    using pow2_add[of "- 1" "e - 52"] by (simp add: ulp_def pow2_def)
  finally show ?thesis by (simp add: ulp_def)
qed

lemma pow2_le_cancel: "pow2 a \<le> pow2 b \<Longrightarrow> a \<le> b"
proof -
  assume le: "pow2 a \<le> pow2 b"
  { assume "b < a"
    then have "pow2 (b + 1) \<le> pow2 a" by (intro pow2_mono) simp
    moreover have "pow2 b < pow2 (b + 1)" using pow2_add[of b 1] by (simp add: pow2_def[of 1])
    ultimately have False using le by simp }
  then show ?thesis by fastforce
qed

lemma double_round_in_range:
  assumes "x \<noteq> 0" "max (double_exponent x) (- 1022) \<le> 1022"
  shows "\<bar>real_of_int (round_half_even (x / pow2 (max (double_exponent x) (- 1022) - 52)))
           * pow2 (max (double_exponent x) (- 1022) - 52)\<bar> < pow2 1024"
proof -
  define e where "e = max (double_exponent x) (- 1022)"
  define r where "r = real_of_int (round_half_even (x / pow2 (e - 52))) * pow2 (e - 52)"
  have err: "\<bar>r - x\<bar> \<le> pow2 (e - 53)" unfolding r_def by (rule double_round_error)
  have "pow2 (e - 53) \<le> pow2 1022" using assms(2) by (intro pow2_mono) (simp add: e_def)
  moreover have "\<bar>x\<bar> < pow2 (double_exponent x + 1)" using double_exponent_bounds(2)[OF assms(1)] .
  moreover have "pow2 (double_exponent x + 1) \<le> pow2 1023"
    using assms(2) by (intro pow2_mono) simp
  ultimately have "\<bar>r\<bar> < pow2 1023 + pow2 1022" using err by linarith
  also have "\<dots> < pow2 1024" by (simp add: pow2_def)
  finally show ?thesis by (simp add: r_def e_def)
qed

lemma double_round_code [code]:
  "double_round x =
     (if x = 0 then Some 0
      else let e = max (double_exponent x) (- 1022);
               ulp = pow2 (e - 52);
               r = real_of_int (round_half_even (x / ulp)) * ulp
           in if e < 1023 then Some r else if \<bar>r\<bar> < pow2 1024 then Some r else None)"
  using double_round_in_range[of x] by (auto simp: double_round_def Let_def)

lemma double_round_finite:
  assumes "\<bar>x\<bar> \<le> pow2 1023"
  shows "\<exists>r. double_round x = Some r
           \<and> \<bar>r - x\<bar> \<le> pow2 (max (double_exponent x) (- 1022) - 53)"
proof (cases "x = 0")
  case True
  then show ?thesis using pow2_pos[of "max (double_exponent 0) (- 1022) - 53"]
    by (simp add: double_round_def less_imp_le)
next
  case False
  define e where "e = max (double_exponent x) (- 1022)"
  define r where "r = real_of_int (round_half_even (x / pow2 (e - 52))) * pow2 (e - 52)"
  have err: "\<bar>r - x\<bar> \<le> pow2 (e - 53)" unfolding r_def by (rule double_round_error)
  have "pow2 (double_exponent x) \<le> pow2 1023"
    using double_exponent_bounds(1)[OF False] assms by simp
  then have "double_exponent x \<le> 1023" by (rule pow2_le_cancel)
  then have "pow2 (e - 53) \<le> pow2 1022" by (intro pow2_mono) (simp add: e_def)
  with err assms have "\<bar>r\<bar> \<le> pow2 1023 + pow2 1022" by linarith
  also have "\<dots> < pow2 1024" by (simp add: pow2_def)
  finally have "\<bar>r\<bar> < pow2 1024" .
  then have "double_round x = Some r"
    using False by (simp add: double_round_def Let_def e_def r_def)
  with err show ?thesis by (simp add: e_def)
qed

lemma double_round_nonneg:
  assumes "0 \<le> x" "double_round x = Some r"
  shows "0 \<le> r"
proof (cases "x = 0")
  case True
  with assms show ?thesis by (simp add: double_round_def)
next
  case False
  define ulp where "ulp = pow2 (max (double_exponent x) (- 1022) - 52)"
  have "0 \<le> x / ulp" using assms(1) by (simp add: ulp_def less_imp_le)
  from round_half_even_nonneg[OF this] have "0 \<le> real_of_int (round_half_even (x / ulp)) * ulp"
    by (simp add: ulp_def less_imp_le)
  with assms(2) False show ?thesis
    by (auto simp: double_round_def Let_def ulp_def split: if_splits)
qed

text \<open>An integer of less than 54 bits is a double: \<open>(double) n\<close> is exact for an \<open>int\<close>.\<close>

lemma double_round_int:
  assumes "\<bar>n\<bar> < 2 ^ 53"
  shows "double_round (real_of_int n) = Some (real_of_int n)"
proof (cases "n = 0")
  case True
  then show ?thesis by (simp add: double_round_def)
next
  case False
  define x where "x = real_of_int n"
  define e where "e = max (double_exponent x) (- 1022)"
  have x0: "x \<noteq> 0" "1 \<le> \<bar>x\<bar>" using False by (simp_all add: x_def)
  have "double_exponent x = bitlen \<lfloor>\<bar>x\<bar>\<rfloor> - 1" using x0(2) by (simp add: double_exponent_def)
  moreover have "1 \<le> bitlen \<lfloor>\<bar>x\<bar>\<rfloor>" using x0(2) by (simp add: bitlen_alt_def le_floor_iff)
  ultimately have e0: "0 \<le> double_exponent x" by simp
  then have ee: "e = double_exponent x" by (simp add: e_def)
  have "pow2 e \<le> \<bar>x\<bar>" using double_exponent_bounds(1)[OF x0(1)] ee by simp
  moreover have "\<bar>x\<bar> < pow2 53" using assms by (simp add: x_def pow2_def)
  ultimately have "pow2 e < pow2 53" by simp
  then have e52: "e \<le> 52"
  proof -
    { assume "52 < e"
      then have "pow2 53 \<le> pow2 e" by (intro pow2_mono) simp
      with \<open>pow2 e < pow2 53\<close> have False by simp }
    then show ?thesis by fastforce
  qed
  have "pow2 (52 - e) = inverse (pow2 (e - 52))"
    using power_int_minus[of "2::real" "e - 52"] by (simp add: pow2_powi)
  then have "x / pow2 (e - 52) = x * pow2 (52 - e)" by (simp add: divide_inverse)
  also have "\<dots> = real_of_int (n * 2 ^ nat (52 - e))"
    using e52 by (simp add: x_def pow2_nat)
  finally have q: "x / pow2 (e - 52) = real_of_int (n * 2 ^ nat (52 - e))" .
  have nz: "pow2 (e - 52) \<noteq> 0" using pow2_pos[of "e - 52"] by linarith
  have "real_of_int (round_half_even (x / pow2 (e - 52))) * pow2 (e - 52) = x"
    unfolding q round_half_even_int unfolding q[symmetric] using nz by simp
  moreover have "\<bar>x\<bar> < pow2 1024" using \<open>\<bar>x\<bar> < pow2 53\<close> pow2_mono[of 53 1024] by simp
  ultimately show ?thesis
    using x0(1) by (simp add: double_round_def Let_def e_def x_def)
qed


lemma literals_rounded:
  "double_round (3/10) = Some lit_0_3" "double_round (4/10) = Some lit_0_4"
  "double_round (6/10) = Some lit_0_6" "double_round (5/100) = Some lit_0_05"
  by code_simp+


section \<open>Interactive resize: which edge the pointer grabs (cursor.c, toplevel.c)\<close>

text \<open>\<open>enum wlr_edges\<close> of wlroots (\<open>wlr/util/edges.h\<close>), used as a bit mask.\<close>

definition WLR_EDGE_NONE :: "32 word" where "WLR_EDGE_NONE = 0"
definition WLR_EDGE_TOP :: "32 word" where "WLR_EDGE_TOP = 1"
definition WLR_EDGE_BOTTOM :: "32 word" where "WLR_EDGE_BOTTOM = 2"
definition WLR_EDGE_LEFT :: "32 word" where "WLR_EDGE_LEFT = 4"
definition WLR_EDGE_RIGHT :: "32 word" where "WLR_EDGE_RIGHT = 8"

text \<open>
  \<open>surface_coord_to_normdevice_coord\<close>: the geometry box is mapped to \<open>[-1,1]\<^sup>2\<close> by
  \<open>sx / ((double) width / 2) - 1\<close>, three operations on doubles, each one rounded.  A box
  of width or height zero makes the C code divide by \<open>0.0\<close> (an infinity or a NaN): the
  model returns \<open>None\<close> there.
\<close>

definition surface_coord_to_normdevice_coord ::
  "wlr_box \<Rightarrow> real \<Rightarrow> real \<Rightarrow> (real \<times> real) option" where
  "surface_coord_to_normdevice_coord geo_box sx sy = do {
     half_width \<leftarrow> double_div (real_of_int (box_width geo_box)) 2;
     qx \<leftarrow> double_div sx half_width;
     nx \<leftarrow> double_round (qx - 1);
     half_height \<leftarrow> double_div (real_of_int (box_height geo_box)) 2;
     qy \<leftarrow> double_div sy half_height;
     ny \<leftarrow> double_round (qy - 1);
     Some (nx, ny)
   }"

text \<open>
  \<open>decide_which_edge_to_resize\<close>, branch by branch: the "exclusive single edge
  check" falls through to the "corner check" when neither inner test holds.
\<close>

definition corner_check :: "real \<Rightarrow> real \<Rightarrow> 32 word" where
  "corner_check nx ny =
     (if nx \<ge> - lit_0_05 then WLR_EDGE_RIGHT else WLR_EDGE_LEFT)
     OR (if ny \<ge> - lit_0_05 then WLR_EDGE_BOTTOM else WLR_EDGE_TOP)"

definition decide_which_edge_to_resize :: "real \<Rightarrow> real \<Rightarrow> wlr_box \<Rightarrow> 32 word option" where
  "decide_which_edge_to_resize sx sy geo_box =
     (case surface_coord_to_normdevice_coord geo_box sx sy of
        None \<Rightarrow> None
      | Some (nx, ny) \<Rightarrow>
          Some (if nx \<ge> - lit_0_3 \<and> nx \<le> lit_0_3 then
                  (if ny \<le> - lit_0_4 then WLR_EDGE_TOP
                   else if ny \<ge> lit_0_6 then WLR_EDGE_BOTTOM
                   else corner_check nx ny)
                else if ny \<ge> - lit_0_3 \<and> ny \<le> lit_0_3 then
                  (if nx \<le> - lit_0_4 then WLR_EDGE_LEFT
                   else if nx \<ge> lit_0_6 then WLR_EDGE_RIGHT
                   else corner_check nx ny)
                else corner_check nx ny))"

text \<open>
  What \<open>start_interactive_resize\<close> reads of a toplevel: whether it can enter an
  interactive resize (\<open>cwc_toplevel_can_enter_interactive\<close>), its geometry box
  (\<open>cwc_toplevel_get_geometry\<close>) and the position of the scene node of its container
  (\<open>toplevel->container->tree->node.x\<close>, \<open>.y\<close>).
\<close>

record resize_target =
  rt_can_enter_interactive :: bool
  rt_geometry :: wlr_box
  rt_node_x :: int
  rt_node_y :: int

text \<open>
  \<open>cwc_toplevel_at_with_deep_check (lx, ly, &sx, &sy)\<close>.  The search of the scene graph
  is not modelled: \<open>at_pointer\<close> is the toplevel it finds at \<open>(lx, ly)\<close>, if any.  The second
  component of the result is the contents of \<open>sx\<close>, \<open>sy\<close> after the call; they are
  written only when a toplevel is found.
\<close>

definition cwc_toplevel_at_with_deep_check ::
  "resize_target option \<Rightarrow> real \<Rightarrow> real \<Rightarrow> real \<times> real
     \<Rightarrow> (resize_target option \<times> real \<times> real) option" where
  "cwc_toplevel_at_with_deep_check at_pointer lx ly sxy =
     (case at_pointer of
        None \<Rightarrow> Some (None, sxy)
      | Some toplevel \<Rightarrow> do {
          sx \<leftarrow> double_round (lx - real_of_int (rt_node_x toplevel));
          sy \<leftarrow> double_round (ly - real_of_int (rt_node_y toplevel));
          Some (Some toplevel, sx, sy)
        })"

text \<open>
  \<open>start_interactive_resize (toplevel, edges)\<close>, up to the value it stores in
  \<open>cursor->resize_edges\<close>; the grab position, the cursor image and the resize schedule
  that it sets afterwards are not part of the model.  \<open>cx\<close>, \<open>cy\<close> is the position of
  the pointer.  The locals \<open>sx\<close>, \<open>sy\<close> are declared without a value: \<open>uninit\<close> is what
  they hold then.  They are assigned by \<open>cwc_toplevel_at_with_deep_check\<close>, which is
  called only when \<open>toplevel\<close> is \<open>NULL\<close>; when the caller passes a toplevel
  (\<open>on_request_resize\<close>, the resize request of a client) they keep \<open>uninit\<close>.
\<close>

datatype resize_outcome = Not_started | Resize_started "32 word"

definition start_interactive_resize ::
  "resize_target option \<Rightarrow> 32 word \<Rightarrow> resize_target option \<Rightarrow> real \<Rightarrow> real \<Rightarrow> real \<times> real
     \<Rightarrow> resize_outcome option" where
  "start_interactive_resize toplevel edges at_pointer cx cy uninit = do {
     (toplevel, sx, sy) \<leftarrow> (case toplevel of
                               Some t \<Rightarrow> Some (Some t, uninit)
                             | None \<Rightarrow> cwc_toplevel_at_with_deep_check at_pointer cx cy uninit);
     case toplevel of
       None \<Rightarrow> Some Not_started
     | Some t \<Rightarrow>
         if \<not> rt_can_enter_interactive t then Some Not_started
         else do {
           let geo_box = rt_geometry t;
           edges \<leftarrow> (if edges \<noteq> 0 then Some edges
                     else decide_which_edge_to_resize sx sy geo_box);
           Some (Resize_started edges)
         }
   }"

lemmas edge_defs = WLR_EDGE_TOP_def WLR_EDGE_BOTTOM_def WLR_EDGE_LEFT_def WLR_EDGE_RIGHT_def


text \<open>
  Two toplevels at the origin of the scene, with geometry boxes of 200x200 and of
  400x400.
\<close>

definition box_200 :: resize_target where
  "box_200 = \<lparr>rt_can_enter_interactive = True,
     rt_geometry = \<lparr>box_x = 0, box_y = 0, box_width = 200, box_height = 200\<rparr>,
     rt_node_x = 0, rt_node_y = 0\<rparr>"

definition box_400 :: resize_target where
  "box_400 = \<lparr>rt_can_enter_interactive = True,
     rt_geometry = \<lparr>box_x = 0, box_y = 0, box_width = 400, box_height = 400\<rparr>,
     rt_node_x = 0, rt_node_y = 0\<rparr>"

text \<open>
  In the box of 200x200 the pointer at \<open>(0, 70)\<close> has \<open>nx = -1\<close> and, in doubles,
  \<open>ny = 0.7 - 1 = -0.30000000000000004\<close>, which is below the literal \<open>-0.3\<close>: the corner
  left+top is returned, where exact arithmetic would give the edge left.  With the same
  pointer and the toplevel passed by the caller, the edges are those of the point
  \<open>uninit\<close>, here \<open>(100, 190)\<close>: bottom.
\<close>

lemma normdevice_examples:
  "surface_coord_to_normdevice_coord (rt_geometry box_200) 0 70
     = Some (- 1, - (1351079888211149 / 4503599627370496))"
  "surface_coord_to_normdevice_coord (rt_geometry box_200) 130 20
     = Some (1351079888211149 / 4503599627370496, - (3602879701896397 / 4503599627370496))"
  "surface_coord_to_normdevice_coord (rt_geometry box_200) 100 20
     = Some (0, - (3602879701896397 / 4503599627370496))"
  "surface_coord_to_normdevice_coord (rt_geometry box_200) 0 100 = Some (- 1, 0)"
  "surface_coord_to_normdevice_coord (rt_geometry box_200) 100 190 = Some (0, 2026619832316723 / 2251799813685248)"
  "surface_coord_to_normdevice_coord (rt_geometry box_400) 200 300 = Some (0, 1 / 2)"
  by code_simp+

lemma pointer_examples:
  "double_round (0 - real_of_int (rt_node_x box_200)) = Some 0"
  "double_round (70 - real_of_int (rt_node_y box_200)) = Some 70"
  "double_round (130 - real_of_int (rt_node_x box_200)) = Some 130"
  "double_round (20 - real_of_int (rt_node_y box_200)) = Some 20"
  "double_round (100 - real_of_int (rt_node_x box_200)) = Some 100"
  "double_round (100 - real_of_int (rt_node_y box_200)) = Some 100"
  "double_round (200 - real_of_int (rt_node_x box_400)) = Some 200"
  "double_round (300 - real_of_int (rt_node_y box_400)) = Some 300"
  using double_round_int[of 0] double_round_int[of 70] double_round_int[of 130]
    double_round_int[of 20] double_round_int[of 100] double_round_int[of 200]
    double_round_int[of 300]
  by (simp_all add: box_200_def box_400_def)

lemmas resize_defs = start_interactive_resize_def cwc_toplevel_at_with_deep_check_def
  decide_which_edge_to_resize_def corner_check_def

lemma resize_examples:
  "start_interactive_resize None 0 (Some box_200) 0 70 (100, 190)
     = Some (Resize_started (WLR_EDGE_LEFT OR WLR_EDGE_TOP))"
  "start_interactive_resize None 0 (Some box_200) 130 20 (100, 190)
     = Some (Resize_started (WLR_EDGE_RIGHT OR WLR_EDGE_TOP))"
  "start_interactive_resize None 0 (Some box_200) 100 20 (100, 190)
     = Some (Resize_started WLR_EDGE_TOP)"
  "start_interactive_resize None 0 (Some box_200) 0 100 (100, 190)
     = Some (Resize_started WLR_EDGE_LEFT)"
  "start_interactive_resize (Some box_200) 0 (Some box_200) 0 70 (100, 190)
     = Some (Resize_started WLR_EDGE_BOTTOM)"
  "start_interactive_resize None 0 None 0 70 (100, 190) = Some Not_started"
  "start_interactive_resize (Some box_200) WLR_EDGE_RIGHT None 0 70 (100, 190)
     = Some (Resize_started WLR_EDGE_RIGHT)"
  using pointer_examples normdevice_examples
  by (simp_all add: resize_defs lit_defs edge_defs) (simp_all add: box_200_def)




section \<open>The window-management state (types.h, container.h, bsp.h, output.h)\<close>

type_synonym addr = nat

text \<open>\<open>MIN_WIDTH\<close>: "hard limit of minimum toplevel width"; \<open>MAX_WORKSPACE\<close>.\<close>

definition MIN_WIDTH :: int where "MIN_WIDTH = 20"
definition MAX_WORKSPACE :: int where "MAX_WORKSPACE = 30"

text \<open>\<open>enum container_state_mask\<close>, bits of \<open>container_state_bitfield_t\<close>.\<close>

definition CONTAINER_STATE_UNMANAGED :: "32 word" where "CONTAINER_STATE_UNMANAGED = push_bit 0 1"
definition CONTAINER_STATE_FLOATING :: "32 word" where "CONTAINER_STATE_FLOATING = push_bit 1 1"
definition CONTAINER_STATE_MINIMIZED :: "32 word" where "CONTAINER_STATE_MINIMIZED = push_bit 2 1"
definition CONTAINER_STATE_MAXIMIZED :: "32 word" where "CONTAINER_STATE_MAXIMIZED = push_bit 3 1"
definition CONTAINER_STATE_FULLSCREEN :: "32 word" where "CONTAINER_STATE_FULLSCREEN = push_bit 4 1"
definition CONTAINER_STATE_STICKY :: "32 word" where "CONTAINER_STATE_STICKY = push_bit 5 1"

datatype bsp_node_type = BSP_NODE_INTERNAL | BSP_NODE_LEAF

datatype bsp_split_type = BSP_SPLIT_AUTO | BSP_SPLIT_VERTICAL | BSP_SPLIT_HORIZONTAL

record bsp_node =
  node_type :: bsp_node_type
  node_container :: "addr option"
  node_parent :: "addr option"
  node_left :: "addr option"
  node_right :: "addr option"
  node_enabled :: bool
  split_type :: bsp_split_type
  left_wfact :: real
  node_x :: int
  node_y :: int
  node_width :: int
  node_height :: int

text \<open>
  \<open>struct cwc_border\<close>.  \<open>border_valid\<close> stands for \<open>is_border_valid\<close>: the four
  border buffers exist (they are created by \<open>cwc_border_init\<close> unless the thickness
  is 0, and re-created by every redraw).
\<close>

record cwc_border =
  thickness :: int
  border_width :: int
  border_height :: int
  border_enabled :: bool
  border_valid :: bool

text \<open>
  \<open>struct cwc_toplevel\<close>, reduced to what the container code reads and writes:
  the kind of surface, the client's minimum size (\<open>xdg_toplevel->current\<close>), and
  the size last sent to the client by \<open>cwc_toplevel_set_size\<close>
  (\<open>wlr_xdg_toplevel_set_size\<close> or \<open>wlr_xwayland_surface_configure\<close>).
\<close>

record cwc_toplevel =
  is_x11 :: bool
  override_redirect :: bool
  toplevel_container :: "addr option"
  min_width :: int
  min_height :: int
  configured_width :: int
  configured_height :: int

text \<open>
  \<open>struct cwc_container\<close>.  \<open>cont_x\<close>, \<open>cont_y\<close> are \<open>tree->node.x\<close>, \<open>tree->node.y\<close>;
  \<open>cont_toplevels\<close> is the list \<open>container->toplevels\<close>; \<open>tree_children\<close> are the
  toplevels among the scene children of \<open>container->tree\<close>, bottom to top.
\<close>

record cwc_container =
  cont_x :: int
  cont_y :: int
  cont_width :: int
  cont_height :: int
  floating_box :: wlr_box
  cont_state :: "32 word"
  cont_tag :: "32 word"
  cont_workspace :: int
  cont_bsp_node :: "addr option"
  border :: cwc_border
  cont_toplevels :: "addr list"
  tree_children :: "addr list"

datatype cwc_layout_mode = CWC_LAYOUT_FLOATING | CWC_LAYOUT_MASTER | CWC_LAYOUT_BSP

text \<open>
  \<open>master_state.current_layout\<close> points to a \<open>struct layout_interface\<close>; the two
  strategies that master.c registers itself are \<open>tile\<close> and \<open>monocle\<close>.
\<close>

datatype layout_interface = LAYOUT_TILE | LAYOUT_MONOCLE

record master_state =
  master_count :: int
  column_count :: int
  mwfact :: real
  current_layout :: layout_interface

record bsp_root_entry =
  root :: "addr option"
  last_focused :: "addr option"

record cwc_view_info =
  layout_mode :: cwc_layout_mode
  useless_gaps :: int
  bsp_entry :: bsp_root_entry
  master :: master_state

text \<open>
  The state: one output (\<open>struct cwc_output\<close> with its \<open>cwc_output_state\<close>), the
  containers and toplevels on it, and the BSP nodes.  Every \<open>container->output\<close>
  of the model is this output.  \<open>next_node\<close> is the allocator of BSP nodes
  (\<open>calloc\<close> returns an address that is not in use).
\<close>

record cwc_state =
  usable_area :: wlr_box
  output_width :: int
  output_height :: int
  active_tag :: "32 word"
  active_workspace :: int
  view_info :: "int \<Rightarrow> cwc_view_info"
  output_containers :: "addr list"
  containers :: "addr \<rightharpoonup> cwc_container"
  toplevels :: "addr \<rightharpoonup> cwc_toplevel"
  bsp_nodes :: "addr \<rightharpoonup> bsp_node"
  next_node :: addr

subsection \<open>Views\<close>

text \<open>
  \<open>&output->state->view_info[i]\<close>: the array has \<open>MAX_WORKSPACE\<close> entries; an index
  outside it is \<open>None\<close>.
\<close>

definition view_info_at :: "cwc_state \<Rightarrow> int \<Rightarrow> cwc_view_info option" where
  "view_info_at s i = (if 0 \<le> i \<and> i < MAX_WORKSPACE then Some (view_info s i) else None)"

definition cwc_output_get_current_view_info :: "cwc_state \<Rightarrow> cwc_view_info option" where
  "cwc_output_get_current_view_info s = view_info_at s (active_workspace s)"

subsection \<open>Border (container.c)\<close>

definition cwc_border_get_thickness :: "cwc_border \<Rightarrow> int" where
  "cwc_border_get_thickness b = (if \<not> border_enabled b then 0 else thickness b)"

definition cwc_border_set_enabled :: "cwc_border \<Rightarrow> bool \<Rightarrow> cwc_border" where
  "cwc_border_set_enabled b enabled =
     (if \<not> border_valid b then b else b\<lparr>border_enabled := enabled\<rparr>)"

definition cwc_border_resize :: "cwc_border \<Rightarrow> int \<Rightarrow> int \<Rightarrow> cwc_border" where
  "cwc_border_resize b rect_w rect_h =
     (if \<not> border_valid b then b
      else if border_width b = rect_w \<and> border_height b = rect_h then b
      else b\<lparr>border_width := rect_w, border_height := rect_h\<rparr>)"

subsection \<open>Container predicates (container.h, container.c)\<close>

definition cwc_container_is_unmanaged :: "cwc_container \<Rightarrow> bool" where
  "cwc_container_is_unmanaged c \<longleftrightarrow> cont_state c AND CONTAINER_STATE_UNMANAGED \<noteq> 0"

definition cwc_container_is_minimized :: "cwc_container \<Rightarrow> bool" where
  "cwc_container_is_minimized c \<longleftrightarrow> cont_state c AND CONTAINER_STATE_MINIMIZED \<noteq> 0"

definition cwc_container_is_maximized :: "cwc_container \<Rightarrow> bool" where
  "cwc_container_is_maximized c \<longleftrightarrow> cont_state c AND CONTAINER_STATE_MAXIMIZED \<noteq> 0"

definition cwc_container_is_fullscreen :: "cwc_container \<Rightarrow> bool" where
  "cwc_container_is_fullscreen c \<longleftrightarrow> cont_state c AND CONTAINER_STATE_FULLSCREEN \<noteq> 0"

definition cwc_container_is_sticky :: "cwc_container \<Rightarrow> bool" where
  "cwc_container_is_sticky c \<longleftrightarrow> cont_state c AND CONTAINER_STATE_STICKY \<noteq> 0"

definition cwc_container_is_configure_allowed :: "cwc_container \<Rightarrow> bool" where
  "cwc_container_is_configure_allowed c \<longleftrightarrow>
     \<not> cwc_container_is_fullscreen c \<and> \<not> cwc_container_is_maximized c"

text \<open>
  \<open>cwc_container_is_floating\<close>: the floating bit, or else the layout of the current
  view (read only when the bit is clear, as C's \<open>||\<close> does).
\<close>

definition cwc_container_is_floating :: "cwc_state \<Rightarrow> cwc_container \<Rightarrow> bool option" where
  "cwc_container_is_floating s c =
     (if cont_state c AND CONTAINER_STATE_FLOATING \<noteq> 0 then Some True
      else do {
        info \<leftarrow> cwc_output_get_current_view_info s;
        Some (layout_mode info = CWC_LAYOUT_FLOATING)
      })"

definition cwc_container_should_save_floating_box :: "cwc_state \<Rightarrow> cwc_container \<Rightarrow> bool option" where
  "cwc_container_should_save_floating_box s c = do {
     fl \<leftarrow> cwc_container_is_floating s c;
     Some (fl \<and> \<not> cwc_container_is_fullscreen c \<and> \<not> cwc_container_is_maximized c)
   }"

definition cwc_container_get_box :: "cwc_container \<Rightarrow> wlr_box" where
  "cwc_container_get_box c =
     \<lparr>box_x = cont_x c, box_y = cont_y c, box_width = cont_width c, box_height = cont_height c\<rparr>"

text \<open>
  \<open>cwc_container_get_front_toplevel\<close>: the topmost toplevel among the scene
  children, \<open>NULL\<close> when there is none.
\<close>

definition cwc_container_get_front_toplevel :: "cwc_container \<Rightarrow> addr option" where
  "cwc_container_get_front_toplevel c =
     (if tree_children c = [] then None else Some (last (tree_children c)))"

subsection \<open>Size and position of a container (container.c)\<close>

text \<open>
  \<open>all_toplevel_set_size\<close>: the callback of \<open>cwc_container_set_size\<close>.  \<open>wh\<close> is the
  \<open>struct wlr_box *data\<close> shared by all calls (only its width and height are used);
  the callback writes the size it sent back into it.
\<close>

definition all_toplevel_set_size ::
  "cwc_state \<Rightarrow> addr \<Rightarrow> int \<times> int \<Rightarrow> (cwc_state \<times> (int \<times> int)) option" where
  "all_toplevel_set_size s tp wh = do {
     t \<leftarrow> toplevels s tp;
     (surf_w, surf_h) \<leftarrow>
       (if \<not> is_x11 t then do {
          cp \<leftarrow> toplevel_container t;
          c \<leftarrow> containers s cp;
          fl \<leftarrow> cwc_container_is_floating s c;
          Some (if fl then (max (fst wh) (min_width t), max (snd wh) (min_height t)) else wh)
        } else Some wh);
     Some (s\<lparr>toplevels := (toplevels s)(tp \<mapsto>
               t\<lparr>configured_width := surf_w, configured_height := surf_h\<rparr>)\<rparr>,
           (surf_w, surf_h))
   }"

text \<open>\<open>cwc_container_for_each_bottom_to_top\<close> with the callback above.\<close>

fun for_each_bottom_to_top_set_size ::
  "cwc_state \<Rightarrow> addr list \<Rightarrow> int \<times> int \<Rightarrow> (cwc_state \<times> (int \<times> int)) option" where
  "for_each_bottom_to_top_set_size s [] wh = Some (s, wh)"
| "for_each_bottom_to_top_set_size s (tp # tps) wh = do {
     (s', wh') \<leftarrow> all_toplevel_set_size s tp wh;
     for_each_bottom_to_top_set_size s' tps wh'
   }"

definition cwc_container_set_size :: "cwc_state \<Rightarrow> addr \<Rightarrow> int \<Rightarrow> int \<Rightarrow> cwc_state option" where
  "cwc_container_set_size s cp w h = do {
     c \<leftarrow> containers s cp;
     info \<leftarrow> cwc_output_get_current_view_info s;
     let gaps = useless_gaps info;
     let bw = cwc_border_get_thickness (border c);
     let outside_width = (bw + gaps) * 2;
     let surface_w = max (w - outside_width) MIN_WIDTH;
     let surface_h = max (h - outside_width) MIN_WIDTH;
     (s1, rect) \<leftarrow> for_each_bottom_to_top_set_size s (tree_children c) (surface_w, surface_h);
     c1 \<leftarrow> containers s1 cp;
     let c2 = c1\<lparr>border := cwc_border_resize (border c1) (fst rect + bw * 2) (snd rect + bw * 2)\<rparr>;
     save \<leftarrow> cwc_container_should_save_floating_box s1 c2;
     let c3 = (if save
               then c2\<lparr>floating_box := (floating_box c2)\<lparr>box_width := w, box_height := h\<rparr>\<rparr>
               else c2);
     Some (s1\<lparr>containers := (containers s1)(cp \<mapsto> c3\<lparr>cont_width := w, cont_height := h\<rparr>)\<rparr>)
   }"

text \<open>
  \<open>cwc_container_set_position\<close>.  (The loop \<open>all_toplevel_update_xwsurface\<close> only
  tells X11 clients their new coordinates.)
\<close>

definition cwc_container_set_position :: "cwc_state \<Rightarrow> addr \<Rightarrow> int \<Rightarrow> int \<Rightarrow> cwc_state option" where
  "cwc_container_set_position s cp x y = do {
     c \<leftarrow> containers s cp;
     let c1 = c\<lparr>cont_x := x, cont_y := y\<rparr>;
     save \<leftarrow> cwc_container_should_save_floating_box s c1;
     let c2 = (if save
               then c1\<lparr>floating_box := (floating_box c1)\<lparr>box_x := x, box_y := y\<rparr>\<rparr>
               else c1);
     Some (s\<lparr>containers := (containers s)(cp \<mapsto> c2)\<rparr>)
   }"

definition cwc_container_set_position_gap :: "cwc_state \<Rightarrow> addr \<Rightarrow> int \<Rightarrow> int \<Rightarrow> cwc_state option" where
  "cwc_container_set_position_gap s cp x y = do {
     info \<leftarrow> cwc_output_get_current_view_info s;
     let gaps = useless_gaps info;
     cwc_container_set_position s cp (x + gaps) (y + gaps)
   }"

definition cwc_container_restore_floating_box :: "cwc_state \<Rightarrow> addr \<Rightarrow> cwc_state option" where
  "cwc_container_restore_floating_box s cp = do {
     c \<leftarrow> containers s cp;
     s1 \<leftarrow> cwc_container_set_position s cp (box_x (floating_box c)) (box_y (floating_box c));
     c1 \<leftarrow> containers s1 cp;
     cwc_container_set_size s1 cp (box_width (floating_box c1)) (box_height (floating_box c1))
   }"

text \<open>\<open>cwc_toplevel_set_size_surface\<close> and \<open>cwc_toplevel_set_position\<close> (toplevel.c).\<close>

definition cwc_toplevel_set_size_surface :: "cwc_state \<Rightarrow> addr \<Rightarrow> int \<Rightarrow> int \<Rightarrow> cwc_state option" where
  "cwc_toplevel_set_size_surface s tp w h = do {
     t \<leftarrow> toplevels s tp;
     cp \<leftarrow> toplevel_container t;
     c \<leftarrow> containers s cp;
     info \<leftarrow> cwc_output_get_current_view_info s;
     let gaps = useless_gaps info;
     let outside_width = (cwc_border_get_thickness (border c) + gaps) * 2;
     cwc_container_set_size s cp (w + outside_width) (h + outside_width)
   }"

definition cwc_toplevel_set_position :: "cwc_state \<Rightarrow> addr \<Rightarrow> int \<Rightarrow> int \<Rightarrow> cwc_state option" where
  "cwc_toplevel_set_position s tp x y = do {
     t \<leftarrow> toplevels s tp;
     cp \<leftarrow> toplevel_container t;
     c \<leftarrow> containers s cp;
     let bw = cwc_border_get_thickness (border c);
     cwc_container_set_position s cp (x - bw) (y - bw)
   }"

subsection \<open>The Lua property \<open>geometry\<close> of a container (objects/container.c)\<close>

text \<open>
  \<open>luaC_container_set_geometry\<close>.  The Lua table is given field by field, \<open>None\<close>
  for a field that is \<open>nil\<close>; each field present overrides the current box.
\<close>

definition luaC_container_set_geometry ::
  "cwc_state \<Rightarrow> addr \<Rightarrow> int option \<Rightarrow> int option \<Rightarrow> int option \<Rightarrow> int option \<Rightarrow> cwc_state option" where
  "luaC_container_set_geometry s cp tx ty twidth theight = do {
     c \<leftarrow> containers s cp;
     let box = cwc_container_get_box c;
     let box = (case tx of None \<Rightarrow> box | Some v \<Rightarrow> box\<lparr>box_x := v\<rparr>);
     let box = (case ty of None \<Rightarrow> box | Some v \<Rightarrow> box\<lparr>box_y := v\<rparr>);
     let box = (case twidth of None \<Rightarrow> box | Some v \<Rightarrow> box\<lparr>box_width := v\<rparr>);
     let box = (case theight of None \<Rightarrow> box | Some v \<Rightarrow> box\<lparr>box_height := v\<rparr>);
     s1 \<leftarrow> cwc_container_set_position s cp (box_x box) (box_y box);
     cwc_container_set_size s1 cp (box_x box) (box_y box)
   }"

subsection \<open>Well-formed references, and what size and position change\<close>

text \<open>
  \<open>view_ok\<close>: the active workspace indexes the array \<open>view_info\<close>.
  \<open>toplevel_ok\<close>: the toplevel exists and its \<open>container\<close> pointer is valid.
  \<open>same_toplevels\<close>: two toplevel stores differ at most in the sizes sent to the clients.
\<close>


definition toplevel_skel :: "cwc_toplevel \<Rightarrow> cwc_toplevel" where
  "toplevel_skel t = t\<lparr>configured_width := 0, configured_height := 0\<rparr>"

definition same_toplevels :: "(addr \<rightharpoonup> cwc_toplevel) \<Rightarrow> (addr \<rightharpoonup> cwc_toplevel) \<Rightarrow> bool" where
  "same_toplevels T T' \<longleftrightarrow> (\<forall>tp. map_option toplevel_skel (T' tp) = map_option toplevel_skel (T tp))"

lemma same_toplevels_refl [simp]: "same_toplevels T T"
  by (simp add: same_toplevels_def)

lemma same_toplevels_trans: "same_toplevels T T' \<Longrightarrow> same_toplevels T' T'' \<Longrightarrow> same_toplevels T T''"
  by (simp add: same_toplevels_def)

lemma is_floating_toplevels_upd [simp]:
  "cwc_container_is_floating (s\<lparr>toplevels := T\<rparr>) c = cwc_container_is_floating s c"
  by (simp add: cwc_container_is_floating_def cwc_output_get_current_view_info_def view_info_at_def)

lemma all_toplevel_set_size_result:
  assumes "all_toplevel_set_size s tp wh = Some (s', wh')"
  shows "\<exists>t. toplevels s tp = Some t
           \<and> s' = s\<lparr>toplevels := (toplevels s)(tp \<mapsto>
                  t\<lparr>configured_width := fst wh', configured_height := snd wh'\<rparr>)\<rparr>
           \<and> fst wh \<le> fst wh' \<and> snd wh \<le> snd wh'"
  using assms
  by (auto simp: all_toplevel_set_size_def split: bind_splits if_splits prod.splits)

lemma for_each_set_size_result:
  assumes "for_each_bottom_to_top_set_size s tps wh = Some (s', wh')"
  shows "\<exists>T'. s' = s\<lparr>toplevels := T'\<rparr> \<and> same_toplevels (toplevels s) T'
           \<and> fst wh \<le> fst wh' \<and> snd wh \<le> snd wh'
           \<and> (\<forall>tp. tp \<notin> set tps \<longrightarrow> T' tp = toplevels s tp)
           \<and> (\<forall>tp \<in> set tps. \<exists>t. T' tp = Some t \<and> fst wh \<le> configured_width t
                   \<and> snd wh \<le> configured_height t)"
  using assms
proof (induction tps arbitrary: s wh)
  case Nil
  then show ?case by (auto intro: exI[of _ "toplevels s"])
next
  case (Cons tp tps)
  from Cons.prems obtain s1 wh1 where
    a: "all_toplevel_set_size s tp wh = Some (s1, wh1)" and
    b: "for_each_bottom_to_top_set_size s1 tps wh1 = Some (s', wh')"
    by (auto split: bind_splits)
  from all_toplevel_set_size_result[OF a] obtain t where
    t: "toplevels s tp = Some t"
       "s1 = s\<lparr>toplevels := (toplevels s)(tp \<mapsto>
                  t\<lparr>configured_width := fst wh1, configured_height := snd wh1\<rparr>)\<rparr>"
       "fst wh \<le> fst wh1" "snd wh \<le> snd wh1" by blast
  from Cons.IH[OF b] obtain T' where
    T: "s' = s1\<lparr>toplevels := T'\<rparr>" "same_toplevels (toplevels s1) T'"
       "fst wh1 \<le> fst wh'" "snd wh1 \<le> snd wh'"
       "\<forall>tp. tp \<notin> set tps \<longrightarrow> T' tp = toplevels s1 tp"
       "\<forall>tp \<in> set tps. \<exists>t. T' tp = Some t \<and> fst wh1 \<le> configured_width t
                   \<and> snd wh1 \<le> configured_height t" by blast
  have s1: "same_toplevels (toplevels s) (toplevels s1)"
    using t by (auto simp: same_toplevels_def toplevel_skel_def)
  have "s' = s\<lparr>toplevels := T'\<rparr>" using T(1) t(2) by simp
  moreover have "same_toplevels (toplevels s) T'"
    using same_toplevels_trans[OF s1 T(2)] .
  moreover have "fst wh \<le> fst wh'" "snd wh \<le> snd wh'" using t T by auto
  moreover have "\<forall>q. q \<notin> set (tp # tps) \<longrightarrow> T' q = toplevels s q"
    using T(5) t(2) by auto
  moreover have "\<forall>q \<in> set (tp # tps). \<exists>t. T' q = Some t \<and> fst wh \<le> configured_width t
                   \<and> snd wh \<le> configured_height t"
  proof
    fix q assume q: "q \<in> set (tp # tps)"
    show "\<exists>t. T' q = Some t \<and> fst wh \<le> configured_width t \<and> snd wh \<le> configured_height t"
    proof (cases "q \<in> set tps")
      case True
      with T(6) t(3,4) show ?thesis by fastforce
    next
      case False
      with q have "q = tp" by simp
      with False T(5) t(2) have "T' q = Some (t\<lparr>configured_width := fst wh1, configured_height := snd wh1\<rparr>)"
        by simp
      with t(3,4) show ?thesis by simp
    qed
  qed
  ultimately show ?case by blast
qed


definition view_ok :: "cwc_state \<Rightarrow> bool" where
  "view_ok s \<longleftrightarrow> 0 \<le> active_workspace s \<and> active_workspace s < MAX_WORKSPACE"

definition toplevel_ok :: "cwc_state \<Rightarrow> addr \<Rightarrow> bool" where
  "toplevel_ok s tp =
     (case toplevels s tp of None \<Rightarrow> False
      | Some t \<Rightarrow> (case toplevel_container t of None \<Rightarrow> False
                   | Some cp \<Rightarrow> containers s cp \<noteq> None))"

lemma view_ok_current: "view_ok s \<Longrightarrow> cwc_output_get_current_view_info s = Some (view_info s (active_workspace s))"
  by (simp add: view_ok_def cwc_output_get_current_view_info_def view_info_at_def)

lemma is_floating_total: "view_ok s \<Longrightarrow> \<exists>b. cwc_container_is_floating s c = Some b"
  by (auto simp: cwc_container_is_floating_def view_ok_current)

lemma should_save_total: "view_ok s \<Longrightarrow> \<exists>b. cwc_container_should_save_floating_box s c = Some b"
  using is_floating_total[of s c] by (auto simp: cwc_container_should_save_floating_box_def)

lemma should_save_toplevels_upd [simp]:
  "cwc_container_should_save_floating_box (s\<lparr>toplevels := T\<rparr>) c = cwc_container_should_save_floating_box s c"
  by (simp add: cwc_container_should_save_floating_box_def)

lemma current_view_toplevels_upd [simp]:
  "cwc_output_get_current_view_info (s\<lparr>toplevels := T\<rparr>) = cwc_output_get_current_view_info s"
  by (simp add: cwc_output_get_current_view_info_def view_info_at_def)

lemma view_ok_toplevels_upd [simp]: "view_ok (s\<lparr>toplevels := T\<rparr>) = view_ok s"
  by (simp add: view_ok_def)

lemma toplevel_ok_same:
  "same_toplevels (toplevels s) T' \<Longrightarrow> toplevel_ok (s\<lparr>toplevels := T'\<rparr>) tp = toplevel_ok s tp"
proof -
  assume a: "same_toplevels (toplevels s) T'"
  then have "map_option toplevel_skel (T' tp) = map_option toplevel_skel (toplevels s tp)"
    by (simp add: same_toplevels_def)
  then show ?thesis
    by (cases "T' tp"; cases "toplevels s tp")
       (auto simp: toplevel_ok_def toplevel_skel_def split: option.splits
             dest!: arg_cong[where f = toplevel_container])
qed

lemma all_toplevel_set_size_total:
  assumes "view_ok s" "toplevel_ok s tp"
  shows "\<exists>r. all_toplevel_set_size s tp wh = Some r"
proof -
  from assms(2) obtain t cp c where t: "toplevels s tp = Some t" "toplevel_container t = Some cp"
    "containers s cp = Some c"
    by (auto simp: toplevel_ok_def split: option.splits)
  from is_floating_total[OF assms(1), of c] obtain b where "cwc_container_is_floating s c = Some b" ..
  with t show ?thesis by (cases wh) (auto simp: all_toplevel_set_size_def)
qed

lemma for_each_set_size_total:
  assumes "view_ok s" "list_all (toplevel_ok s) tps"
  shows "\<exists>r. for_each_bottom_to_top_set_size s tps wh = Some r"
  using assms
proof (induction tps arbitrary: s wh)
  case Nil
  then show ?case by simp
next
  case (Cons tp tps)
  from Cons.prems have ok: "toplevel_ok s tp" "list_all (toplevel_ok s) tps" by simp_all
  from all_toplevel_set_size_total[OF Cons.prems(1) ok(1)] obtain s1 wh1 where
    a: "all_toplevel_set_size s tp wh = Some (s1, wh1)" by fastforce
  from all_toplevel_set_size_result[OF a] obtain t where
    t: "toplevels s tp = Some t"
       "s1 = s\<lparr>toplevels := (toplevels s)(tp \<mapsto>
                  t\<lparr>configured_width := fst wh1, configured_height := snd wh1\<rparr>)\<rparr>" by blast
  have same: "same_toplevels (toplevels s) (toplevels s1)"
    using t by (auto simp: same_toplevels_def toplevel_skel_def)
  have s1eq: "s1 = s\<lparr>toplevels := toplevels s1\<rparr>" using t(2) by simp
  have "view_ok s1" using Cons.prems(1) t(2) by simp
  moreover have "list_all (toplevel_ok s1) tps"
    using ok(2) toplevel_ok_same[OF same] s1eq by (metis (mono_tags, lifting) list.pred_mono_strong)
  ultimately obtain r where "for_each_bottom_to_top_set_size s1 tps wh1 = Some r"
    using Cons.IH by blast
  with a show ?case by (cases r) auto
qed


lemma border_resize_fields [simp]:
  "thickness (cwc_border_resize b w h) = thickness b"
  "border_enabled (cwc_border_resize b w h) = border_enabled b"
  "border_valid (cwc_border_resize b w h) = border_valid b"
  "cwc_border_get_thickness (cwc_border_resize b w h) = cwc_border_get_thickness b"
  by (simp_all add: cwc_border_resize_def cwc_border_get_thickness_def)

lemma is_floating_cong:
  "cont_state c' = cont_state c \<Longrightarrow> active_workspace s' = active_workspace s \<Longrightarrow> view_info s' = view_info s
   \<Longrightarrow> cwc_container_is_floating s' c' = cwc_container_is_floating s c"
  by (simp add: cwc_container_is_floating_def cwc_output_get_current_view_info_def view_info_at_def)

lemma should_save_cong:
  "cont_state c' = cont_state c \<Longrightarrow> active_workspace s' = active_workspace s \<Longrightarrow> view_info s' = view_info s
   \<Longrightarrow> cwc_container_should_save_floating_box s' c' = cwc_container_should_save_floating_box s c"
  by (simp add: cwc_container_should_save_floating_box_def is_floating_cong[of c' c s' s]
      cwc_container_is_fullscreen_def cwc_container_is_maximized_def)

lemma cwc_container_set_size_result:
  assumes "cwc_container_set_size s cp w h = Some s'"
  shows "\<exists>c T' b save. containers s cp = Some c \<and> same_toplevels (toplevels s) T'
          \<and> cwc_container_should_save_floating_box s c = Some save
          \<and> s' = s\<lparr>toplevels := T', containers := (containers s)(cp \<mapsto>
                 c\<lparr>border := b,
                   floating_box := (if save then (floating_box c)\<lparr>box_width := w, box_height := h\<rparr>
                                    else floating_box c),
                   cont_width := w, cont_height := h\<rparr>)\<rparr>
          \<and> thickness b = thickness (border c) \<and> border_enabled b = border_enabled (border c)
          \<and> border_valid b = border_valid (border c)
          \<and> (\<forall>tp \<in> set (tree_children c). \<exists>t. T' tp = Some t
                 \<and> MIN_WIDTH \<le> configured_width t \<and> MIN_WIDTH \<le> configured_height t)
          \<and> (\<forall>tp. tp \<notin> set (tree_children c) \<longrightarrow> T' tp = toplevels s tp)"
proof -
  from assms obtain c info s1 rect c1 save where
    c: "containers s cp = Some c" and
    info: "cwc_output_get_current_view_info s = Some info" and
    loop: "for_each_bottom_to_top_set_size s (tree_children c)
             (max (w - (cwc_border_get_thickness (border c) + useless_gaps info) * 2) MIN_WIDTH,
              max (h - (cwc_border_get_thickness (border c) + useless_gaps info) * 2) MIN_WIDTH)
           = Some (s1, rect)" and
    c1: "containers s1 cp = Some c1" and
    save: "cwc_container_should_save_floating_box s1
             (c1\<lparr>border := cwc_border_resize (border c1)
                  (fst rect + cwc_border_get_thickness (border c) * 2)
                  (snd rect + cwc_border_get_thickness (border c) * 2)\<rparr>) = Some save" and
    s': "s' = s1\<lparr>containers := (containers s1)(cp \<mapsto>
            (if save
             then (c1\<lparr>border := cwc_border_resize (border c1)
                  (fst rect + cwc_border_get_thickness (border c) * 2)
                  (snd rect + cwc_border_get_thickness (border c) * 2)\<rparr>)
                  \<lparr>floating_box := (floating_box c1)\<lparr>box_width := w, box_height := h\<rparr>\<rparr>
             else (c1\<lparr>border := cwc_border_resize (border c1)
                  (fst rect + cwc_border_get_thickness (border c) * 2)
                  (snd rect + cwc_border_get_thickness (border c) * 2)\<rparr>))
            \<lparr>cont_width := w, cont_height := h\<rparr>)\<rparr>"
    by (auto simp: cwc_container_set_size_def Let_def split: bind_splits prod.splits)
  from for_each_set_size_result[OF loop] obtain T' where
    T: "s1 = s\<lparr>toplevels := T'\<rparr>" "same_toplevels (toplevels s) T'"
       "\<forall>tp. tp \<notin> set (tree_children c) \<longrightarrow> T' tp = toplevels s tp"
       "\<forall>tp \<in> set (tree_children c). \<exists>t. T' tp = Some t
          \<and> max (w - (cwc_border_get_thickness (border c) + useless_gaps info) * 2) MIN_WIDTH \<le> configured_width t
          \<and> max (h - (cwc_border_get_thickness (border c) + useless_gaps info) * 2) MIN_WIDTH \<le> configured_height t"
    by auto
  have c1eq: "c1 = c" using c1 c T(1) by simp
  let ?b = "cwc_border_resize (border c)
                  (fst rect + cwc_border_get_thickness (border c) * 2)
                  (snd rect + cwc_border_get_thickness (border c) * 2)"
  have save': "cwc_container_should_save_floating_box s c = Some save"
    using save should_save_cong[of "c\<lparr>border := ?b\<rparr>" c s1 s] T(1) c1eq by simp
  have "s' = s\<lparr>toplevels := T', containers := (containers s)(cp \<mapsto>
                 c\<lparr>border := ?b,
                   floating_box := (if save then (floating_box c)\<lparr>box_width := w, box_height := h\<rparr>
                                    else floating_box c),
                   cont_width := w, cont_height := h\<rparr>)\<rparr>"
    using s' T(1) c1eq by (cases save) simp_all
  moreover have "\<forall>tp \<in> set (tree_children c). \<exists>t. T' tp = Some t
                 \<and> MIN_WIDTH \<le> configured_width t \<and> MIN_WIDTH \<le> configured_height t"
    using T(4) by fastforce
  ultimately show ?thesis using c T(2,3) save' by (intro exI[of _ c] exI[of _ T'] exI[of _ ?b] exI[of _ save]) simp
qed

lemma cwc_container_set_size_total:
  assumes "view_ok s" "containers s cp = Some c" "list_all (toplevel_ok s) (tree_children c)"
  shows "\<exists>s'. cwc_container_set_size s cp w h = Some s'"
proof -
  let ?info = "view_info s (active_workspace s)"
  let ?wh = "(max (w - (cwc_border_get_thickness (border c) + useless_gaps ?info) * 2) MIN_WIDTH,
              max (h - (cwc_border_get_thickness (border c) + useless_gaps ?info) * 2) MIN_WIDTH)"
  from for_each_set_size_total[OF assms(1,3), of ?wh] obtain s1 rect where
    loop: "for_each_bottom_to_top_set_size s (tree_children c) ?wh = Some (s1, rect)" by auto
  from for_each_set_size_result[OF loop] obtain T' where
    T: "s1 = s\<lparr>toplevels := T'\<rparr>" by auto
  have c1: "containers s1 cp = Some c" using T assms(2) by simp
  have "view_ok s1" using T assms(1) by simp
  from should_save_total[OF this] obtain save where
    "cwc_container_should_save_floating_box s1
             (c\<lparr>border := cwc_border_resize (border c)
                  (fst rect + cwc_border_get_thickness (border c) * 2)
                  (snd rect + cwc_border_get_thickness (border c) * 2)\<rparr>) = Some save" by blast
  with loop c1 assms show ?thesis
    by (simp add: cwc_container_set_size_def Let_def view_ok_current)
qed


lemma cwc_container_set_position_result:
  assumes "cwc_container_set_position s cp x y = Some s'"
  shows "\<exists>c save. containers s cp = Some c \<and> cwc_container_should_save_floating_box s c = Some save
          \<and> s' = s\<lparr>containers := (containers s)(cp \<mapsto>
                 c\<lparr>cont_x := x, cont_y := y,
                   floating_box := (if save then (floating_box c)\<lparr>box_x := x, box_y := y\<rparr>
                                    else floating_box c)\<rparr>)\<rparr>"
proof -
  from assms obtain c save where
    c: "containers s cp = Some c" and
    save: "cwc_container_should_save_floating_box s (c\<lparr>cont_x := x, cont_y := y\<rparr>) = Some save" and
    s': "s' = s\<lparr>containers := (containers s)(cp \<mapsto>
            (if save then (c\<lparr>cont_x := x, cont_y := y\<rparr>)
                  \<lparr>floating_box := (floating_box c)\<lparr>box_x := x, box_y := y\<rparr>\<rparr>
             else c\<lparr>cont_x := x, cont_y := y\<rparr>))\<rparr>"
    by (auto simp: cwc_container_set_position_def Let_def split: bind_splits)
  have "cwc_container_should_save_floating_box s c = Some save"
    using save should_save_cong[of "c\<lparr>cont_x := x, cont_y := y\<rparr>" c s s] by simp
  with c s' show ?thesis by (cases save) auto
qed

lemma cwc_container_set_position_total:
  assumes "view_ok s" "containers s cp = Some c"
  shows "\<exists>s'. cwc_container_set_position s cp x y = Some s'"
  using assms should_save_total[OF assms(1), of "c\<lparr>cont_x := x, cont_y := y\<rparr>"]
  by (auto simp: cwc_container_set_position_def Let_def)

subsection \<open>A concrete state\<close>

text \<open>
  One output of 1920x1080 in the floating layout (the initial layout of
  \<open>cwc_output_state_create\<close>: gap 0, one master, \<open>mwfact = 0.5\<close>, strategy \<open>tile\<close>),
  with one container at \<open>(100,100,640,480)\<close> holding one native toplevel, border 1.
\<close>

definition demo_view :: cwc_view_info where
  "demo_view = \<lparr>layout_mode = CWC_LAYOUT_FLOATING, useless_gaps = 0,
     bsp_entry = \<lparr>root = None, last_focused = None\<rparr>,
     master = \<lparr>master_count = 1, column_count = 1, mwfact = 0.5, current_layout = LAYOUT_TILE\<rparr>\<rparr>"

definition demo_toplevel :: cwc_toplevel where
  "demo_toplevel = \<lparr>is_x11 = False, override_redirect = False, toplevel_container = Some 1,
     min_width = 0, min_height = 0, configured_width = 638, configured_height = 478\<rparr>"

definition demo_container :: cwc_container where
  "demo_container = \<lparr>cont_x = 100, cont_y = 100, cont_width = 640, cont_height = 480,
     floating_box = \<lparr>box_x = 100, box_y = 100, box_width = 640, box_height = 480\<rparr>,
     cont_state = 0, cont_tag = 1, cont_workspace = 1, cont_bsp_node = None,
     border = \<lparr>thickness = 1, border_width = 640, border_height = 480,
                border_enabled = True, border_valid = True\<rparr>,
     cont_toplevels = [1], tree_children = [1]\<rparr>"

definition demo_state :: cwc_state where
  "demo_state = \<lparr>usable_area = \<lparr>box_x = 0, box_y = 0, box_width = 1920, box_height = 1080\<rparr>,
     output_width = 1920, output_height = 1080, active_tag = 1, active_workspace = 1,
     view_info = (\<lambda>i. demo_view), output_containers = [1],
     containers = [1 \<mapsto> demo_container], toplevels = [1 \<mapsto> demo_toplevel],
     bsp_nodes = Map.empty, next_node = 0\<rparr>"

lemmas demo_defs = demo_state_def demo_container_def demo_toplevel_def demo_view_def

lemmas state_bit_defs = CONTAINER_STATE_UNMANAGED_def CONTAINER_STATE_FLOATING_def
  CONTAINER_STATE_MINIMIZED_def CONTAINER_STATE_MAXIMIZED_def CONTAINER_STATE_FULLSCREEN_def
  CONTAINER_STATE_STICKY_def

lemma demo_ok: "view_ok demo_state" "containers demo_state 1 = Some demo_container"
  "list_all (toplevel_ok demo_state) (tree_children demo_container)"
  by (simp_all add: demo_defs view_ok_def MAX_WORKSPACE_def toplevel_ok_def)

subsection \<open>Claims about \<open>set_size\<close> and \<open>set_geometry\<close>\<close>

text \<open>
  Claim C7, as the code has it.  \<open>cwc_container_set_size (w, h)\<close> clamps the size sent
  to every toplevel of the container to at least \<open>MIN_WIDTH = 20\<close> in each dimension
  ("hard limit of minimum toplevel width"); the container's own width and height
  become \<open>w\<close> and \<open>h\<close> as requested.  The call returns whenever the container and its
  toplevels exist.
\<close>

theorem set_size_clamps_toplevels:
  assumes "view_ok s" "containers s cp = Some c" "list_all (toplevel_ok s) (tree_children c)"
  shows "\<exists>s' c'. cwc_container_set_size s cp w h = Some s' \<and> containers s' cp = Some c'
        \<and> cont_width c' = w \<and> cont_height c' = h
        \<and> (\<forall>tp \<in> set (tree_children c). \<exists>t. toplevels s' tp = Some t
               \<and> 20 \<le> configured_width t \<and> 20 \<le> configured_height t)"
proof -
  from cwc_container_set_size_total[OF assms] obtain s' where
    s': "cwc_container_set_size s cp w h = Some s'" by blast
  from cwc_container_set_size_result[OF s'] assms(2) show ?thesis
    using s' by (fastforce simp: MIN_WIDTH_def)
qed

theorem set_size_clamps_toplevels_witness:
  "view_ok demo_state \<and> containers demo_state 1 = Some demo_container
   \<and> list_all (toplevel_ok demo_state) (tree_children demo_container)
   \<and> (\<exists>s' c'. cwc_container_set_size demo_state 1 5 5 = Some s' \<and> containers s' 1 = Some c'
        \<and> cont_width c' = 5 \<and> cont_height c' = 5
        \<and> (\<forall>tp \<in> set (tree_children demo_container). \<exists>t. toplevels s' tp = Some t
               \<and> 20 \<le> configured_width t \<and> 20 \<le> configured_height t))"
  using demo_ok set_size_clamps_toplevels[OF demo_ok, of 5 5] by simp

text \<open>
  Claim C7, as stated, fails: after \<open>set_size (5, 5)\<close> the container's width and
  height are 5, below 20.
\<close>

theorem set_size_container_below_minimum:
  "map_option (\<lambda>s'. map_option (\<lambda>c. (cont_width c, cont_height c)) (containers s' 1))
     (cwc_container_set_size demo_state 1 5 5) = Some (Some (5, 5))"
  by code_simp

text \<open>
  Claim C8 (the code departs from it).  Setting the geometry
  \<open>{x = 10, y = 20, width = 300, height = 200}\<close> moves the container to \<open>(10, 20)\<close> and
  then calls \<open>cwc_container_set_size (box.x, box.y)\<close>: the size becomes \<open>10 x 20\<close>,
  not \<open>300 x 200\<close>.
\<close>

theorem set_geometry_uses_position_as_size:
  "map_option (\<lambda>s'. map_option cwc_container_get_box (containers s' 1))
     (luaC_container_set_geometry demo_state 1 (Some 10) (Some 20) (Some 300) (Some 200))
   = Some (Some \<lparr>box_x = 10, box_y = 20, box_width = 10, box_height = 20\<rparr>)"
  by code_simp

section \<open>Binary space partition (bsp.c)\<close>

text \<open>
  \<open>bsp_entry_get\<close> returns \<open>NULL\<close> (the inner \<open>None\<close>) when the tree of the workspace
  is empty; the root entry itself is stored in \<open>view_info[workspace]\<close>.
\<close>

definition bsp_entry_get :: "cwc_state \<Rightarrow> int \<Rightarrow> bsp_root_entry option option" where
  "bsp_entry_get s workspace = do {
     info \<leftarrow> view_info_at s workspace;
     Some (if root (bsp_entry info) = None then None else Some (bsp_entry info))
   }"

definition set_bsp_entry :: "cwc_state \<Rightarrow> int \<Rightarrow> bsp_root_entry \<Rightarrow> cwc_state" where
  "set_bsp_entry s workspace e =
     s\<lparr>view_info := (view_info s)(workspace := (view_info s workspace)\<lparr>bsp_entry := e\<rparr>)\<rparr>"

definition bsp_entry_init :: "cwc_state \<Rightarrow> int \<Rightarrow> addr \<Rightarrow> cwc_state option" where
  "bsp_entry_init s workspace root_node = do {
     info \<leftarrow> view_info_at s workspace;
     Some (set_bsp_entry s workspace ((bsp_entry info)\<lparr>root := Some root_node\<rparr>))
   }"

definition bsp_node_set_position :: "bsp_node \<Rightarrow> int \<Rightarrow> int \<Rightarrow> bsp_node" where
  "bsp_node_set_position node x y = node\<lparr>node_x := x, node_y := y\<rparr>"

definition bsp_node_set_size :: "bsp_node \<Rightarrow> int \<Rightarrow> int \<Rightarrow> bsp_node" where
  "bsp_node_set_size node w h = node\<lparr>node_width := w, node_height := h\<rparr>"

definition bsp_node_leaf_configure ::
  "cwc_state \<Rightarrow> addr \<Rightarrow> int \<Rightarrow> int \<Rightarrow> int \<Rightarrow> int \<Rightarrow> cwc_state option" where
  "bsp_node_leaf_configure s np x y w h = do {
     node \<leftarrow> bsp_nodes s np;
     cp \<leftarrow> node_container node;
     c \<leftarrow> containers s cp;
     if \<not> cwc_container_is_configure_allowed c then Some s
     else do {
       fl \<leftarrow> cwc_container_is_floating s c;
       s1 \<leftarrow> (if \<not> fl then do {
                 s' \<leftarrow> cwc_container_set_size s cp w h;
                 cwc_container_set_position_gap s' cp x y
               } else Some s);
       node1 \<leftarrow> bsp_nodes s1 np;
       Some (s1\<lparr>bsp_nodes := (bsp_nodes s1)(np \<mapsto>
               bsp_node_set_size (bsp_node_set_position node1 x y) w h)\<rparr>)
     }
   }"

text \<open>
  The \<open>switch\<close> of \<open>bsp_update_node\<close>: the geometry of the two children from the
  parent's.  \<open>BSP_SPLIT_AUTO\<close> is \<open>unreachable_()\<close>, a failed assertion (assertions
  abort, as in a debug build).
\<close>

definition bsp_split_children :: "bsp_node \<Rightarrow> bsp_node \<Rightarrow> bsp_node \<Rightarrow> (bsp_node \<times> bsp_node) option" where
  "bsp_split_children parent left right =
     (let left = left\<lparr>node_x := node_x parent, node_y := node_y parent\<rparr> in
      case split_type parent of
        BSP_SPLIT_VERTICAL \<Rightarrow>
          (let left = left\<lparr>node_width := double_to_int (real_of_int (node_width parent) * left_wfact parent),
                            node_height := node_height parent\<rparr>;
               right = right\<lparr>node_width := node_width parent - node_width left,
                              node_height := node_height parent,
                              node_x := node_x left + node_width left,
                              node_y := node_y left\<rparr>
           in Some (left, right))
      | BSP_SPLIT_HORIZONTAL \<Rightarrow>
          (let left = left\<lparr>node_width := node_width parent,
                            node_height := double_to_int (real_of_int (node_height parent) * left_wfact parent)\<rparr>;
               right = right\<lparr>node_width := node_width parent,
                              node_height := node_height parent - node_height left,
                              node_x := node_x left,
                              node_y := node_y left + node_height left\<rparr>
           in Some (left, right))
      | BSP_SPLIT_AUTO \<Rightarrow> None)"

text \<open>
  \<open>bsp_update_node\<close> recurses over pointers: the model takes fuel.  The function
  reads the parent and its two children and writes the children; the model works on
  copies, which is the same as long as the three nodes are different objects, and
  stops (\<open>None\<close>) when they are not, since that is no tree.
\<close>

fun bsp_update_node :: "nat \<Rightarrow> cwc_state \<Rightarrow> addr \<Rightarrow> cwc_state option" where
  "bsp_update_node 0 s p = None"
| "bsp_update_node (Suc fuel) s p = do {
     parent \<leftarrow> bsp_nodes s p;
     lp \<leftarrow> node_left parent;
     rp \<leftarrow> node_right parent;
     left0 \<leftarrow> bsp_nodes s lp;
     right0 \<leftarrow> bsp_nodes s rp;
     (left1, right) \<leftarrow> (if lp = rp \<or> lp = p \<or> rp = p then None
                         else bsp_split_children parent left0 right0);
     let left = (if \<not> node_enabled right
                 then left1\<lparr>node_width := node_width parent, node_height := node_height parent\<rparr>
                 else left1);
     let s1 = s\<lparr>bsp_nodes := (bsp_nodes s)(lp \<mapsto> left, rp \<mapsto> right)\<rparr>;
     s2 \<leftarrow> (if node_enabled left then
               (if node_type left = BSP_NODE_LEAF
                then bsp_node_leaf_configure s1 lp (node_x parent) (node_y parent)
                       (node_width left) (node_height left)
                else bsp_update_node fuel
                       (s1\<lparr>bsp_nodes := (bsp_nodes s1)(lp \<mapsto>
                             bsp_node_set_position left (node_x parent) (node_y parent))\<rparr>) lp)
             else Some (s1\<lparr>bsp_nodes := (bsp_nodes s1)(rp \<mapsto>
                          right\<lparr>node_x := node_x parent, node_y := node_y parent,
                                node_width := node_width parent,
                                node_height := node_height parent\<rparr>)\<rparr>));
     right2 \<leftarrow> bsp_nodes s2 rp;
     if node_enabled right2 then
       (if node_type right2 = BSP_NODE_LEAF
        then bsp_node_leaf_configure s2 rp (node_x right2) (node_y right2)
               (node_width right2) (node_height right2)
        else bsp_update_node fuel s2 rp)
     else Some s2
   }"

definition bsp_update_root :: "nat \<Rightarrow> cwc_state \<Rightarrow> int \<Rightarrow> cwc_state option" where
  "bsp_update_root fuel s workspace = do {
     e \<leftarrow> bsp_entry_get s workspace;
     case e of
       None \<Rightarrow> Some s
     | Some entry \<Rightarrow> do {
         rp \<leftarrow> root entry;
         rn \<leftarrow> bsp_nodes s rp;
         let ua = usable_area s;
         if node_type rn = BSP_NODE_LEAF
         then bsp_node_leaf_configure s rp (box_x ua) (box_y ua) (box_width ua) (box_height ua)
         else bsp_update_node fuel
                (s\<lparr>bsp_nodes := (bsp_nodes s)(rp \<mapsto>
                     bsp_node_set_position (bsp_node_set_size rn (box_width ua) (box_height ua))
                       (box_x ua) (box_y ua))\<rparr>) rp
       }
   }"

text \<open>\<open>_bsp_node_enable\<close>: enable every node up to the root, which is returned.\<close>

fun bsp_node_enable_rec :: "nat \<Rightarrow> cwc_state \<Rightarrow> addr \<Rightarrow> (cwc_state \<times> addr) option" where
  "bsp_node_enable_rec 0 s np = None"
| "bsp_node_enable_rec (Suc fuel) s np = do {
     node \<leftarrow> bsp_nodes s np;
     let s1 = s\<lparr>bsp_nodes := (bsp_nodes s)(np \<mapsto> node\<lparr>node_enabled := True\<rparr>)\<rparr>;
     case node_parent node of
       None \<Rightarrow> Some (s1, np)
     | Some pp \<Rightarrow> bsp_node_enable_rec fuel s1 pp
   }"

definition bsp_node_enable :: "nat \<Rightarrow> cwc_state \<Rightarrow> addr \<Rightarrow> cwc_state option" where
  "bsp_node_enable fuel s np = do {
     (s1, rp) \<leftarrow> bsp_node_enable_rec fuel s np;
     rn \<leftarrow> bsp_nodes s1 rp;
     if node_type rn = BSP_NODE_INTERNAL then bsp_update_node fuel s1 rp
     else do {
       cp \<leftarrow> node_container rn;
       c \<leftarrow> containers s1 cp;
       bsp_update_root fuel s1 (active_workspace s1)
     }
   }"

text \<open>
  \<open>_bsp_node_disable\<close>: disable the node, and its ancestors as long as both
  children of the ancestor are disabled; the last node disabled is returned.
\<close>

fun bsp_node_disable_rec :: "nat \<Rightarrow> cwc_state \<Rightarrow> addr \<Rightarrow> (cwc_state \<times> addr) option" where
  "bsp_node_disable_rec 0 s np = None"
| "bsp_node_disable_rec (Suc fuel) s np = do {
     node \<leftarrow> bsp_nodes s np;
     let s1 = s\<lparr>bsp_nodes := (bsp_nodes s)(np \<mapsto> node\<lparr>node_enabled := False\<rparr>)\<rparr>;
     case node_parent node of
       None \<Rightarrow> Some (s1, np)
     | Some pp \<Rightarrow> do {
         parent \<leftarrow> bsp_nodes s1 pp;
         lp \<leftarrow> node_left parent;
         left \<leftarrow> bsp_nodes s1 lp;
         if node_enabled left then Some (s1, np)
         else do {
           rp \<leftarrow> node_right parent;
           right \<leftarrow> bsp_nodes s1 rp;
           if node_enabled right then Some (s1, np)
           else bsp_node_disable_rec fuel s1 pp
         }
       }
   }"

definition bsp_node_disable :: "nat \<Rightarrow> cwc_state \<Rightarrow> addr \<Rightarrow> cwc_state option" where
  "bsp_node_disable fuel s np = do {
     (s1, lu) \<leftarrow> bsp_node_disable_rec fuel s np;
     last_updated \<leftarrow> bsp_nodes s1 lu;
     if node_type last_updated = BSP_NODE_INTERNAL \<and> node_parent last_updated \<noteq> None
     then do { pp \<leftarrow> node_parent last_updated; bsp_update_node fuel s1 pp }
     else if node_type last_updated = BSP_NODE_LEAF
     then do {
       cp \<leftarrow> node_container last_updated;
       c \<leftarrow> containers s1 cp;
       bsp_update_root fuel s1 (active_workspace s1)
     }
     else Some s1
   }"

definition bsp_last_focused_update :: "cwc_state \<Rightarrow> addr \<Rightarrow> cwc_state option" where
  "bsp_last_focused_update s cp = do {
     c \<leftarrow> containers s cp;
     e \<leftarrow> bsp_entry_get s (cont_workspace c);
     case e of
       None \<Rightarrow> Some s
     | Some entry \<Rightarrow> Some (set_bsp_entry s (cont_workspace c) (entry\<lparr>last_focused := Some cp\<rparr>))
   }"

text \<open>
  The two constructors.  \<open>calloc\<close> zeroes the node: \<open>NULL\<close> pointers,
  \<open>BSP_SPLIT_AUTO\<close> (the first enumerator), factor and geometry 0.  The new node
  gets the next free address.
\<close>

definition bsp_node_internal_create ::
  "cwc_state \<Rightarrow> addr option \<Rightarrow> int \<Rightarrow> int \<Rightarrow> int \<Rightarrow> int \<Rightarrow> bsp_split_type \<Rightarrow> cwc_state \<times> addr" where
  "bsp_node_internal_create s parent x y w h split =
     (s\<lparr>bsp_nodes := (bsp_nodes s)(next_node s \<mapsto>
          \<lparr>node_type = BSP_NODE_INTERNAL, node_container = None, node_parent = parent,
           node_left = None, node_right = None, node_enabled = True, split_type = split,
           left_wfact = 0.5, node_x = x, node_y = y, node_width = w, node_height = h\<rparr>),
        next_node := Suc (next_node s)\<rparr>,
      next_node s)"

definition bsp_node_leaf_create :: "cwc_state \<Rightarrow> addr option \<Rightarrow> addr \<Rightarrow> cwc_state \<times> addr" where
  "bsp_node_leaf_create s parent container =
     (s\<lparr>bsp_nodes := (bsp_nodes s)(next_node s \<mapsto>
          \<lparr>node_type = BSP_NODE_LEAF, node_container = Some container, node_parent = parent,
           node_left = None, node_right = None, node_enabled = True,
           split_type = BSP_SPLIT_AUTO, left_wfact = 0,
           node_x = 0, node_y = 0, node_width = 0, node_height = 0\<rparr>),
        next_node := Suc (next_node s)\<rparr>,
      next_node s)"

text \<open>
  \<open>_bsp_insert_toplevel\<close>.  \<open>root_entry\<close> is the entry of \<open>workspace\<close>.  The
  \<open>unreachable_()\<close> of the grandparent update is a failed assertion.
\<close>

definition bsp_insert_toplevel :: "nat \<Rightarrow> cwc_state \<Rightarrow> int \<Rightarrow> addr \<Rightarrow> addr \<Rightarrow> cwc_state option" where
  "bsp_insert_toplevel fuel s workspace sibling new = do {
     sib \<leftarrow> containers s sibling;
     lp \<leftarrow> cont_bsp_node sib;
     left \<leftarrow> bsp_nodes s lp;
     let split = (if node_width left \<ge> node_height left
                  then BSP_SPLIT_VERTICAL else BSP_SPLIT_HORIZONTAL);
     let (s1, pp) = bsp_node_internal_create s (node_parent left)
                      (node_x left) (node_y left) (node_width left) (node_height left) split;
     info \<leftarrow> view_info_at s1 workspace;
     parent_node \<leftarrow> bsp_nodes s1 pp;
     newc \<leftarrow> containers s1 new;
     let s2 = (if Some lp = root (bsp_entry info)
               then set_bsp_entry
                      (s1\<lparr>bsp_nodes := (bsp_nodes s1)(pp \<mapsto>
                           parent_node\<lparr>node_x := box_x (usable_area s1),
                                       node_y := box_y (usable_area s1),
                                       node_width := box_width (usable_area s1),
                                       node_height := box_height (usable_area s1),
                                       left_wfact := 0.5\<rparr>)\<rparr>)
                      workspace ((bsp_entry info)\<lparr>root := Some pp\<rparr>)
               else s1);
     let (s3, rp) = bsp_node_leaf_create s2 (Some pp) new;
     let s4 = s3\<lparr>containers := (containers s3)(new \<mapsto> newc\<lparr>cont_bsp_node := Some rp\<rparr>)\<rparr>;
     left4 \<leftarrow> bsp_nodes s4 lp;
     let s5 = s4\<lparr>bsp_nodes := (bsp_nodes s4)(lp \<mapsto> left4\<lparr>node_parent := Some pp\<rparr>)\<rparr>;
     parent5 \<leftarrow> bsp_nodes s5 pp;
     let s6 = s5\<lparr>bsp_nodes := (bsp_nodes s5)(pp \<mapsto>
                   parent5\<lparr>node_left := Some lp, node_right := Some rp\<rparr>)\<rparr>;
     s7 \<leftarrow> (case node_parent parent5 of
              None \<Rightarrow> Some s6
            | Some gp \<Rightarrow> do {
                g \<leftarrow> bsp_nodes s6 gp;
                if node_left g = Some lp
                then Some (s6\<lparr>bsp_nodes := (bsp_nodes s6)(gp \<mapsto> g\<lparr>node_left := Some pp\<rparr>)\<rparr>)
                else if node_right g = Some lp
                then Some (s6\<lparr>bsp_nodes := (bsp_nodes s6)(gp \<mapsto> g\<lparr>node_right := Some pp\<rparr>)\<rparr>)
                else None
              });
     bsp_node_enable fuel s7 rp
   }"

text \<open>
  \<open>bsp_insert_container\<close>.  \<open>cwc_assert (new->bsp_node == NULL)\<close> is an assertion.
\<close>

definition bsp_insert_container :: "nat \<Rightarrow> cwc_state \<Rightarrow> addr \<Rightarrow> int \<Rightarrow> cwc_state option" where
  "bsp_insert_container fuel s new workspace = do {
     e \<leftarrow> bsp_entry_get s workspace;
     newc \<leftarrow> containers s new;
     if cont_bsp_node newc \<noteq> None then None
     else do {
       let s1 = s\<lparr>containers := (containers s)(new \<mapsto>
                    newc\<lparr>cont_state := cont_state newc AND NOT CONTAINER_STATE_FLOATING\<rparr>)\<rparr>;
       s2 \<leftarrow> (case e of
                None \<Rightarrow> do {
                  let (s', np) = bsp_node_leaf_create s1 None new;
                  newc' \<leftarrow> containers s' new;
                  let s'' = s'\<lparr>containers := (containers s')(new \<mapsto>
                                 newc'\<lparr>cont_bsp_node := Some np\<rparr>)\<rparr>;
                  s3 \<leftarrow> bsp_entry_init s'' workspace np;
                  bsp_update_root fuel s3 (cont_workspace newc')
                }
              | Some entry \<Rightarrow> do {
                  sibling \<leftarrow> last_focused entry;
                  bsp_insert_toplevel fuel s1 workspace sibling new
                });
       info \<leftarrow> view_info_at s2 workspace;
       Some (set_bsp_entry s2 workspace ((bsp_entry info)\<lparr>last_focused := Some new\<rparr>))
     }
   }"

section \<open>Master/stack layout (master.c)\<close>

subsection \<open>Which toplevels are tiled (container.c, toplevel.c, toplevel.h)\<close>

definition cwc_container_is_visible :: "cwc_state \<Rightarrow> cwc_container \<Rightarrow> bool" where
  "cwc_container_is_visible s c =
     (if cwc_container_is_sticky c then True
      else if active_workspace s = 0 \<or> active_tag s = 0 \<or> cwc_container_is_minimized c then False
      else active_workspace s = cont_workspace c \<or> active_tag s AND cont_tag c \<noteq> 0)"

definition cwc_toplevel_is_unmanaged :: "cwc_toplevel \<Rightarrow> bool" where
  "cwc_toplevel_is_unmanaged t = (if is_x11 t then override_redirect t else False)"

text \<open>
  \<open>cwc_toplevel_is_tileable\<close>, applied to a possibly \<open>NULL\<close> toplevel pointer: the
  conjunction is evaluated left to right and stops at the first false conjunct.
\<close>

definition cwc_toplevel_is_tileable :: "cwc_state \<Rightarrow> addr option \<Rightarrow> bool option" where
  "cwc_toplevel_is_tileable s toplevel = do {
     tp \<leftarrow> toplevel;
     t \<leftarrow> toplevels s tp;
     cp \<leftarrow> toplevel_container t;
     c \<leftarrow> containers s cp;
     if \<not> (cwc_container_is_visible s c \<and> cwc_container_get_front_toplevel c = Some tp)
     then Some False
     else do {
       fl \<leftarrow> cwc_container_is_floating s c;
       Some (\<not> fl \<and> \<not> cwc_container_is_fullscreen c \<and> \<not> cwc_container_is_maximized c
             \<and> \<not> cwc_toplevel_is_unmanaged t)
     }
   }"

subsection \<open>The array handed to a strategy\<close>

text \<open>
  \<open>struct cwc_toplevel *tiled_visible[50]\<close> is a list of 50 pointers; reading or
  writing outside it is \<open>None\<close>.
\<close>

definition array_read :: "'a list \<Rightarrow> int \<Rightarrow> 'a option" where
  "array_read xs i = (if 0 \<le> i \<and> i < int (length xs) then Some (xs ! nat i) else None)"

definition array_write :: "'a list \<Rightarrow> int \<Rightarrow> 'a \<Rightarrow> 'a list option" where
  "array_write xs i v = (if 0 \<le> i \<and> i < int (length xs) then Some (xs[nat i := v]) else None)"

text \<open>\<open>toplevels[i]->container\<close>.\<close>

definition toplevel_container_at :: "cwc_state \<Rightarrow> addr option list \<Rightarrow> int \<Rightarrow> addr option" where
  "toplevel_container_at s tls i = do {
     toplevel \<leftarrow> array_read tls i;
     tp \<leftarrow> toplevel;
     t \<leftarrow> toplevels s tp;
     toplevel_container t
   }"

subsection \<open>The strategies \<open>monocle\<close> and \<open>tile\<close>\<close>

function arrange_monocle_loop :: "cwc_state \<Rightarrow> addr option list \<Rightarrow> int \<Rightarrow> cwc_state option" where
  "arrange_monocle_loop s tls i = do {
     toplevel \<leftarrow> array_read tls i;
     case toplevel of
       None \<Rightarrow> Some s
     | Some tp \<Rightarrow> do {
         cp \<leftarrow> toplevel_container_at s tls i;
         s1 \<leftarrow> cwc_container_set_position_gap s cp (box_x (usable_area s)) (box_y (usable_area s));
         s2 \<leftarrow> cwc_container_set_size s1 cp (box_width (usable_area s1)) (box_height (usable_area s1));
         arrange_monocle_loop s2 tls (i + 1)
       }
   }"
  by pat_completeness auto
termination
  by (relation "measure (\<lambda>(s, tls, i). nat (int (length tls) - i))")
     (auto simp: array_read_def split: if_splits)

definition arrange_monocle :: "cwc_state \<Rightarrow> addr option list \<Rightarrow> int \<Rightarrow> master_state \<Rightarrow> cwc_state option" where
  "arrange_monocle s tls len ms = arrange_monocle_loop s tls 0"

text \<open>The \<open>for\<close> loop of \<open>arrange_tile\<close>; it returns the state and \<open>height_used\<close>.\<close>

function arrange_tile_rows ::
  "cwc_state \<Rightarrow> addr option list \<Rightarrow> int \<Rightarrow> int \<Rightarrow> int \<Rightarrow> int \<Rightarrow> int \<Rightarrow> int
     \<Rightarrow> (cwc_state \<times> int) option" where
  "arrange_tile_rows s tls len sec_width sec_height master_width i height_used =
     (if i < len - 1 then do {
        cp \<leftarrow> toplevel_container_at s tls i;
        s1 \<leftarrow> cwc_container_set_size s cp sec_width sec_height;
        s2 \<leftarrow> cwc_container_set_position_gap s1 cp master_width
                (height_used + box_y (usable_area s));
        arrange_tile_rows s2 tls len sec_width sec_height master_width (i + 1)
          (height_used + sec_height)
      } else Some (s, height_used))"
  by pat_completeness auto
termination
  by (relation "measure (\<lambda>(s, tls, len, sw, sh, mw, i, hu). nat (len - 1 - i))") auto

definition arrange_tile :: "cwc_state \<Rightarrow> addr option list \<Rightarrow> int \<Rightarrow> master_state \<Rightarrow> cwc_state option" where
  "arrange_tile s tls len ms =
     (let ua = usable_area s in
      if len = 1 then do {
        cp \<leftarrow> toplevel_container_at s tls 0;
        s1 \<leftarrow> cwc_container_set_size s cp (box_width ua) (box_height ua);
        cwc_container_set_position_gap s1 cp (box_x ua) (box_y ua)
      } else do {
        product \<leftarrow> double_round (real_of_int (box_width ua) * mwfact ms);
        let master_width = double_to_int product;
        let sec_width = box_width ua - master_width;
        cp \<leftarrow> toplevel_container_at s tls 0;
        s1 \<leftarrow> cwc_container_set_size s cp master_width (box_height ua);
        s2 \<leftarrow> cwc_container_set_position_gap s1 cp (box_x ua) (box_y ua);
        let sec_count = len - master_count ms;
        sec_height \<leftarrow> (if sec_count = 0 then None else Some (box_height ua sdiv sec_count));
        (s3, height_used) \<leftarrow> arrange_tile_rows s2 tls len sec_width sec_height master_width 1 0;
        cpl \<leftarrow> toplevel_container_at s3 tls (len - 1);
        s4 \<leftarrow> cwc_container_set_size s3 cpl sec_width (box_height ua - height_used);
        cwc_container_set_position_gap s4 cpl master_width (height_used + box_y ua)
      })"

subsection \<open>\<open>master_arrange_update\<close>\<close>

text \<open>
  The collecting loop over \<open>output->state->containers\<close>: the front toplevel of a
  container is stored at index \<open>i\<close> when it is tileable; the loop stops when
  \<open>i > 49\<close>.
\<close>

fun master_collect ::
  "cwc_state \<Rightarrow> addr list \<Rightarrow> addr option list \<Rightarrow> int \<Rightarrow> (addr option list \<times> int) option" where
  "master_collect s [] tiled_visible i = Some (tiled_visible, i)"
| "master_collect s (cp # cps) tiled_visible i = do {
     container \<leftarrow> containers s cp;
     let front = cwc_container_get_front_toplevel container;
     tileable \<leftarrow> cwc_toplevel_is_tileable s front;
     (tv, i') \<leftarrow> (if tileable
                  then do { tv \<leftarrow> array_write tiled_visible i front; Some (tv, i + 1) }
                  else Some (tiled_visible, i));
     if i' > 49 then Some (tv, i') else master_collect s cps tv i'
   }"

definition master_arrange_update :: "cwc_state \<Rightarrow> cwc_state option" where
  "master_arrange_update s = do {
     info \<leftarrow> cwc_output_get_current_view_info s;
     if layout_mode info \<noteq> CWC_LAYOUT_MASTER then Some s
     else do {
       (tiled_visible, i) \<leftarrow> master_collect s (output_containers s) (replicate 50 None) 0;
       if i \<ge> 1 then
         (case current_layout (master info) of
            LAYOUT_TILE \<Rightarrow> arrange_tile s tiled_visible i (master info)
          | LAYOUT_MONOCLE \<Rightarrow> arrange_monocle s tiled_visible i (master info))
       else Some s
     }
   }"

section \<open>Steps that change geometry only\<close>

text \<open>
  Laying out windows changes positions and sizes (of containers, of their borders
  and floating boxes, of BSP nodes, and the sizes sent to clients) and nothing else.
  \<open>same_structure s s'\<close> says that \<open>s'\<close> differs from \<open>s\<close> in such fields only.
\<close>


definition node_skel :: "bsp_node \<Rightarrow> bsp_node" where
  "node_skel n = n\<lparr>node_x := 0, node_y := 0, node_width := 0, node_height := 0\<rparr>"

definition cont_skel :: "cwc_container \<Rightarrow> cwc_container" where
  "cont_skel c = c\<lparr>cont_x := 0, cont_y := 0, cont_width := 0, cont_height := 0,
     floating_box := \<lparr>box_x = 0, box_y = 0, box_width = 0, box_height = 0\<rparr>,
     border := (border c)\<lparr>border_width := 0, border_height := 0\<rparr>\<rparr>"

definition same_structure :: "cwc_state \<Rightarrow> cwc_state \<Rightarrow> bool" where
  "same_structure s s' \<longleftrightarrow>
     s' = s\<lparr>toplevels := toplevels s', containers := containers s', bsp_nodes := bsp_nodes s'\<rparr>
     \<and> same_toplevels (toplevels s) (toplevels s')
     \<and> (\<forall>cp. map_option cont_skel (containers s' cp) = map_option cont_skel (containers s cp))
     \<and> (\<forall>np. map_option node_skel (bsp_nodes s' np) = map_option node_skel (bsp_nodes s np))"

lemma same_structure_refl [simp]: "same_structure s s"
  by (simp add: same_structure_def)

lemma same_structure_trans:
  assumes "same_structure s s'" "same_structure s' s''"
  shows "same_structure s s''"
proof -
  from assms(1) have a: "s' = s\<lparr>toplevels := toplevels s', containers := containers s', bsp_nodes := bsp_nodes s'\<rparr>"
    by (simp add: same_structure_def)
  from assms(2) have b: "s'' = s'\<lparr>toplevels := toplevels s'', containers := containers s'', bsp_nodes := bsp_nodes s''\<rparr>"
    by (simp add: same_structure_def)
  have "s'' = s\<lparr>toplevels := toplevels s'', containers := containers s'', bsp_nodes := bsp_nodes s''\<rparr>"
    by (subst b, subst a) simp
  then show ?thesis using assms
    by (simp add: same_structure_def same_toplevels_def)
qed

lemma same_structure_fields:
  assumes "same_structure s s'"
  shows "usable_area s' = usable_area s" "output_width s' = output_width s"
    "output_height s' = output_height s" "active_tag s' = active_tag s"
    "active_workspace s' = active_workspace s" "view_info s' = view_info s"
    "output_containers s' = output_containers s" "next_node s' = next_node s"
proof -
  from assms have a: "s' = s\<lparr>toplevels := toplevels s', containers := containers s', bsp_nodes := bsp_nodes s'\<rparr>"
    by (simp add: same_structure_def)
  show "usable_area s' = usable_area s" by (subst a) simp
  show "output_width s' = output_width s" by (subst a) simp
  show "output_height s' = output_height s" by (subst a) simp
  show "active_tag s' = active_tag s" by (subst a) simp
  show "active_workspace s' = active_workspace s" by (subst a) simp
  show "view_info s' = view_info s" by (subst a) simp
  show "output_containers s' = output_containers s" by (subst a) simp
  show "next_node s' = next_node s" by (subst a) simp
qed

lemma same_structure_container:
  assumes "same_structure s s'" "containers s cp = Some c"
  shows "\<exists>c'. containers s' cp = Some c' \<and> cont_skel c' = cont_skel c"
  using assms by (auto simp: same_structure_def dest!: spec[of _ cp])

lemma same_structure_container_rev:
  assumes "same_structure s s'" "containers s' cp = Some c'"
  shows "\<exists>c. containers s cp = Some c \<and> cont_skel c' = cont_skel c"
proof -
  from assms(1) have "map_option cont_skel (containers s' cp) = map_option cont_skel (containers s cp)"
    by (simp add: same_structure_def)
  with assms(2) show ?thesis by (cases "containers s cp") auto
qed

lemma same_structure_toplevel:
  assumes "same_structure s s'" "toplevels s tp = Some t"
  shows "\<exists>t'. toplevels s' tp = Some t' \<and> toplevel_skel t' = toplevel_skel t"
  using assms by (auto simp: same_structure_def same_toplevels_def dest!: spec[of _ tp])

lemma same_structure_node:
  assumes "same_structure s s'" "bsp_nodes s np = Some n"
  shows "\<exists>n'. bsp_nodes s' np = Some n' \<and> node_skel n' = node_skel n"
  using assms by (auto simp: same_structure_def dest!: spec[of _ np])

lemma cont_skel_fields:
  assumes "cont_skel c' = cont_skel c"
  shows "cont_state c' = cont_state c" "cont_tag c' = cont_tag c"
    "cont_workspace c' = cont_workspace c" "cont_bsp_node c' = cont_bsp_node c"
    "cont_toplevels c' = cont_toplevels c" "tree_children c' = tree_children c"
    "thickness (border c') = thickness (border c)"
    "border_enabled (border c') = border_enabled (border c)"
    "border_valid (border c') = border_valid (border c)"
proof -
  show "cont_state c' = cont_state c" using arg_cong[OF assms, of cont_state] by (simp add: cont_skel_def)
  show "cont_tag c' = cont_tag c" using arg_cong[OF assms, of cont_tag] by (simp add: cont_skel_def)
  show "cont_workspace c' = cont_workspace c" using arg_cong[OF assms, of cont_workspace] by (simp add: cont_skel_def)
  show "cont_bsp_node c' = cont_bsp_node c" using arg_cong[OF assms, of cont_bsp_node] by (simp add: cont_skel_def)
  show "cont_toplevels c' = cont_toplevels c" using arg_cong[OF assms, of cont_toplevels] by (simp add: cont_skel_def)
  show "tree_children c' = tree_children c" using arg_cong[OF assms, of tree_children] by (simp add: cont_skel_def)
  show "thickness (border c') = thickness (border c)"
    using arg_cong[OF assms, of "\<lambda>c. thickness (border c)"] by (simp add: cont_skel_def)
  show "border_enabled (border c') = border_enabled (border c)"
    using arg_cong[OF assms, of "\<lambda>c. border_enabled (border c)"] by (simp add: cont_skel_def)
  show "border_valid (border c') = border_valid (border c)"
    using arg_cong[OF assms, of "\<lambda>c. border_valid (border c)"] by (simp add: cont_skel_def)
qed

lemma toplevel_skel_fields:
  assumes "toplevel_skel t' = toplevel_skel t"
  shows "is_x11 t' = is_x11 t" "override_redirect t' = override_redirect t"
    "toplevel_container t' = toplevel_container t" "min_width t' = min_width t"
    "min_height t' = min_height t"
proof -
  show "is_x11 t' = is_x11 t" using arg_cong[OF assms, of is_x11] by (simp add: toplevel_skel_def)
  show "override_redirect t' = override_redirect t" using arg_cong[OF assms, of override_redirect] by (simp add: toplevel_skel_def)
  show "toplevel_container t' = toplevel_container t" using arg_cong[OF assms, of toplevel_container] by (simp add: toplevel_skel_def)
  show "min_width t' = min_width t" using arg_cong[OF assms, of min_width] by (simp add: toplevel_skel_def)
  show "min_height t' = min_height t" using arg_cong[OF assms, of min_height] by (simp add: toplevel_skel_def)
qed

lemma node_skel_fields:
  assumes "node_skel n' = node_skel n"
  shows "node_type n' = node_type n" "node_container n' = node_container n"
    "node_parent n' = node_parent n" "node_left n' = node_left n" "node_right n' = node_right n"
    "node_enabled n' = node_enabled n" "split_type n' = split_type n" "left_wfact n' = left_wfact n"
proof -
  show "node_type n' = node_type n" using arg_cong[OF assms, of node_type] by (simp add: node_skel_def)
  show "node_container n' = node_container n" using arg_cong[OF assms, of node_container] by (simp add: node_skel_def)
  show "node_parent n' = node_parent n" using arg_cong[OF assms, of node_parent] by (simp add: node_skel_def)
  show "node_left n' = node_left n" using arg_cong[OF assms, of node_left] by (simp add: node_skel_def)
  show "node_right n' = node_right n" using arg_cong[OF assms, of node_right] by (simp add: node_skel_def)
  show "node_enabled n' = node_enabled n" using arg_cong[OF assms, of node_enabled] by (simp add: node_skel_def)
  show "split_type n' = split_type n" using arg_cong[OF assms, of split_type] by (simp add: node_skel_def)
  show "left_wfact n' = left_wfact n" using arg_cong[OF assms, of left_wfact] by (simp add: node_skel_def)
qed

lemma same_structure_view_ok: "same_structure s s' \<Longrightarrow> view_ok s' = view_ok s"
  by (simp add: view_ok_def same_structure_fields)

lemma same_structure_toplevel_ok:
  assumes "same_structure s s'"
  shows "toplevel_ok s' tp = toplevel_ok s tp"
proof (cases "toplevels s tp")
  case None
  with assms have "toplevels s' tp = None"
    by (auto simp: same_structure_def same_toplevels_def dest!: spec[of _ tp])
  with None show ?thesis by (simp add: toplevel_ok_def)
next
  case (Some t)
  from same_structure_toplevel[OF assms Some] obtain t' where
    t': "toplevels s' tp = Some t'" "toplevel_skel t' = toplevel_skel t" by blast
  have tc: "toplevel_container t' = toplevel_container t" using toplevel_skel_fields[OF t'(2)] by simp
  show ?thesis
  proof (cases "toplevel_container t")
    case None
    with Some t' tc show ?thesis by (simp add: toplevel_ok_def)
  next
    case (Some cp)
    have "(containers s' cp = None) = (containers s cp = None)"
      using assms by (auto simp: same_structure_def dest!: spec[of _ cp])
    with Some \<open>toplevels s tp = Some t\<close> t' tc show ?thesis by (simp add: toplevel_ok_def)
  qed
qed

lemma set_size_same_structure:
  assumes "cwc_container_set_size s cp w h = Some s'"
  shows "same_structure s s'" "bsp_nodes s' = bsp_nodes s"
    "\<forall>cq. cq \<noteq> cp \<longrightarrow> containers s' cq = containers s cq"
    "\<exists>c c'. containers s cp = Some c \<and> containers s' cp = Some c' \<and> cont_width c' = w \<and> cont_height c' = h
        \<and> cont_x c' = cont_x c \<and> cont_y c' = cont_y c"
proof -
  from cwc_container_set_size_result[OF assms] obtain c T' b save where
    r: "containers s cp = Some c" "same_toplevels (toplevels s) T'"
       "s' = s\<lparr>toplevels := T', containers := (containers s)(cp \<mapsto>
                 c\<lparr>border := b,
                   floating_box := (if save then (floating_box c)\<lparr>box_width := w, box_height := h\<rparr>
                                    else floating_box c),
                   cont_width := w, cont_height := h\<rparr>)\<rparr>"
       "thickness b = thickness (border c)" "border_enabled b = border_enabled (border c)"
       "border_valid b = border_valid (border c)" by blast
  show "same_structure s s'" using r
    by (auto simp: same_structure_def cont_skel_def)
  show "bsp_nodes s' = bsp_nodes s" using r(3) by simp
  show "\<forall>cq. cq \<noteq> cp \<longrightarrow> containers s' cq = containers s cq" using r(3) by simp
  show "\<exists>c c'. containers s cp = Some c \<and> containers s' cp = Some c' \<and> cont_width c' = w \<and> cont_height c' = h
        \<and> cont_x c' = cont_x c \<and> cont_y c' = cont_y c" using r(1,3) by simp
qed

lemma set_position_same_structure:
  assumes "cwc_container_set_position s cp x y = Some s'"
  shows "same_structure s s'" "bsp_nodes s' = bsp_nodes s" "toplevels s' = toplevels s"
    "\<forall>cq. cq \<noteq> cp \<longrightarrow> containers s' cq = containers s cq"
    "\<exists>c c'. containers s cp = Some c \<and> containers s' cp = Some c' \<and> cont_x c' = x \<and> cont_y c' = y
        \<and> cont_width c' = cont_width c \<and> cont_height c' = cont_height c"
proof -
  from cwc_container_set_position_result[OF assms] obtain c save where
    r: "containers s cp = Some c"
       "s' = s\<lparr>containers := (containers s)(cp \<mapsto>
                 c\<lparr>cont_x := x, cont_y := y,
                   floating_box := (if save then (floating_box c)\<lparr>box_x := x, box_y := y\<rparr>
                                    else floating_box c)\<rparr>)\<rparr>" by blast
  show "same_structure s s'" using r
    by (auto simp: same_structure_def cont_skel_def)
  show "bsp_nodes s' = bsp_nodes s" using r(2) by simp
  show "toplevels s' = toplevels s" using r(2) by simp
  show "\<forall>cq. cq \<noteq> cp \<longrightarrow> containers s' cq = containers s cq" using r(2) by simp
  show "\<exists>c c'. containers s cp = Some c \<and> containers s' cp = Some c' \<and> cont_x c' = x \<and> cont_y c' = y
        \<and> cont_width c' = cont_width c \<and> cont_height c' = cont_height c" using r by simp
qed

section \<open>Properties of the master layout\<close>

text \<open>
  \<open>container_ok\<close>: the container exists and so do its toplevels.  \<open>placed s cp\<close>
  is the rectangle of container \<open>cp\<close> in state \<open>s\<close>.
\<close>


lemma distinct_nth_neq:
  "distinct xs \<Longrightarrow> i < length xs \<Longrightarrow> j < length xs \<Longrightarrow> i \<noteq> j \<Longrightarrow> xs ! i \<noteq> xs ! j"
  by (simp add: nth_eq_iff_index_eq)

lemma all_nth: "\<forall>x\<in>set xs. P x \<Longrightarrow> i < length xs \<Longrightarrow> P (xs ! i)"
  by simp


definition container_ok :: "cwc_state \<Rightarrow> addr \<Rightarrow> bool" where
  "container_ok s cp =
     (case containers s cp of None \<Rightarrow> False
      | Some c \<Rightarrow> list_all (toplevel_ok s) (tree_children c) \<and> list_all (toplevel_ok s) (cont_toplevels c))"

definition placed :: "cwc_state \<Rightarrow> addr \<Rightarrow> wlr_box option" where
  "placed s cp = map_option cwc_container_get_box (containers s cp)"

lemma same_structure_container_ok:
  assumes "same_structure s s'"
  shows "container_ok s' cp = container_ok s cp"
proof (cases "containers s cp")
  case None
  with assms have "containers s' cp = None"
    by (auto simp: same_structure_def dest!: spec[of _ cp])
  with None show ?thesis by (simp add: container_ok_def)
next
  case (Some c)
  from same_structure_container[OF assms Some] obtain c' where
    c': "containers s' cp = Some c'" "cont_skel c' = cont_skel c" by blast
  have "toplevel_ok s' = toplevel_ok s" using same_structure_toplevel_ok[OF assms] by auto
  with Some c' cont_skel_fields(5,6)[OF c'(2)] show ?thesis by (simp add: container_ok_def)
qed

lemma same_structure_toplevel_container_at:
  assumes "same_structure s s'"
  shows "toplevel_container_at s' tls i = toplevel_container_at s tls i"
proof (cases "array_read tls i")
  case None
  then show ?thesis by (simp add: toplevel_container_at_def)
next
  case (Some toplevel)
  show ?thesis
  proof (cases toplevel)
    case None
    with Some show ?thesis by (simp add: toplevel_container_at_def)
  next
    case tp: (Some tp)
    show ?thesis
    proof (cases "toplevels s tp")
      case None
      with assms have "toplevels s' tp = None"
        by (auto simp: same_structure_def same_toplevels_def dest!: spec[of _ tp])
      with None Some tp show ?thesis by (simp add: toplevel_container_at_def)
    next
      case t: (Some t)
      from same_structure_toplevel[OF assms t] obtain t' where
        "toplevels s' tp = Some t'" "toplevel_skel t' = toplevel_skel t" by blast
      with t Some tp toplevel_skel_fields(3)[of t' t] show ?thesis
        by (simp add: toplevel_container_at_def)
    qed
  qed
qed

lemma place_container:
  assumes "view_ok s" "container_ok s cp"
  shows "\<exists>s1 s2. cwc_container_set_size s cp w h = Some s1
           \<and> cwc_container_set_position_gap s1 cp x y = Some s2
           \<and> same_structure s s2 \<and> bsp_nodes s2 = bsp_nodes s
           \<and> (\<forall>cq. cq \<noteq> cp \<longrightarrow> containers s2 cq = containers s cq)
           \<and> placed s2 cp = Some \<lparr>box_x = x + useless_gaps (view_info s (active_workspace s)),
                                   box_y = y + useless_gaps (view_info s (active_workspace s)),
                                   box_width = w, box_height = h\<rparr>"
proof -
  let ?g = "useless_gaps (view_info s (active_workspace s))"
  from assms(2) obtain c where c: "containers s cp = Some c" "list_all (toplevel_ok s) (tree_children c)"
    by (auto simp: container_ok_def split: option.splits)
  from cwc_container_set_size_total[OF assms(1) c] obtain s1 where
    s1: "cwc_container_set_size s cp w h = Some s1" by blast
  note a = set_size_same_structure[OF s1]
  from a(4) c(1) obtain c1 where c1: "containers s1 cp = Some c1" "cont_width c1 = w" "cont_height c1 = h"
    by auto
  have v1: "view_ok s1" using same_structure_view_ok[OF a(1)] assms(1) by simp
  from cwc_container_set_position_total[OF v1 c1(1)] obtain s2 where
    s2: "cwc_container_set_position s1 cp (x + ?g) (y + ?g) = Some s2" by blast
  note b = set_position_same_structure[OF s2]
  have g: "cwc_container_set_position_gap s1 cp x y = Some s2"
    using s2 view_ok_current[OF v1] same_structure_fields(5,6)[OF a(1)]
    by (simp add: cwc_container_set_position_gap_def)
  from b(5) c1 obtain c2 where c2: "containers s2 cp = Some c2" "cont_x c2 = x + ?g" "cont_y c2 = y + ?g"
      "cont_width c2 = w" "cont_height c2 = h" by auto
  have "placed s2 cp = Some \<lparr>box_x = x + ?g, box_y = y + ?g, box_width = w, box_height = h\<rparr>"
    using c2 by (simp add: placed_def cwc_container_get_box_def)
  moreover have "same_structure s s2" using same_structure_trans[OF a(1) b(1)] .
  moreover have "bsp_nodes s2 = bsp_nodes s" using a(2) b(2) by simp
  moreover have "\<forall>cq. cq \<noteq> cp \<longrightarrow> containers s2 cq = containers s cq" using a(3) b(4) by simp
  ultimately show ?thesis using s1 g by blast
qed


declare arrange_tile_rows.simps [simp del]
declare arrange_monocle_loop.simps [simp del]

lemma arrange_tile_rows_spec:
  assumes "view_ok s" and "useless_gaps (view_info s (active_workspace s)) = 0"
    and "distinct cs" and "\<forall>cp \<in> set cs. container_ok s cp"
    and "\<forall>j < length cs. toplevel_container_at s tls (int j) = Some (cs ! j)"
    and "i < length cs"
  shows "\<exists>s'. arrange_tile_rows s tls (int (length cs)) sw sh mw (int i) hu
               = Some (s', hu + int (length cs - 1 - i) * sh)
           \<and> same_structure s s'
           \<and> (\<forall>j. i \<le> j \<and> j < length cs - 1 \<longrightarrow> placed s' (cs ! j)
                  = Some \<lparr>box_x = mw, box_y = hu + int (j - i) * sh + box_y (usable_area s),
                          box_width = sw, box_height = sh\<rparr>)
           \<and> (\<forall>cq. (\<forall>j. i \<le> j \<and> j < length cs - 1 \<longrightarrow> cq \<noteq> cs ! j)
                  \<longrightarrow> containers s' cq = containers s cq)"
  using assms
proof (induction "length cs - 1 - i" arbitrary: s i hu)
  case 0
  then have "\<not> int i < int (length cs) - 1" by linarith
  then have "arrange_tile_rows s tls (int (length cs)) sw sh mw (int i) hu = Some (s, hu)"
    by (subst arrange_tile_rows.simps) simp
  moreover have "length cs - 1 - i = 0" using 0 by simp
  moreover have "\<forall>j. \<not> (i \<le> j \<and> j < length cs - 1)" using 0 by linarith
  ultimately show ?case by auto
next
  case (Suc k)
  let ?n = "length cs"
  let ?uy = "box_y (usable_area s)"
  have lt: "int i < int ?n - 1" and i1: "Suc i < ?n" and k: "k = ?n - 1 - Suc i"
    using Suc.hyps(2) by linarith+
  have cp: "toplevel_container_at s tls (int i) = Some (cs ! i)" using Suc.prems(5,6) by simp
  have okc: "container_ok s (cs ! i)" using Suc.prems(4,6) by simp
  from place_container[OF Suc.prems(1) okc, of sw sh mw "hu + ?uy"] obtain s1 s2 where
    p: "cwc_container_set_size s (cs ! i) sw sh = Some s1"
       "cwc_container_set_position_gap s1 (cs ! i) mw (hu + ?uy) = Some s2"
       "same_structure s s2"
       "\<forall>cq. cq \<noteq> cs ! i \<longrightarrow> containers s2 cq = containers s cq"
       "placed s2 (cs ! i) = Some \<lparr>box_x = mw, box_y = hu + ?uy, box_width = sw, box_height = sh\<rparr>"
    using Suc.prems(2) by auto
  note f = same_structure_fields[OF p(3)]
  have v2: "view_ok s2" using same_structure_view_ok[OF p(3)] Suc.prems(1) by simp
  have g2: "useless_gaps (view_info s2 (active_workspace s2)) = 0" using f Suc.prems(2) by simp
  have ok2: "\<forall>cp \<in> set cs. container_ok s2 cp"
    using Suc.prems(4) same_structure_container_ok[OF p(3)] by simp
  have T2: "\<forall>j < length cs. toplevel_container_at s2 tls (int j) = Some (cs ! j)"
    using Suc.prems(5) same_structure_toplevel_container_at[OF p(3)] by simp
  from Suc.hyps(1)[OF k v2 g2 Suc.prems(3) ok2 T2 i1, of "hu + sh"] obtain s' where
    r: "arrange_tile_rows s2 tls (int ?n) sw sh mw (int (Suc i)) (hu + sh)
          = Some (s', hu + sh + int (?n - 1 - Suc i) * sh)"
       "same_structure s2 s'"
       "\<forall>j. Suc i \<le> j \<and> j < ?n - 1 \<longrightarrow> placed s' (cs ! j)
           = Some \<lparr>box_x = mw, box_y = hu + sh + int (j - Suc i) * sh + box_y (usable_area s2),
                   box_width = sw, box_height = sh\<rparr>"
       "\<forall>cq. (\<forall>j. Suc i \<le> j \<and> j < ?n - 1 \<longrightarrow> cq \<noteq> cs ! j) \<longrightarrow> containers s' cq = containers s2 cq"
    by blast
  have hu: "hu + sh + int (?n - 1 - Suc i) * sh = hu + int (?n - 1 - i) * sh"
  proof -
    have "int (?n - 1 - i) = int (?n - 1 - Suc i) + 1" using i1 by linarith
    then show ?thesis by (simp add: algebra_simps)
  qed
  have run: "arrange_tile_rows s tls (int ?n) sw sh mw (int i) hu = Some (s', hu + int (?n - 1 - i) * sh)"
    using lt cp p(1,2) r(1) hu f(1)
    by (subst arrange_tile_rows.simps) (simp add: add.commute)
  have st: "same_structure s s'" using same_structure_trans[OF p(3) r(2)] .
  have pl: "\<forall>j. i \<le> j \<and> j < ?n - 1 \<longrightarrow> placed s' (cs ! j)
                  = Some \<lparr>box_x = mw, box_y = hu + int (j - i) * sh + ?uy,
                          box_width = sw, box_height = sh\<rparr>"
  proof (intro allI impI)
    fix j assume j: "i \<le> j \<and> j < ?n - 1"
    show "placed s' (cs ! j) = Some \<lparr>box_x = mw, box_y = hu + int (j - i) * sh + ?uy,
                          box_width = sw, box_height = sh\<rparr>"
    proof (cases "j = i")
      case True
      have "\<forall>j'. Suc i \<le> j' \<and> j' < ?n - 1 \<longrightarrow> cs ! i \<noteq> cs ! j'"
      proof (intro allI impI)
        fix j' assume "Suc i \<le> j' \<and> j' < ?n - 1"
        then show "cs ! i \<noteq> cs ! j'" using i1 by (intro distinct_nth_neq[OF Suc.prems(3)]) auto
      qed
      with r(4) have "containers s' (cs ! i) = containers s2 (cs ! i)" by blast
      with p(5) True show ?thesis by (simp add: placed_def)
    next
      case False
      with j have j': "Suc i \<le> j \<and> j < ?n - 1" by simp
      have "int (j - i) = int (j - Suc i) + 1" using j' by linarith
      then have "hu + sh + int (j - Suc i) * sh = hu + int (j - i) * sh" by (simp add: algebra_simps)
      with r(3) j' f(1) show ?thesis by simp
    qed
  qed
  have fr: "\<forall>cq. (\<forall>j. i \<le> j \<and> j < ?n - 1 \<longrightarrow> cq \<noteq> cs ! j) \<longrightarrow> containers s' cq = containers s cq"
  proof (intro allI impI)
    fix cq assume a: "\<forall>j. i \<le> j \<and> j < ?n - 1 \<longrightarrow> cq \<noteq> cs ! j"
    then have "cq \<noteq> cs ! i" using i1 by auto
    moreover have "\<forall>j. Suc i \<le> j \<and> j < ?n - 1 \<longrightarrow> cq \<noteq> cs ! j" using a by auto
    ultimately show "containers s' cq = containers s cq" using r(4) p(4) by simp
  qed
  show ?case using run st pl fr by blast
qed


lemma sdiv_nonneg: "0 \<le> a \<Longrightarrow> 0 < b \<Longrightarrow> a sdiv b = a div (b::int)"
  by (simp add: signed_divide_int_def sgn_if)

lemma double_to_int_nonneg: "0 \<le> d \<Longrightarrow> double_to_int d = \<lfloor>d\<rfloor>"
  by (simp add: double_to_int_def)

definition height_of :: "cwc_state \<Rightarrow> addr \<Rightarrow> int" where
  "height_of s cp = (case containers s cp of None \<Rightarrow> 0 | Some c \<Rightarrow> cont_height c)"

lemma height_of_placed: "placed s cp = Some b \<Longrightarrow> height_of s cp = box_height b"
  by (auto simp: placed_def height_of_def cwc_container_get_box_def)

text \<open>
  Claim C2, as the code has it.  \<open>arrange_tile\<close> is given the array \<open>tls\<close> whose first
  \<open>n\<close> entries are toplevels of the pairwise different containers \<open>cs\<close>.  With gap 0
  and one master (\<open>master_count\<close> is set to 1 by \<open>cwc_output_state_create\<close> and written
  nowhere else), a usable area of non-negative size with a width that fits an \<open>int\<close>, and
  a factor between 0 and 1 (\<open>cwc_output_set_mwfact\<close> keeps it between 0.1 and 0.9):  the
  product \<open>usable.w * mwfact\<close> is a finite double and the pass returns;  if \<open>n = 1\<close> the
  container fills the usable area;  if \<open>n \<ge> 2\<close> the first container gets the master
  column, of width \<open>master_width\<close>, the integer part of that double, at the origin of the
  usable area;  the containers \<open>1 .. n-2\<close> are rows of height \<open>usable.h div (n-1)\<close> and of
  width \<open>usable.w - master_width\<close>, stacked from the top of the usable area;  the last
  container takes the rest of the height, and the heights of the rows add up to
  \<open>usable.h\<close>.  The rows are at \<open>x = master_width\<close>, not at \<open>usable.x + master_width\<close>: they
  are beside the master column only when \<open>usable.x = 0\<close>.
\<close>

theorem arrange_tile_layout:
  assumes "view_ok s" and "useless_gaps (view_info s (active_workspace s)) = 0"
    and "master_count ms = 1" and "0 \<le> mwfact ms"
    and "0 \<le> box_width (usable_area s)" and "0 \<le> box_height (usable_area s)"
    and "distinct cs" and "cs \<noteq> []"
    and "\<forall>cp \<in> set cs. container_ok s cp"
    and "\<forall>j < length cs. toplevel_container_at s tls (int j) = Some (cs ! j)"
    and "mwfact ms \<le> 1" and "box_width (usable_area s) < 2 ^ 31"
  shows "\<exists>s' product.
     double_round (real_of_int (box_width (usable_area s)) * mwfact ms) = Some product \<and>
     arrange_tile s tls (int (length cs)) ms = Some s' \<and>
     (length cs = 1 \<longrightarrow> placed s' (cs ! 0) = Some (usable_area s)) \<and>
     (2 \<le> length cs \<longrightarrow>
       (let n = length cs; ua = usable_area s;
            mw = \<lfloor>product\<rfloor>;
            sh = box_height ua div int (n - 1)
        in placed s' (cs ! 0)
             = Some \<lparr>box_x = box_x ua, box_y = box_y ua, box_width = mw, box_height = box_height ua\<rparr>
         \<and> (\<forall>j. 1 \<le> j \<and> j < n - 1 \<longrightarrow> placed s' (cs ! j)
               = Some \<lparr>box_x = mw, box_y = box_y ua + int (j - 1) * sh,
                       box_width = box_width ua - mw, box_height = sh\<rparr>)
         \<and> placed s' (cs ! (n - 1))
             = Some \<lparr>box_x = mw, box_y = box_y ua + int (n - 2) * sh,
                     box_width = box_width ua - mw,
                     box_height = box_height ua - int (n - 2) * sh\<rparr>
         \<and> (\<Sum>j = 1..<n. height_of s' (cs ! j)) = box_height ua))"
proof -
  let ?x = "real_of_int (box_width (usable_area s)) * mwfact ms"
  have x0: "0 \<le> ?x" using assms(4,5) by simp
  have "?x \<le> real_of_int (box_width (usable_area s)) * 1"
    using assms(5,11) by (intro mult_left_mono) simp_all
  also have "\<dots> \<le> 2 ^ 31" using assms(12) by simp
  also have "\<dots> \<le> pow2 1023" using pow2_mono[of 31 1023] by (simp add: pow2_nat)
  finally have "\<bar>?x\<bar> \<le> pow2 1023" using x0 by simp
  from double_round_finite[OF this] obtain product where dr: "double_round ?x = Some product"
    by blast
  have p0: "0 \<le> product" using double_round_nonneg[OF x0 dr] .
  show ?thesis
  proof (cases "length cs = 1")
  case True
  let ?ua = "usable_area s"
  have c0: "toplevel_container_at s tls 0 = Some (cs ! 0)"
    using assms(10)[rule_format, of 0] assms(8) by simp
  have ok0: "container_ok s (cs ! 0)" by (rule all_nth[OF assms(9)]) (use assms(8) in simp)
  from place_container[OF assms(1) ok0, of "box_width ?ua" "box_height ?ua" "box_x ?ua" "box_y ?ua"]
  obtain s1 s2 where
    p: "cwc_container_set_size s (cs ! 0) (box_width ?ua) (box_height ?ua) = Some s1"
       "cwc_container_set_position_gap s1 (cs ! 0) (box_x ?ua) (box_y ?ua) = Some s2"
       "placed s2 (cs ! 0) = Some \<lparr>box_x = box_x ?ua, box_y = box_y ?ua,
                                   box_width = box_width ?ua, box_height = box_height ?ua\<rparr>"
    using assms(2) by auto
  have "arrange_tile s tls (int (length cs)) ms = Some s2"
    using True c0 p(1,2) by (simp add: arrange_tile_def Let_def)
  with p(3) True dr show ?thesis by simp
next
  case False
  let ?n = "length cs"
  let ?ua = "usable_area s"
  let ?mw = "\<lfloor>product\<rfloor>"
  let ?sw = "box_width ?ua - ?mw"
  let ?sh = "box_height ?ua div int (?n - 1)"
  have "?n \<noteq> 0" using assms(8) by simp
  with False have n2: "2 \<le> ?n" by linarith
  have mw: "double_to_int product = ?mw"
    using p0 by (simp add: double_to_int_nonneg)
  have sc: "int ?n - master_count ms \<noteq> 0" using n2 assms(3) by simp
  have sh: "box_height ?ua sdiv (int ?n - master_count ms) = ?sh"
  proof -
    have "int ?n - master_count ms = int (?n - 1)" using n2 assms(3) by simp
    moreover have "0 < int (?n - 1)" using n2 by simp
    ultimately show ?thesis using assms(6) by (simp add: sdiv_nonneg)
  qed
  have c0: "toplevel_container_at s tls 0 = Some (cs ! 0)"
    using assms(10)[rule_format, of 0] assms(8) by simp
  have ok0: "container_ok s (cs ! 0)" by (rule all_nth[OF assms(9)]) (use assms(8) in simp)
  from place_container[OF assms(1) ok0, of ?mw "box_height ?ua" "box_x ?ua" "box_y ?ua"]
  obtain s1 s2 where
    p: "cwc_container_set_size s (cs ! 0) ?mw (box_height ?ua) = Some s1"
       "cwc_container_set_position_gap s1 (cs ! 0) (box_x ?ua) (box_y ?ua) = Some s2"
       "same_structure s s2"
       "placed s2 (cs ! 0) = Some \<lparr>box_x = box_x ?ua, box_y = box_y ?ua,
                                   box_width = ?mw, box_height = box_height ?ua\<rparr>"
    using assms(2) by auto
  note f2 = same_structure_fields[OF p(3)]
  have v2: "view_ok s2" using same_structure_view_ok[OF p(3)] assms(1) by simp
  have g2: "useless_gaps (view_info s2 (active_workspace s2)) = 0" using f2 assms(2) by simp
  have ok2: "\<forall>cp \<in> set cs. container_ok s2 cp"
    using assms(9) same_structure_container_ok[OF p(3)] by simp
  have T2: "\<forall>j < length cs. toplevel_container_at s2 tls (int j) = Some (cs ! j)"
    using assms(10) same_structure_toplevel_container_at[OF p(3)] by simp
  have i1: "1 < ?n" using n2 by simp
  from arrange_tile_rows_spec[OF v2 g2 assms(7) ok2 T2 i1, of ?sw ?sh ?mw 0] obtain s3 where
    r: "arrange_tile_rows s2 tls (int ?n) ?sw ?sh ?mw 1 0 = Some (s3, int (?n - 1 - 1) * ?sh)"
       "same_structure s2 s3"
       "\<forall>j. 1 \<le> j \<and> j < ?n - 1 \<longrightarrow> placed s3 (cs ! j)
           = Some \<lparr>box_x = ?mw, box_y = int (j - 1) * ?sh + box_y (usable_area s2),
                   box_width = ?sw, box_height = ?sh\<rparr>"
       "\<forall>cq. (\<forall>j. 1 \<le> j \<and> j < ?n - 1 \<longrightarrow> cq \<noteq> cs ! j) \<longrightarrow> containers s3 cq = containers s2 cq"
    by auto
  have hu: "int (?n - 1 - 1) = int (?n - 2)" by simp
  note f3 = same_structure_fields[OF r(2)]
  have v3: "view_ok s3" using same_structure_view_ok[OF r(2)] v2 by simp
  have g3: "useless_gaps (view_info s3 (active_workspace s3)) = 0" using f3 g2 by simp
  have "container_ok s2 (cs ! (?n - 1))" by (rule all_nth[OF ok2]) (use assms(8) in simp)
  then have okl: "container_ok s3 (cs ! (?n - 1))"
    using same_structure_container_ok[OF r(2)] by simp
  have cl: "toplevel_container_at s3 tls (int ?n - 1) = Some (cs ! (?n - 1))"
  proof -
    have e: "int ?n - 1 = int (?n - 1)" using n2 by simp
    have "?n - 1 < ?n" using n2 by simp
    with T2 have "toplevel_container_at s2 tls (int (?n - 1)) = Some (cs ! (?n - 1))" by blast
    then show ?thesis by (simp only: same_structure_toplevel_container_at[OF r(2)] e)
  qed
  from place_container[OF v3 okl, of ?sw "box_height ?ua - int (?n - 2) * ?sh" ?mw
      "int (?n - 2) * ?sh + box_y ?ua"]
  obtain s4 s5 where
    q: "cwc_container_set_size s3 (cs ! (?n - 1)) ?sw (box_height ?ua - int (?n - 2) * ?sh) = Some s4"
       "cwc_container_set_position_gap s4 (cs ! (?n - 1)) ?mw (int (?n - 2) * ?sh + box_y ?ua) = Some s5"
       "\<forall>cq. cq \<noteq> cs ! (?n - 1) \<longrightarrow> containers s5 cq = containers s3 cq"
       "placed s5 (cs ! (?n - 1)) = Some \<lparr>box_x = ?mw, box_y = int (?n - 2) * ?sh + box_y ?ua,
            box_width = ?sw, box_height = box_height ?ua - int (?n - 2) * ?sh\<rparr>"
    using g3 by auto
  have run: "arrange_tile s tls (int ?n) ms = Some s5"
    using n2 c0 p(1,2) dr mw sc sh r(1) hu cl q(1,2)
    by (simp add: arrange_tile_def Let_def)
  have last_ne: "\<forall>j. j < ?n - 1 \<longrightarrow> cs ! j \<noteq> cs ! (?n - 1)"
  proof (intro allI impI)
    fix j assume "j < ?n - 1"
    then show "cs ! j \<noteq> cs ! (?n - 1)" by (intro distinct_nth_neq[OF assms(7)]) auto
  qed
  have m0: "placed s5 (cs ! 0) = Some \<lparr>box_x = box_x ?ua, box_y = box_y ?ua,
                                   box_width = ?mw, box_height = box_height ?ua\<rparr>"
  proof -
    have "\<forall>j. 1 \<le> j \<and> j < ?n - 1 \<longrightarrow> cs ! 0 \<noteq> cs ! j"
    proof (intro allI impI)
      fix j assume "1 \<le> j \<and> j < ?n - 1"
      then show "cs ! 0 \<noteq> cs ! j" by (intro distinct_nth_neq[OF assms(7)]) auto
    qed
    with r(4) have "containers s3 (cs ! 0) = containers s2 (cs ! 0)" by blast
    moreover have "containers s5 (cs ! 0) = containers s3 (cs ! 0)" using q(3) last_ne n2 by simp
    ultimately show ?thesis using p(4) by (simp add: placed_def)
  qed
  have rows: "\<forall>j. 1 \<le> j \<and> j < ?n - 1 \<longrightarrow> placed s5 (cs ! j)
               = Some \<lparr>box_x = ?mw, box_y = box_y ?ua + int (j - 1) * ?sh,
                       box_width = ?sw, box_height = ?sh\<rparr>"
  proof (intro allI impI)
    fix j assume j: "1 \<le> j \<and> j < ?n - 1"
    then have "containers s5 (cs ! j) = containers s3 (cs ! j)" using q(3) last_ne by simp
    with r(3) j f2(1) show "placed s5 (cs ! j)
               = Some \<lparr>box_x = ?mw, box_y = box_y ?ua + int (j - 1) * ?sh,
                       box_width = ?sw, box_height = ?sh\<rparr>"
      by (simp add: placed_def add.commute)
  qed
  have lastp: "placed s5 (cs ! (?n - 1)) = Some \<lparr>box_x = ?mw, box_y = box_y ?ua + int (?n - 2) * ?sh,
            box_width = ?sw, box_height = box_height ?ua - int (?n - 2) * ?sh\<rparr>"
    using q(4) by (simp add: add.commute)
  have total: "(\<Sum>j = 1..<?n. height_of s5 (cs ! j)) = box_height ?ua"
  proof -
    have n: "?n = Suc (?n - 1)" "1 \<le> ?n - 1" using n2 by simp_all
    have "(\<Sum>j = 1..<?n. height_of s5 (cs ! j))
          = (\<Sum>j = 1..<?n - 1. height_of s5 (cs ! j)) + height_of s5 (cs ! (?n - 1))"
      by (subst n(1)) (simp only: sum.atLeastLessThan_Suc[OF n(2)])
    also have "(\<Sum>j = 1..<?n - 1. height_of s5 (cs ! j)) = (\<Sum>j = 1..<?n - 1. ?sh)"
      by (rule sum.cong) (use rows height_of_placed in auto)
    also have "\<dots> = int (?n - 2) * ?sh" by (simp add: numeral_2_eq_2)
    also have "height_of s5 (cs ! (?n - 1)) = box_height ?ua - int (?n - 2) * ?sh"
      using height_of_placed[OF lastp] by simp
    finally show ?thesis by simp
  qed
  show ?thesis using dr run m0 rows lastp total False n2 by (simp add: Let_def)
  qed
qed

text \<open>
  The example of claim C2: usable area 1920x1080, \<open>mwfact = 0.5\<close>, three tiled
  containers.  \<open>master_demo_state n\<close> has \<open>n\<close> tiled containers \<open>1 .. n\<close> in the
  master layout, container \<open>i\<close> holding toplevel \<open>i\<close>.
\<close>

definition master_view :: cwc_view_info where
  "master_view = demo_view\<lparr>layout_mode := CWC_LAYOUT_MASTER\<rparr>"

definition tiled_container :: "addr \<Rightarrow> cwc_container" where
  "tiled_container tp = demo_container\<lparr>cont_toplevels := [tp], tree_children := [tp]\<rparr>"

definition master_demo_state :: "nat \<Rightarrow> cwc_state" where
  "master_demo_state n = demo_state\<lparr>view_info := (\<lambda>i. master_view),
     output_containers := [1..<Suc n],
     containers := (\<lambda>cp. if 1 \<le> cp \<and> cp \<le> n then Some (tiled_container cp) else None),
     toplevels := (\<lambda>tp. if 1 \<le> tp \<and> tp \<le> n
                         then Some (demo_toplevel\<lparr>toplevel_container := Some tp\<rparr>) else None)\<rparr>"

lemmas master_demo_defs = master_demo_state_def master_view_def tiled_container_def demo_defs

text \<open>
  \<open>offset_demo_state\<close>: the three tiled containers on an output whose usable area
  \<open>(100, 0, 1000, 800)\<close> starts to the right of a panel of width 100.
\<close>

definition offset_demo_state :: cwc_state where
  "offset_demo_state = (master_demo_state 3)
     \<lparr>usable_area := \<lparr>box_x = 100, box_y = 0, box_width = 1000, box_height = 800\<rparr>\<rparr>"

lemmas offset_demo_defs = offset_demo_state_def master_demo_defs

lemma tile_demo_hyps:
  "s = master_demo_state 3 \<or> s = offset_demo_state \<Longrightarrow> view_ok s"
  "s = master_demo_state 3 \<or> s = offset_demo_state \<Longrightarrow>
     useless_gaps (view_info s (active_workspace s)) = 0"
  "master_count (master master_view) = 1" "0 \<le> mwfact (master master_view)"
  "s = master_demo_state 3 \<or> s = offset_demo_state \<Longrightarrow> 0 \<le> box_width (usable_area s)"
  "s = master_demo_state 3 \<or> s = offset_demo_state \<Longrightarrow> 0 \<le> box_height (usable_area s)"
  "distinct [1, 2, 3::addr]" "[1, 2, 3::addr] \<noteq> []"
  "s = master_demo_state 3 \<or> s = offset_demo_state \<Longrightarrow>
     \<forall>cp \<in> set [1, 2, 3]. container_ok s cp"
  "s = master_demo_state 3 \<or> s = offset_demo_state \<Longrightarrow>
     \<forall>j < length [1, 2, 3::addr]. toplevel_container_at s
       ([Some 1, Some 2, Some 3] @ replicate 47 None) (int j) = Some ([1, 2, 3] ! j)"
  "mwfact (master master_view) \<le> 1"
  "s = master_demo_state 3 \<or> s = offset_demo_state \<Longrightarrow> box_width (usable_area s) < 2 ^ 31"
proof -
  show "s = master_demo_state 3 \<or> s = offset_demo_state \<Longrightarrow> view_ok s"
    by (auto simp: offset_demo_defs view_ok_def MAX_WORKSPACE_def)
  show "s = master_demo_state 3 \<or> s = offset_demo_state \<Longrightarrow>
     useless_gaps (view_info s (active_workspace s)) = 0"
    by (auto simp: offset_demo_defs)
  show "master_count (master master_view) = 1" "0 \<le> mwfact (master master_view)"
    "mwfact (master master_view) \<le> 1"
    by (simp_all add: master_demo_defs)
  show "s = master_demo_state 3 \<or> s = offset_demo_state \<Longrightarrow> 0 \<le> box_width (usable_area s)"
    "s = master_demo_state 3 \<or> s = offset_demo_state \<Longrightarrow> 0 \<le> box_height (usable_area s)"
    "s = master_demo_state 3 \<or> s = offset_demo_state \<Longrightarrow> box_width (usable_area s) < 2 ^ 31"
    by (auto simp: offset_demo_defs)
  show "distinct [1, 2, 3::addr]" "[1, 2, 3::addr] \<noteq> []" by simp_all
  show "s = master_demo_state 3 \<or> s = offset_demo_state \<Longrightarrow>
     \<forall>cp \<in> set [1, 2, 3]. container_ok s cp"
    by (auto simp: offset_demo_defs container_ok_def toplevel_ok_def)
  show "s = master_demo_state 3 \<or> s = offset_demo_state \<Longrightarrow>
     \<forall>j < length [1, 2, 3::addr]. toplevel_container_at s
       ([Some 1, Some 2, Some 3] @ replicate 47 None) (int j) = Some ([1, 2, 3] ! j)"
    by (auto simp: offset_demo_defs toplevel_container_at_def array_read_def
          numeral_3_eq_3 less_Suc_eq)
qed

lemma half_products:
  "double_round (real_of_int 1000 * (1/2)) = Some 500"
  "double_round (real_of_int 1920 * (1/2)) = Some 960"
  using double_round_int[of 500] double_round_int[of 960] by simp_all

text \<open>
  The witness: on \<open>offset_demo_state\<close> the master column is \<open>(100, 0, 500, 800)\<close> and the
  rows are at \<open>x = 500\<close>, over the right part of the master column, and the strip from
  \<open>x = 1000\<close> to \<open>x = 1100\<close> of the usable area stays empty; on the output of 1920x1080,
  whose usable area starts at \<open>x = 0\<close>, the rectangles are those of the example of the
  claim.
\<close>

theorem arrange_tile_layout_witness:
  "view_ok offset_demo_state
   \<and> useless_gaps (view_info offset_demo_state (active_workspace offset_demo_state)) = 0
   \<and> master_count (master master_view) = 1
   \<and> 0 \<le> mwfact (master master_view) \<and> mwfact (master master_view) \<le> 1
   \<and> usable_area offset_demo_state
        = \<lparr>box_x = 100, box_y = 0, box_width = 1000, box_height = 800\<rparr>
   \<and> distinct [1, 2, 3::addr] \<and> [1, 2, 3::addr] \<noteq> []
   \<and> list_all (container_ok offset_demo_state) [1, 2, 3]
   \<and> list_all (\<lambda>j. toplevel_container_at offset_demo_state
         ([Some 1, Some 2, Some 3] @ replicate 47 None) (int j) = Some ([1, 2, 3] ! j)) [0, 1, 2]
   \<and> (\<exists>s'. arrange_tile offset_demo_state ([Some 1, Some 2, Some 3] @ replicate 47 None) 3
              (master master_view) = Some s'
         \<and> placed s' 1 = Some \<lparr>box_x = 100, box_y = 0, box_width = 500, box_height = 800\<rparr>
         \<and> placed s' 2 = Some \<lparr>box_x = 500, box_y = 0, box_width = 500, box_height = 400\<rparr>
         \<and> placed s' 3 = Some \<lparr>box_x = 500, box_y = 400, box_width = 500, box_height = 400\<rparr>)
   \<and> (\<exists>s'. arrange_tile (master_demo_state 3) ([Some 1, Some 2, Some 3] @ replicate 47 None) 3
              (master master_view) = Some s'
         \<and> placed s' 1 = Some \<lparr>box_x = 0, box_y = 0, box_width = 960, box_height = 1080\<rparr>
         \<and> placed s' 2 = Some \<lparr>box_x = 960, box_y = 0, box_width = 960, box_height = 540\<rparr>
         \<and> placed s' 3 = Some \<lparr>box_x = 960, box_y = 540, box_width = 960, box_height = 540\<rparr>)"
proof -
  have ua: "usable_area offset_demo_state
            = \<lparr>box_x = 100, box_y = 0, box_width = 1000, box_height = 800\<rparr>"
    "usable_area (master_demo_state 3)
            = \<lparr>box_x = 0, box_y = 0, box_width = 1920, box_height = 1080\<rparr>"
    "mwfact (master master_view) = 1/2"
    by (simp_all add: offset_demo_defs)
  have o: "offset_demo_state = master_demo_state 3 \<or> offset_demo_state = offset_demo_state"
    and m: "master_demo_state 3 = master_demo_state 3 \<or> master_demo_state 3 = offset_demo_state"
    by simp_all
  from arrange_tile_layout[OF tile_demo_hyps(1)[OF o] tile_demo_hyps(2)[OF o] tile_demo_hyps(3,4)
      tile_demo_hyps(5)[OF o] tile_demo_hyps(6)[OF o] tile_demo_hyps(7,8)
      tile_demo_hyps(9)[OF o] tile_demo_hyps(10)[OF o] tile_demo_hyps(11) tile_demo_hyps(12)[OF o]]
  obtain s' where
    s': "arrange_tile offset_demo_state ([Some 1, Some 2, Some 3] @ replicate 47 None) 3
              (master master_view) = Some s'"
    and b: "placed s' 1 = Some \<lparr>box_x = 100, box_y = 0, box_width = 500, box_height = 800\<rparr>"
      "\<forall>j. 1 \<le> j \<and> j < (2::nat) \<longrightarrow> placed s' ([1, 2, 3] ! j)
           = Some \<lparr>box_x = 500, box_y = int (j - 1) * 400, box_width = 500, box_height = 400\<rparr>"
      "placed s' 3 = Some \<lparr>box_x = 500, box_y = 400, box_width = 500, box_height = 400\<rparr>"
    using half_products(1)
    by (auto simp: ua Let_def simp del: sum.atLeastLessThan_Suc)
  from b(2)[rule_format, of 1] have "placed s' 2
      = Some \<lparr>box_x = 500, box_y = 0, box_width = 500, box_height = 400\<rparr>" by simp
  with s' b(1,3) have e1: "\<exists>s'. arrange_tile offset_demo_state
              ([Some 1, Some 2, Some 3] @ replicate 47 None) 3 (master master_view) = Some s'
         \<and> placed s' 1 = Some \<lparr>box_x = 100, box_y = 0, box_width = 500, box_height = 800\<rparr>
         \<and> placed s' 2 = Some \<lparr>box_x = 500, box_y = 0, box_width = 500, box_height = 400\<rparr>
         \<and> placed s' 3 = Some \<lparr>box_x = 500, box_y = 400, box_width = 500, box_height = 400\<rparr>"
    by blast
  from arrange_tile_layout[OF tile_demo_hyps(1)[OF m] tile_demo_hyps(2)[OF m] tile_demo_hyps(3,4)
      tile_demo_hyps(5)[OF m] tile_demo_hyps(6)[OF m] tile_demo_hyps(7,8)
      tile_demo_hyps(9)[OF m] tile_demo_hyps(10)[OF m] tile_demo_hyps(11) tile_demo_hyps(12)[OF m]]
  obtain s'' where
    s'': "arrange_tile (master_demo_state 3) ([Some 1, Some 2, Some 3] @ replicate 47 None) 3
              (master master_view) = Some s''"
    and c: "placed s'' 1 = Some \<lparr>box_x = 0, box_y = 0, box_width = 960, box_height = 1080\<rparr>"
      "\<forall>j. 1 \<le> j \<and> j < (2::nat) \<longrightarrow> placed s'' ([1, 2, 3] ! j)
           = Some \<lparr>box_x = 960, box_y = int (j - 1) * 540, box_width = 960, box_height = 540\<rparr>"
      "placed s'' 3 = Some \<lparr>box_x = 960, box_y = 540, box_width = 960, box_height = 540\<rparr>"
    using half_products(2)
    by (auto simp: ua Let_def simp del: sum.atLeastLessThan_Suc)
  from c(2)[rule_format, of 1] have "placed s'' 2
      = Some \<lparr>box_x = 960, box_y = 0, box_width = 960, box_height = 540\<rparr>" by simp
  with s'' c(1,3) have e2: "\<exists>s'. arrange_tile (master_demo_state 3)
              ([Some 1, Some 2, Some 3] @ replicate 47 None) 3 (master master_view) = Some s'
         \<and> placed s' 1 = Some \<lparr>box_x = 0, box_y = 0, box_width = 960, box_height = 1080\<rparr>
         \<and> placed s' 2 = Some \<lparr>box_x = 960, box_y = 0, box_width = 960, box_height = 540\<rparr>
         \<and> placed s' 3 = Some \<lparr>box_x = 960, box_y = 540, box_width = 960, box_height = 540\<rparr>"
    by blast
  have l: "list_all (container_ok offset_demo_state) [1, 2, 3]"
    "list_all (\<lambda>j. toplevel_container_at offset_demo_state
         ([Some 1, Some 2, Some 3] @ replicate 47 None) (int j) = Some ([1, 2, 3] ! j)) [0, 1, 2]"
    by (simp_all add: offset_demo_defs container_ok_def toplevel_ok_def
          toplevel_container_at_def array_read_def)
  show ?thesis
    using tile_demo_hyps(1)[OF o] tile_demo_hyps(2)[OF o] tile_demo_hyps(3,4,7,8,11) ua(1) l e1 e2
    by blast
qed

text \<open>
  The whole pass on both states, evaluated.  And the master width where the factor is not
  a power of two: with the double \<open>0.6\<close> and a width of 1920 the product is rounded to
  \<open>1152\<close>, where the integer part of the exact product of the two doubles is \<open>1151\<close>.
\<close>

lemma master_arrange_update_offset_example:
  "map_option (\<lambda>s'. map (placed s') [1, 2, 3]) (master_arrange_update offset_demo_state)
   = Some [Some \<lparr>box_x = 100, box_y = 0, box_width = 500, box_height = 800\<rparr>,
           Some \<lparr>box_x = 500, box_y = 0, box_width = 500, box_height = 400\<rparr>,
           Some \<lparr>box_x = 500, box_y = 400, box_width = 500, box_height = 400\<rparr>]"
  by code_simp

lemma master_width_rounding:
  "map_option double_to_int (double_round (real_of_int 1920 * lit_0_6)) = Some 1152"
  "\<lfloor>real_of_int 1920 * lit_0_6\<rfloor> = 1151"
  by code_simp+

lemma master_arrange_update_example:
  "map_option (\<lambda>s'. map (placed s') [1, 2, 3]) (master_arrange_update (master_demo_state 3))
   = Some [Some \<lparr>box_x = 0, box_y = 0, box_width = 960, box_height = 1080\<rparr>,
           Some \<lparr>box_x = 960, box_y = 0, box_width = 960, box_height = 540\<rparr>,
           Some \<lparr>box_x = 960, box_y = 540, box_width = 960, box_height = 540\<rparr>]"
  by code_simp

text \<open>
  Claim C9.  \<open>tileable_fronts\<close> lists, in the order of \<open>output->state->containers\<close>,
  the front toplevels that are tileable.  When every container of the list exists
  and has a front toplevel that can be tested, the collecting loop of
  \<open>master_arrange_update\<close> returns (no write outside the 50 entries) the array that
  holds the first \<open>min 50 n\<close> of them, followed by \<open>NULL\<close>s, and their number; that
  array and that number are what the strategy receives.
\<close>



fun tileable_fronts :: "cwc_state \<Rightarrow> addr list \<Rightarrow> addr option list" where
  "tileable_fronts s [] = []"
| "tileable_fronts s (cp # cps) =
     (case containers s cp of
        None \<Rightarrow> tileable_fronts s cps
      | Some c \<Rightarrow>
          if cwc_toplevel_is_tileable s (cwc_container_get_front_toplevel c) = Some True
          then cwc_container_get_front_toplevel c # tileable_fronts s cps
          else tileable_fronts s cps)"

definition fronts_ok :: "cwc_state \<Rightarrow> addr list \<Rightarrow> bool" where
  "fronts_ok s cps \<longleftrightarrow>
     list_all (\<lambda>cp. case containers s cp of None \<Rightarrow> False
                | Some c \<Rightarrow> cwc_toplevel_is_tileable s (cwc_container_get_front_toplevel c) \<noteq> None) cps"

definition buffer_of :: "addr option list \<Rightarrow> addr option list" where
  "buffer_of xs = take 50 xs @ replicate (50 - length xs) None"

lemma buffer_of_snoc:
  assumes "length xs < 50"
  shows "array_write (buffer_of xs) (int (length xs)) v = Some (buffer_of (xs @ [v]))"
proof -
  obtain k where k: "50 - length xs = Suc k" using assms by (cases "50 - length xs") auto
  then have k': "50 - Suc (length xs) = k" by simp
  show ?thesis using assms k
    by (simp add: array_write_def buffer_of_def list_update_append k' replicate_app_Cons_same)
qed

lemma master_collect_spec:
  assumes "fronts_ok s cps" "length xs < 50"
  shows "master_collect s cps (buffer_of xs) (int (length xs))
         = Some (buffer_of (xs @ tileable_fronts s cps),
                 int (min 50 (length (xs @ tileable_fronts s cps))))"
  using assms
proof (induction cps arbitrary: xs)
  case Nil
  then show ?case by simp
next
  case (Cons cp cps)
  from Cons.prems(1) obtain c b where c: "containers s cp = Some c"
    and b: "cwc_toplevel_is_tileable s (cwc_container_get_front_toplevel c) = Some b"
    and rest: "fronts_ok s cps"
    by (auto simp: fronts_ok_def split: option.splits)
  show ?case
  proof (cases b)
    case False
    then show ?thesis using c b Cons.IH[OF rest Cons.prems(2)] Cons.prems(2) by simp
  next
    case True
    let ?f = "cwc_container_get_front_toplevel c"
    show ?thesis
    proof (cases "length xs < 49")
      case l: True
      then have "length (xs @ [?f]) < 50" by simp
      from Cons.IH[OF rest this] show ?thesis
        using c b True l buffer_of_snoc[OF Cons.prems(2), of ?f] by (simp add: add.commute)
    next
      case l: False
      with Cons.prems(2) have len: "length xs = 49" by simp
      have "buffer_of ((xs @ [?f]) @ tileable_fronts s cps) = buffer_of (xs @ [?f])"
        using len by (simp add: buffer_of_def)
      then show ?thesis
        using c b True len buffer_of_snoc[OF Cons.prems(2), of ?f] by simp
    qed
  qed
qed

theorem master_arrange_collects_at_most_50:
  assumes "fronts_ok s (output_containers s)"
  shows "\<exists>tv n. master_collect s (output_containers s) (replicate 50 None) 0 = Some (tv, n)
       \<and> length tv = 50
       \<and> n = int (min 50 (length (tileable_fronts s (output_containers s))))
       \<and> take (nat n) tv = take 50 (tileable_fronts s (output_containers s))
       \<and> (\<forall>k. nat n \<le> k \<and> k < 50 \<longrightarrow> tv ! k = None)
       \<and> (\<forall>info. cwc_output_get_current_view_info s = Some info
              \<and> layout_mode info = CWC_LAYOUT_MASTER \<longrightarrow>
            master_arrange_update s =
              (if 1 \<le> n then
                 (case current_layout (master info) of
                    LAYOUT_TILE \<Rightarrow> arrange_tile s tv n (master info)
                  | LAYOUT_MONOCLE \<Rightarrow> arrange_monocle s tv n (master info))
               else Some s))"
proof -
  let ?tf = "tileable_fronts s (output_containers s)"
  let ?tv = "buffer_of ?tf"
  let ?n = "int (min 50 (length ?tf))"
  have c: "master_collect s (output_containers s) (replicate 50 None) 0 = Some (?tv, ?n)"
    using master_collect_spec[OF assms, of "[]"] by (simp add: buffer_of_def)
  have l: "length ?tv = 50" by (simp add: buffer_of_def)
  have t: "take (nat ?n) ?tv = take 50 ?tf" by (simp add: buffer_of_def min_def)
  have r: "\<forall>k. nat ?n \<le> k \<and> k < 50 \<longrightarrow> ?tv ! k = None"
    by (auto simp: buffer_of_def nth_append min_def)
  have m: "\<forall>info. cwc_output_get_current_view_info s = Some info
              \<and> layout_mode info = CWC_LAYOUT_MASTER \<longrightarrow>
            master_arrange_update s =
              (if 1 \<le> ?n then
                 (case current_layout (master info) of
                    LAYOUT_TILE \<Rightarrow> arrange_tile s ?tv ?n (master info)
                  | LAYOUT_MONOCLE \<Rightarrow> arrange_monocle s ?tv ?n (master info))
               else Some s)"
    using c by (simp add: master_arrange_update_def)
  show ?thesis using c l t r m by blast
qed

theorem master_arrange_collects_at_most_50_witness:
  "fronts_ok (master_demo_state 60) (output_containers (master_demo_state 60))
   \<and> length (tileable_fronts (master_demo_state 60) (output_containers (master_demo_state 60))) = 60
   \<and> (\<exists>tv n. master_collect (master_demo_state 60) (output_containers (master_demo_state 60))
                 (replicate 50 None) 0 = Some (tv, n)
       \<and> length tv = 50 \<and> n = 50 \<and> tv = map Some [1..<51])"
proof -
  have h: "fronts_ok (master_demo_state 60) (output_containers (master_demo_state 60))"
    by code_simp
  have l: "length (tileable_fronts (master_demo_state 60) (output_containers (master_demo_state 60))) = 60"
    by code_simp
  have t: "take 50 (tileable_fronts (master_demo_state 60) (output_containers (master_demo_state 60)))
           = map Some [1..<51]"
    by code_simp
  from master_arrange_collects_at_most_50[OF h] obtain tv n where
    r: "master_collect (master_demo_state 60) (output_containers (master_demo_state 60))
                 (replicate 50 None) 0 = Some (tv, n)" "length tv = 50"
       "n = int (min 50 (length (tileable_fronts (master_demo_state 60) (output_containers (master_demo_state 60)))))"
       "take (nat n) tv = take 50 (tileable_fronts (master_demo_state 60) (output_containers (master_demo_state 60)))"
    by blast
  have n: "n = 50" using r(3) l by simp
  have "tv = map Some [1..<51]" using r(2,4) n t by simp
  with h l r(1,2) n show ?thesis by blast
qed

section \<open>The hash map of the keybindings (util.h, util-map.c)\<close>

text \<open>
  \<open>struct hhash_entry\<close> and \<open>struct cwc_hhmap\<close>.  A pointer to an entry of the table
  is its index; \<open>entry_data\<close> is the \<open>void *\<close> stored by the user.  The map is built
  without \<open>HHMAP_AUTOMATIC_REHASH\<close>.
\<close>

record hhash_entry =
  entry_next :: "nat option"
  entry_hash :: "64 word"
  entry_data :: "addr option"

definition zero_entry :: hhash_entry where
  "zero_entry = \<lparr>entry_next = None, entry_hash = 0, entry_data = None\<rparr>"

record cwc_hhmap =
  map_size :: "64 word"
  map_alloc :: "64 word"
  expand_at_size_exceed :: "64 word"
  shrink_at_size_behind :: "64 word"
  table :: "hhash_entry list"

definition entry_at :: "hhash_entry list \<Rightarrow> nat \<Rightarrow> hhash_entry option" where
  "entry_at tbl i = (if i < length tbl then Some (tbl ! i) else None)"

definition recompute_limit :: "cwc_hhmap \<Rightarrow> cwc_hhmap" where
  "recompute_limit m =
     (let m1 = m\<lparr>expand_at_size_exceed := map_alloc m * 3 div 4,
                  shrink_at_size_behind := map_alloc m div 5\<rparr>
      in if shrink_at_size_behind m1 < 8 then m1\<lparr>shrink_at_size_behind := 0\<rparr> else m1)"

text \<open>The loop \<open>while (init_alloc < prealloc_size) init_alloc <<= 1\<close>.\<close>

fun init_alloc_loop :: "nat \<Rightarrow> 64 word \<Rightarrow> 64 word \<Rightarrow> 64 word option" where
  "init_alloc_loop 0 init_alloc prealloc_size = None"
| "init_alloc_loop (Suc fuel) init_alloc prealloc_size =
     (if init_alloc < prealloc_size
      then init_alloc_loop fuel (push_bit 1 init_alloc) prealloc_size
      else Some init_alloc)"

definition cwc_hhmap_create :: "nat \<Rightarrow> int \<Rightarrow> cwc_hhmap option" where
  "cwc_hhmap_create fuel prealloc_size = do {
     init_alloc \<leftarrow> init_alloc_loop fuel 8 (word_of_int prealloc_size);
     Some ((recompute_limit
              \<lparr>map_size = 0, map_alloc = init_alloc, expand_at_size_exceed = 0,
               shrink_at_size_behind = 0,
               table = replicate (unat init_alloc) zero_entry\<rparr>)
           \<lparr>shrink_at_size_behind := 0\<rparr>)
   }"

text \<open>
  \<open>cwc_hhmap_lookup\<close>: the \<open>do ... while (current != NULL)\<close> walk along the chain;
  it returns \<open>current\<close> and \<open>*prev\<close>.
\<close>

fun lookup_loop ::
  "nat \<Rightarrow> hhash_entry list \<Rightarrow> 64 word \<Rightarrow> nat \<Rightarrow> nat \<Rightarrow> (nat option \<times> nat) option" where
  "lookup_loop 0 tbl hash current prev = None"
| "lookup_loop (Suc fuel) tbl hash current prev = do {
     e \<leftarrow> entry_at tbl current;
     if hash = entry_hash e then Some (Some current, prev)
     else (case entry_next e of
             None \<Rightarrow> Some (None, current)
           | Some n \<Rightarrow> lookup_loop fuel tbl hash n current)
   }"

definition cwc_hhmap_lookup :: "nat \<Rightarrow> cwc_hhmap \<Rightarrow> 64 word \<Rightarrow> (nat option \<times> nat) option" where
  "cwc_hhmap_lookup fuel m hash =
     (if map_alloc m = 0 then None
      else lookup_loop fuel (table m) hash (unat (hash mod map_alloc m))
             (unat (hash mod map_alloc m)))"

text \<open>The linear probing of \<open>__cwc_hhmap_insert\<close> for an entry with hash 0.\<close>

fun probe_loop :: "nat \<Rightarrow> hhash_entry list \<Rightarrow> 64 word \<Rightarrow> 64 word \<Rightarrow> nat option" where
  "probe_loop 0 tbl alloc idx = None"
| "probe_loop (Suc fuel) tbl alloc idx = do {
     e \<leftarrow> entry_at tbl (unat idx);
     if entry_hash e \<noteq> 0
     then probe_loop fuel tbl alloc (if idx + 1 \<ge> alloc then idx + 1 - alloc else idx + 1)
     else Some (unat idx)
   }"

text \<open>
  \<open>__cwc_hhmap_insert\<close>, \<open>__cwc_hhmap_rehash_to_size\<close> (with its loop over the old
  table, \<open>hhmap_reinsert\<close>) and \<open>__cwc_hhmap_rehash_expand\<close> call each other.
\<close>

fun hhmap_insert :: "nat \<Rightarrow> cwc_hhmap \<Rightarrow> 64 word \<Rightarrow> addr option \<Rightarrow> cwc_hhmap option"
  and hhmap_rehash_to_size :: "nat \<Rightarrow> cwc_hhmap \<Rightarrow> 64 word \<Rightarrow> cwc_hhmap option"
  and hhmap_reinsert :: "nat \<Rightarrow> cwc_hhmap \<Rightarrow> hhash_entry list \<Rightarrow> cwc_hhmap option" where
  "hhmap_insert 0 m hash data = None"
| "hhmap_insert (Suc fuel) m hash data = do {
     (current, prev) \<leftarrow> cwc_hhmap_lookup (Suc fuel) m hash;
     case current of
       Some c \<Rightarrow> do {
         e \<leftarrow> entry_at (table m) c;
         Some (m\<lparr>table := (table m)[c := e\<lparr>entry_data := data\<rparr>]\<rparr>)
       }
     | None \<Rightarrow> do {
         idx \<leftarrow> probe_loop (Suc fuel) (table m) (map_alloc m) (word_of_nat prev);
         e \<leftarrow> entry_at (table m) idx;
         let tbl1 = (table m)[idx := e\<lparr>entry_hash := hash, entry_data := data\<rparr>];
         pe \<leftarrow> entry_at tbl1 prev;
         let tbl2 = (if prev \<noteq> idx then tbl1[prev := pe\<lparr>entry_next := Some idx\<rparr>] else tbl1);
         let m1 = m\<lparr>table := tbl2, map_size := map_size m + 1\<rparr>;
         if expand_at_size_exceed m1 \<ge> map_size m1 then Some m1
         else hhmap_rehash_to_size fuel m1 (map_alloc m1 * 2)
       }
   }"
| "hhmap_rehash_to_size 0 m new_size = None"
| "hhmap_rehash_to_size (Suc fuel) m new_size =
     hhmap_reinsert fuel
       (recompute_limit (m\<lparr>table := replicate (unat new_size) zero_entry, map_size := 0,
                           map_alloc := new_size\<rparr>))
       (table m)"
| "hhmap_reinsert 0 m old = None"
| "hhmap_reinsert (Suc fuel) m [] = Some m"
| "hhmap_reinsert (Suc fuel) m (elem # old) =
     (if entry_hash elem = 0 then hhmap_reinsert fuel m old
      else do {
        m1 \<leftarrow> hhmap_insert fuel m (entry_hash elem) (entry_data elem);
        hhmap_reinsert fuel m1 old
      })"

definition hhmap_get :: "nat \<Rightarrow> cwc_hhmap \<Rightarrow> 64 word \<Rightarrow> addr option option" where
  "hhmap_get fuel m hash = do {
     (result, prev) \<leftarrow> cwc_hhmap_lookup fuel m hash;
     case result of
       Some r \<Rightarrow> do { e \<leftarrow> entry_at (table m) r; Some (entry_data e) }
     | None \<Rightarrow> Some None
   }"

text \<open>\<open>__cwc_hhmap_remove\<close> with \<open>__cwc_hhmap_rehash_shrink\<close>.\<close>

definition hhmap_remove :: "nat \<Rightarrow> cwc_hhmap \<Rightarrow> 64 word \<Rightarrow> cwc_hhmap option" where
  "hhmap_remove fuel m hash = do {
     (result, prev) \<leftarrow> cwc_hhmap_lookup fuel m hash;
     case result of
       None \<Rightarrow> Some m
     | Some r \<Rightarrow> do {
         e \<leftarrow> entry_at (table m) r;
         tbl \<leftarrow> (if entry_next e = None then do {
                   pe \<leftarrow> entry_at (table m) prev;
                   Some (((table m)[prev := pe\<lparr>entry_next := None\<rparr>])[r := zero_entry])
                 } else Some ((table m)[r := e\<lparr>entry_hash := 0, entry_data := None\<rparr>]));
         let m1 = m\<lparr>table := tbl, map_size := map_size m - 1\<rparr>;
         if map_size m1 \<ge> shrink_at_size_behind m1 then Some m1
         else hhmap_rehash_to_size fuel m1 (map_alloc m1 div 2)
       }
   }"

text \<open>
  The entry points with a key of \<open>key_len\<close> bytes.  \<open>XXH3_64bits\<close> is the hash of the
  xxHash library; it is a parameter \<open>xxh3\<close> of the model, applied to the 8 bytes of a
  generated key.
\<close>

definition cwc_hhmap_ninsert ::
  "(64 word \<Rightarrow> 64 word) \<Rightarrow> nat \<Rightarrow> cwc_hhmap \<Rightarrow> 64 word \<Rightarrow> addr option \<Rightarrow> cwc_hhmap option" where
  "cwc_hhmap_ninsert xxh3 fuel m key data = hhmap_insert fuel m (xxh3 key) data"

definition cwc_hhmap_nget ::
  "(64 word \<Rightarrow> 64 word) \<Rightarrow> nat \<Rightarrow> cwc_hhmap \<Rightarrow> 64 word \<Rightarrow> addr option option" where
  "cwc_hhmap_nget xxh3 fuel m key = hhmap_get fuel m (xxh3 key)"

definition cwc_hhmap_nremove ::
  "(64 word \<Rightarrow> 64 word) \<Rightarrow> nat \<Rightarrow> cwc_hhmap \<Rightarrow> 64 word \<Rightarrow> cwc_hhmap option" where
  "cwc_hhmap_nremove xxh3 fuel m key = hhmap_remove fuel m (xxh3 key)"

section \<open>Keybindings (keybinding.c) and key events (keyboard.c)\<close>

text \<open>
  \<open>struct cwc_keybind_info\<close> is declared in \<open>cwc/input/keyboard.h\<close>, which is not
  among the sources; the record has the fields that keybinding.c uses.  A C callback
  (\<open>on_press\<close>, \<open>on_release\<close>) is a function pointer, modelled by an identifier;
  \<open>luaref_press\<close> and \<open>luaref_release\<close> are references into the Lua registry, 0 for
  none; \<open>group\<close> and \<open>description\<close> are pointers to strings.
\<close>

datatype cwc_keybind_type = CWC_KEYBIND_TYPE_C | CWC_KEYBIND_TYPE_LUA

record cwc_keybind_info =
  kb_type :: cwc_keybind_type
  kb_key :: "64 word"
  kb_group :: "addr option"
  kb_description :: "addr option"
  on_press :: "nat option"
  on_release :: "nat option"
  kb_args :: nat
  luaref_press :: int
  luaref_release :: int

text \<open>
  The memory the keybindings live in: the \<open>malloc\<close>ed info records, the strings
  allocated by \<open>strdup\<close>, and the references held in the Lua registry.
\<close>

record kb_heap =
  infos :: "addr \<rightharpoonup> cwc_keybind_info"
  next_info :: addr
  strings :: "addr set"
  lua_registry :: "int set"

definition keybind_generate_key :: "32 word \<Rightarrow> 32 word \<Rightarrow> 64 word" where
  "keybind_generate_key modifiers keysym = push_bit 32 (ucast modifiers) OR ucast keysym"

definition generated_key_get_modifier :: "64 word \<Rightarrow> 32 word" where
  "generated_key_get_modifier genkey = ucast (drop_bit 32 genkey)"

definition generated_key_get_key :: "64 word \<Rightarrow> 32 word" where
  "generated_key_get_key genkey = ucast (genkey AND 0xffffffff)"

text \<open>\<open>free (p)\<close> of a string pointer; \<open>free (NULL)\<close> does nothing.\<close>

definition free_string :: "kb_heap \<Rightarrow> addr option \<Rightarrow> kb_heap" where
  "free_string h p = (case p of None \<Rightarrow> h | Some a \<Rightarrow> h\<lparr>strings := strings h - {a}\<rparr>)"

definition luaL_unref :: "kb_heap \<Rightarrow> int \<Rightarrow> kb_heap" where
  "luaL_unref h r = h\<lparr>lua_registry := lua_registry h - {r}\<rparr>"

definition clean_info :: "kb_heap \<Rightarrow> addr \<Rightarrow> kb_heap option" where
  "clean_info h ip = do {
     info \<leftarrow> infos h ip;
     case kb_type info of
       CWC_KEYBIND_TYPE_C \<Rightarrow> Some (h\<lparr>infos := (infos h)(ip := None)\<rparr>)
     | CWC_KEYBIND_TYPE_LUA \<Rightarrow> do {
         let h1 = (if luaref_press info \<noteq> 0 then luaL_unref h (luaref_press info) else h);
         let h2 = (if luaref_release info \<noteq> 0 then luaL_unref h1 (luaref_release info) else h1);
         Some (free_string (free_string h2 (kb_group info)) (kb_description info))
       }
   }"

text \<open>\<open>__keybind_remove_if_exist\<close>, on a map and the heap.\<close>

definition keybind_remove_if_exist ::
  "(64 word \<Rightarrow> 64 word) \<Rightarrow> nat \<Rightarrow> cwc_hhmap \<times> kb_heap \<Rightarrow> 64 word \<Rightarrow> (cwc_hhmap \<times> kb_heap) option" where
  "keybind_remove_if_exist xxh3 fuel mh generated_key = do {
     existed \<leftarrow> cwc_hhmap_nget xxh3 fuel (fst mh) generated_key;
     case existed of
       None \<Rightarrow> Some mh
     | Some ip \<Rightarrow> do {
         h1 \<leftarrow> clean_info (snd mh) ip;
         m1 \<leftarrow> cwc_hhmap_nremove xxh3 fuel (fst mh) generated_key;
         Some (m1, h1)
       }
   }"

text \<open>
  \<open>__keybind_register\<close>: the info is copied into a fresh record (\<open>malloc\<close>,
  \<open>memcpy\<close>), which gets the generated key.
\<close>

definition keybind_register ::
  "(64 word \<Rightarrow> 64 word) \<Rightarrow> nat \<Rightarrow> cwc_hhmap \<times> kb_heap \<Rightarrow> 32 word \<Rightarrow> 32 word \<Rightarrow> cwc_keybind_info
     \<Rightarrow> (cwc_hhmap \<times> kb_heap) option" where
  "keybind_register xxh3 fuel mh modifiers key info = do {
     let generated_key = keybind_generate_key modifiers key;
     let info_dup = next_info (snd mh);
     let h1 = (snd mh)\<lparr>infos := (infos (snd mh))(info_dup \<mapsto> info\<lparr>kb_key := generated_key\<rparr>),
                       next_info := Suc info_dup\<rparr>;
     (m2, h2) \<leftarrow> keybind_remove_if_exist xxh3 fuel (fst mh, h1) generated_key;
     m3 \<leftarrow> cwc_hhmap_ninsert xxh3 fuel m2 generated_key (Some info_dup);
     Some (m3, h2)
   }"

text \<open>
  What a key event makes the compositor do, as far as the dispatch is concerned:
  run a C callback with its argument, run a Lua function of the registry
  (\<open>lua_pcall\<close>), tell the idle notifier, forward the key to the focused client
  (\<open>wlr_seat_keyboard_notify_key\<close>).
\<close>

datatype kb_effect =
  Call_C nat nat
| Call_Lua int
| Notify_activity
| Notify_key bool

text \<open>\<open>__keybind_execute\<close>: the effects and the value returned.\<close>

definition keybind_execute ::
  "(64 word \<Rightarrow> 64 word) \<Rightarrow> nat \<Rightarrow> cwc_hhmap \<times> kb_heap \<Rightarrow> 32 word \<Rightarrow> 32 word \<Rightarrow> bool
     \<Rightarrow> (kb_effect list \<times> bool) option" where
  "keybind_execute xxh3 fuel mh modifiers key press = do {
     data \<leftarrow> cwc_hhmap_nget xxh3 fuel (fst mh) (keybind_generate_key modifiers key);
     case data of
       None \<Rightarrow> Some ([], False)
     | Some ip \<Rightarrow> do {
         info \<leftarrow> infos (snd mh) ip;
         case kb_type info of
           CWC_KEYBIND_TYPE_LUA \<Rightarrow>
             (let idx = (if press then luaref_press info else luaref_release info)
              in if idx = 0 then Some ([], True) else Some ([Call_Lua idx], True))
         | CWC_KEYBIND_TYPE_C \<Rightarrow>
             (let otherwise = (case on_release info of
                                 Some g \<Rightarrow> ([Call_C g (kb_args info)], True)
                               | None \<Rightarrow> ([], True))
              in if press
                 then (case on_press info of
                         Some f \<Rightarrow> Some ([Call_C f (kb_args info)], True)
                       | None \<Rightarrow> Some otherwise)
                 else Some otherwise)
       }
   }"

text \<open>
  \<open>on_kbd_key\<close>.  \<open>pressed\<close> is \<open>event->state == WL_KEYBOARD_KEY_STATE_PRESSED\<close>
  (the other state is \<open>RELEASED\<close>), \<open>locked\<close> is \<open>server.session_lock->locked\<close>,
  \<open>modifiers\<close> and \<open>keysym\<close> are what \<open>wlr_keyboard_get_modifiers\<close> and
  \<open>xkb_state_key_get_one_sym\<close> return for the event.
\<close>

definition on_kbd_key ::
  "(64 word \<Rightarrow> 64 word) \<Rightarrow> nat \<Rightarrow> cwc_hhmap \<times> kb_heap \<Rightarrow> bool \<Rightarrow> 32 word \<Rightarrow> 32 word \<Rightarrow> bool
     \<Rightarrow> kb_effect list option" where
  "on_kbd_key xxh3 fuel mh locked modifiers keysym pressed = do {
     (effects, handled) \<leftarrow>
       (if pressed then do {
          (es, handled) \<leftarrow> (if \<not> locked then keybind_execute xxh3 fuel mh modifiers keysym True
                            else Some ([], False));
          Some (es @ [Notify_activity], handled)
        } else do {
          (es, ignored) \<leftarrow> (if \<not> locked then keybind_execute xxh3 fuel mh modifiers keysym False
                            else Some ([], False));
          Some (es, False)
        });
     Some (if \<not> handled then effects @ [Notify_key pressed] else effects)
   }"

subsection \<open>Properties of the keyboard dispatch\<close>

text \<open>
  What the press and the release callback of a binding do when they run: a Lua binding calls
  the registry reference when it is set, a C binding the function pointer when it is not
  \<open>NULL\<close>.  \<open>forwarded\<close> is what \<open>on_kbd_key\<close> does with an event no binding consumed: a press
  notifies the idle timer and is sent to the focused client, a release is sent to the
  focused client.
\<close>

definition press_callback :: "cwc_keybind_info \<Rightarrow> kb_effect list" where
  "press_callback info =
     (case kb_type info of
        CWC_KEYBIND_TYPE_LUA \<Rightarrow> (if luaref_press info = 0 then [] else [Call_Lua (luaref_press info)])
      | CWC_KEYBIND_TYPE_C \<Rightarrow> (case on_press info of None \<Rightarrow> [] | Some f \<Rightarrow> [Call_C f (kb_args info)]))"

definition release_callback :: "cwc_keybind_info \<Rightarrow> kb_effect list" where
  "release_callback info =
     (case kb_type info of
        CWC_KEYBIND_TYPE_LUA \<Rightarrow> (if luaref_release info = 0 then [] else [Call_Lua (luaref_release info)])
      | CWC_KEYBIND_TYPE_C \<Rightarrow> (case on_release info of None \<Rightarrow> [] | Some g \<Rightarrow> [Call_C g (kb_args info)]))"

definition forwarded :: "bool \<Rightarrow> kb_effect list" where
  "forwarded pressed = (if pressed then [Notify_activity, Notify_key True] else [Notify_key False])"

text \<open>
  A stand-in for \<open>XXH3_64bits\<close> and a map as \<open>cwc_hhmap_create(8)\<close> returns it, for the
  concrete runs below.
\<close>

definition demo_xxh3 :: "64 word \<Rightarrow> 64 word" where
  "demo_xxh3 k = k * 0x9E3779B97F4A7C15 + 1"

definition demo_map :: cwc_hhmap where
  "demo_map = \<lparr>map_size = 0, map_alloc = 8, expand_at_size_exceed = 6,
     shrink_at_size_behind = 0, table = replicate 8 zero_entry\<rparr>"

definition demo_kb_heap :: kb_heap where
  "demo_kb_heap = \<lparr>infos = Map.empty, next_info = 0, strings = {}, lua_registry = {1, 2, 3, 4}\<rparr>"

definition demo_lua_info :: "int \<Rightarrow> int \<Rightarrow> cwc_keybind_info" where
  "demo_lua_info p r = \<lparr>kb_type = CWC_KEYBIND_TYPE_LUA, kb_key = 0, kb_group = None,
     kb_description = None, on_press = None, on_release = None, kb_args = 0,
     luaref_press = p, luaref_release = r\<rparr>"

lemma demo_map_create: "cwc_hhmap_create 1 8 = Some demo_map"
  by (simp add: cwc_hhmap_create_def demo_map_def recompute_limit_def)

text \<open>
  Claim C5.  With the session locked, \<open>on_kbd_key\<close> runs no keybinding callback: a press
  and a release are only forwarded.  With the session unlocked, a press under which no
  binding is stored is forwarded; a press under which a binding is stored runs its callback
  and is not forwarded to the client (a C binding without \<open>on_press\<close> runs its \<open>on_release\<close>
  there, the fall-through of \<open>keybind_execute\<close>); a release runs the release callback of the
  binding, when there is one, and is forwarded in every case.
\<close>

theorem on_kbd_key_dispatch:
  "on_kbd_key xxh3 fuel mh True modifiers keysym pressed = Some (forwarded pressed)
   \<and> (cwc_hhmap_nget xxh3 fuel (fst mh) (keybind_generate_key modifiers keysym) = Some None \<longrightarrow>
        on_kbd_key xxh3 fuel mh False modifiers keysym pressed = Some (forwarded pressed))
   \<and> (cwc_hhmap_nget xxh3 fuel (fst mh) (keybind_generate_key modifiers keysym) = Some (Some ip)
        \<and> infos (snd mh) ip = Some info \<longrightarrow>
        on_kbd_key xxh3 fuel mh False modifiers keysym False
          = Some (release_callback info @ [Notify_key False])
        \<and> on_kbd_key xxh3 fuel mh False modifiers keysym True
          = Some ((if press_callback info \<noteq> [] \<or> kb_type info = CWC_KEYBIND_TYPE_LUA
                   then press_callback info else release_callback info) @ [Notify_activity]))"
  by (auto simp: on_kbd_key_def keybind_execute_def press_callback_def release_callback_def
        forwarded_def Let_def
      split: cwc_keybind_type.splits option.splits)

theorem on_kbd_key_dispatch_witness:
  "\<exists>mh. keybind_register demo_xxh3 2 (demo_map, demo_kb_heap) 64 97 (demo_lua_info 1 2) = Some mh
     \<and> cwc_hhmap_nget demo_xxh3 2 (fst mh) (keybind_generate_key 64 97) = Some (Some 0)
     \<and> infos (snd mh) 0 = Some ((demo_lua_info 1 2)\<lparr>kb_key := keybind_generate_key 64 97\<rparr>)
     \<and> cwc_hhmap_nget demo_xxh3 2 (fst mh) (keybind_generate_key 64 98) = Some None
     \<and> on_kbd_key demo_xxh3 2 mh True 64 97 True = Some [Notify_activity, Notify_key True]
     \<and> on_kbd_key demo_xxh3 2 mh False 64 98 True = Some [Notify_activity, Notify_key True]
     \<and> on_kbd_key demo_xxh3 2 mh False 64 97 True = Some [Call_Lua 1, Notify_activity]
     \<and> on_kbd_key demo_xxh3 2 mh False 64 97 False = Some [Call_Lua 2, Notify_key False]"
proof -
  let ?r = "keybind_register demo_xxh3 2 (demo_map, demo_kb_heap) 64 97 (demo_lua_info 1 2)"
  have "?r \<noteq> None" by code_simp
  then obtain mh where mh: "?r = Some mh" by blast
  have "map_option (\<lambda>mh. cwc_hhmap_nget demo_xxh3 2 (fst mh) (keybind_generate_key 64 97)) ?r
        = Some (Some (Some 0))" by code_simp
  then have a: "cwc_hhmap_nget demo_xxh3 2 (fst mh) (keybind_generate_key 64 97) = Some (Some 0)"
    using mh by simp
  have "map_option (\<lambda>mh. infos (snd mh) 0) ?r
        = Some (Some ((demo_lua_info 1 2)\<lparr>kb_key := keybind_generate_key 64 97\<rparr>))" by code_simp
  then have b: "infos (snd mh) 0 = Some ((demo_lua_info 1 2)\<lparr>kb_key := keybind_generate_key 64 97\<rparr>)"
    using mh by simp
  have "map_option (\<lambda>mh. cwc_hhmap_nget demo_xxh3 2 (fst mh) (keybind_generate_key 64 98)) ?r
        = Some (Some None)" by code_simp
  then have c: "cwc_hhmap_nget demo_xxh3 2 (fst mh) (keybind_generate_key 64 98) = Some None"
    using mh by simp
  note t1 = on_kbd_key_dispatch[of demo_xxh3 2 mh 64 97 True 0
      "(demo_lua_info 1 2)\<lparr>kb_key := keybind_generate_key 64 97\<rparr>"]
  note t2 = on_kbd_key_dispatch[of demo_xxh3 2 mh 64 98 True]
  have "on_kbd_key demo_xxh3 2 mh True 64 97 True = Some [Notify_activity, Notify_key True]"
    using t1 by (simp add: forwarded_def)
  moreover have "on_kbd_key demo_xxh3 2 mh False 64 98 True = Some [Notify_activity, Notify_key True]"
    using t2 c by (simp add: forwarded_def)
  moreover have "on_kbd_key demo_xxh3 2 mh False 64 97 True = Some [Call_Lua 1, Notify_activity]"
    "on_kbd_key demo_xxh3 2 mh False 64 97 False = Some [Call_Lua 2, Notify_key False]"
    using t1 a b by (simp_all add: press_callback_def release_callback_def demo_lua_info_def)
  ultimately show ?thesis using mh a b c by blast
qed

subsection \<open>Properties of the registration of a keybinding\<close>

text \<open>
  What \<open>clean_info\<close> gives back for a Lua binding: its registry references that are set,
  and its two strings.  \<open>bindings_of\<close> lists the info pointers a map holds, in table order.
\<close>

definition released_refs :: "cwc_keybind_info \<Rightarrow> int set" where
  "released_refs old = {luaref_press old, luaref_release old} - {0}"

definition released_strings :: "cwc_keybind_info \<Rightarrow> addr set" where
  "released_strings old = set_option (kb_group old) \<union> set_option (kb_description old)"

definition bindings_of :: "cwc_hhmap \<Rightarrow> addr list" where
  "bindings_of m = concat (map (\<lambda>e. if entry_hash e = 0 then [] else
                                      (case entry_data e of None \<Rightarrow> [] | Some ip \<Rightarrow> [ip]))
                              (table m))"

text \<open>Two registrations under the same pair (modifier 64, key 97), from the empty map.\<close>

definition demo_c_info :: "nat \<Rightarrow> cwc_keybind_info" where
  "demo_c_info f = \<lparr>kb_type = CWC_KEYBIND_TYPE_C, kb_key = 0, kb_group = None,
     kb_description = None, on_press = Some f, on_release = None, kb_args = 0,
     luaref_press = 0, luaref_release = 0\<rparr>"

definition register_twice ::
  "cwc_keybind_info \<Rightarrow> cwc_keybind_info \<Rightarrow> (cwc_hhmap \<times> kb_heap) option" where
  "register_twice first second = do {
     mh1 \<leftarrow> keybind_register demo_xxh3 2 (demo_map, demo_kb_heap) 64 97 first;
     keybind_register demo_xxh3 2 mh1 64 97 second
   }"

lemma clean_info_C:
  "infos h ip = Some old \<Longrightarrow> kb_type old = CWC_KEYBIND_TYPE_C \<Longrightarrow>
   clean_info h ip = Some (h\<lparr>infos := (infos h)(ip := None)\<rparr>)"
  by (simp add: clean_info_def)

lemma clean_info_LUA:
  "infos h ip = Some old \<Longrightarrow> kb_type old = CWC_KEYBIND_TYPE_LUA \<Longrightarrow>
   \<exists>h'. clean_info h ip = Some h' \<and> infos h' = infos h \<and> next_info h' = next_info h
      \<and> lua_registry h' = lua_registry h - released_refs old
      \<and> strings h' = strings h - released_strings old"
  by (cases "kb_group old"; cases "kb_description old")
     (auto simp: clean_info_def free_string_def luaL_unref_def released_refs_def
        released_strings_def Let_def)

text \<open>
  Claim C10.  When \<open>__keybind_register\<close> finds a binding \<open>old\<close> under the pair, the new info
  is stored in a fresh record, and the old binding is cleaned: a C binding's record is freed;
  a Lua binding gives back its registry references and its strings, but its record stays
  allocated, since the \<open>CWC_KEYBIND_TYPE_LUA\<close> branch of \<open>clean_info\<close> has no \<open>free(info)\<close>.
\<close>

theorem keybind_register_frees_existing:
  assumes "keybind_register xxh3 fuel (m, h) modifiers key info = Some (m', h')"
    and "cwc_hhmap_nget xxh3 fuel m (keybind_generate_key modifiers key) = Some (Some ip)"
    and "infos h ip = Some old"
    and "ip < next_info h"
  shows "infos h' (next_info h) = Some (info\<lparr>kb_key := keybind_generate_key modifiers key\<rparr>)
       \<and> (kb_type old = CWC_KEYBIND_TYPE_C \<longrightarrow>
            infos h' ip = None \<and> lua_registry h' = lua_registry h \<and> strings h' = strings h)
       \<and> (kb_type old = CWC_KEYBIND_TYPE_LUA \<longrightarrow>
            infos h' ip = Some old
            \<and> lua_registry h' = lua_registry h - released_refs old
            \<and> strings h' = strings h - released_strings old)"
proof -
  let ?k = "keybind_generate_key modifiers key"
  let ?h1 = "h\<lparr>infos := (infos h)(next_info h \<mapsto> info\<lparr>kb_key := ?k\<rparr>),
               next_info := Suc (next_info h)\<rparr>"
  have old1: "infos ?h1 ip = Some old" using assms(3,4) by simp
  show ?thesis
  proof (cases "kb_type old")
    case CWC_KEYBIND_TYPE_C
    from clean_info_C[OF old1 this] assms(1,2,4) show ?thesis
      using CWC_KEYBIND_TYPE_C
      by (auto simp: keybind_register_def keybind_remove_if_exist_def Let_def
            split: Option.bind_splits)
  next
    case CWC_KEYBIND_TYPE_LUA
    from clean_info_LUA[OF old1 this] obtain h2 where
      h2: "clean_info ?h1 ip = Some h2" "infos h2 = infos ?h1"
          "lua_registry h2 = lua_registry ?h1 - released_refs old"
          "strings h2 = strings ?h1 - released_strings old" by blast
    from assms(1,2) h2(1) have "h' = h2"
      by (auto simp: keybind_register_def keybind_remove_if_exist_def Let_def
            split: Option.bind_splits)
    then show ?thesis using h2 assms(3,4) CWC_KEYBIND_TYPE_LUA by simp
  qed
qed

theorem keybind_register_frees_existing_witness:
  "\<exists>mh1 mh2.
     keybind_register demo_xxh3 2 (demo_map, demo_kb_heap) 64 97 (demo_lua_info 1 2) = Some mh1
   \<and> keybind_register demo_xxh3 2 mh1 64 97 (demo_lua_info 3 4) = Some mh2
   \<and> cwc_hhmap_nget demo_xxh3 2 (fst mh1) (keybind_generate_key 64 97) = Some (Some 0)
   \<and> infos (snd mh1) 0 = Some ((demo_lua_info 1 2)\<lparr>kb_key := keybind_generate_key 64 97\<rparr>)
   \<and> next_info (snd mh1) = 1
   \<and> infos (snd mh2) 1 = Some ((demo_lua_info 3 4)\<lparr>kb_key := keybind_generate_key 64 97\<rparr>)
   \<and> infos (snd mh2) 0 = Some ((demo_lua_info 1 2)\<lparr>kb_key := keybind_generate_key 64 97\<rparr>)
   \<and> lua_registry (snd mh2) = lua_registry (snd mh1) - {1, 2}"
proof -
  let ?k = "keybind_generate_key 64 97"
  let ?old = "(demo_lua_info 1 2)\<lparr>kb_key := ?k\<rparr>"
  let ?r1 = "keybind_register demo_xxh3 2 (demo_map, demo_kb_heap) 64 97 (demo_lua_info 1 2)"
  have "?r1 \<noteq> None" by code_simp
  then obtain m1 h1 where mh1: "?r1 = Some (m1, h1)" by (cases ?r1) auto
  let ?r2 = "keybind_register demo_xxh3 2 (m1, h1) 64 97 (demo_lua_info 3 4)"
  have "(?r1 \<bind> (\<lambda>mh. keybind_register demo_xxh3 2 mh 64 97 (demo_lua_info 3 4))) \<noteq> None"
    by code_simp
  then have "?r2 \<noteq> None" using mh1 by simp
  then obtain m2 h2 where mh2: "?r2 = Some (m2, h2)" by (cases ?r2) auto
  have "map_option (\<lambda>mh. cwc_hhmap_nget demo_xxh3 2 (fst mh) ?k) ?r1 = Some (Some (Some 0))"
    by code_simp
  then have a: "cwc_hhmap_nget demo_xxh3 2 m1 ?k = Some (Some 0)" using mh1 by simp
  have "map_option (\<lambda>mh. infos (snd mh) 0) ?r1 = Some (Some ?old)" by code_simp
  then have b: "infos h1 0 = Some ?old" using mh1 by simp
  have "map_option (\<lambda>mh. next_info (snd mh)) ?r1 = Some 1" by code_simp
  then have c: "next_info h1 = 1" using mh1 by simp
  have d: "0 < next_info h1" using c by simp
  have e: "kb_type ?old = CWC_KEYBIND_TYPE_LUA" "released_refs ?old = {1, 2}"
    by (auto simp: demo_lua_info_def released_refs_def)
  from keybind_register_frees_existing[OF mh2 a b d] c e
  have "infos h2 1 = Some ((demo_lua_info 3 4)\<lparr>kb_key := ?k\<rparr>)"
       "infos h2 0 = Some ?old" "lua_registry h2 = lua_registry h1 - {1, 2}"
    by simp_all
  then show ?thesis using mh1 mh2 a b c by auto
qed

text \<open>
  The two runs: afterwards the map holds one binding, the second, in both; the record of the
  first binding is still allocated when it is a Lua binding and freed when it is a C binding.
\<close>

lemma register_twice_lua: "map_option (\<lambda>mh. (bindings_of (fst mh), map_size (fst mh), infos (snd mh) 0, infos (snd mh) 1,
                 1 \<in> lua_registry (snd mh), 2 \<in> lua_registry (snd mh), 3 \<in> lua_registry (snd mh)))
        (register_twice (demo_lua_info 1 2) (demo_lua_info 3 4))
   = Some ([1], 1, Some ((demo_lua_info 1 2)\<lparr>kb_key := keybind_generate_key 64 97\<rparr>),
           Some ((demo_lua_info 3 4)\<lparr>kb_key := keybind_generate_key 64 97\<rparr>), False, False, True)"
  by code_simp

lemma register_twice_c: "map_option (\<lambda>mh. (bindings_of (fst mh), map_size (fst mh), infos (snd mh) 0, infos (snd mh) 1))
        (register_twice (demo_c_info 7) (demo_c_info 8))
   = Some ([1], 1, None, Some ((demo_c_info 8)\<lparr>kb_key := keybind_generate_key 64 97\<rparr>))"
  by code_simp

section \<open>Container states (container.c, output.c)\<close>

text \<open>
  \<open>cwc_container_for_each_toplevel\<close>: the callback is applied to the toplevels of
  \<open>container->toplevels\<close> in list order.
\<close>

fun for_each_toplevel ::
  "(cwc_state \<Rightarrow> addr \<Rightarrow> cwc_state option) \<Rightarrow> cwc_state \<Rightarrow> addr list \<Rightarrow> cwc_state option" where
  "for_each_toplevel f s [] = Some s"
| "for_each_toplevel f s (tp # tps) = do { s' \<leftarrow> f s tp; for_each_toplevel f s' tps }"

definition cwc_container_for_each_toplevel ::
  "(cwc_state \<Rightarrow> addr \<Rightarrow> cwc_state option) \<Rightarrow> cwc_state \<Rightarrow> addr \<Rightarrow> cwc_state option" where
  "cwc_container_for_each_toplevel f s cp = do {
     c \<leftarrow> containers s cp;
     for_each_toplevel f s (cont_toplevels c)
   }"

text \<open>
  The three callbacks.  \<open>__cwc_toplevel_set_fullscreen\<close>, \<open>__cwc_toplevel_set_maximized\<close>
  and \<open>__cwc_toplevel_set_minimized\<close> tell the client its new state
  (\<open>wlr_xdg_toplevel_set_fullscreen\<close> and the like); of these calls the model keeps that
  the toplevel is dereferenced.
\<close>

definition all_toplevel_set_fullscreen :: "bool \<Rightarrow> cwc_state \<Rightarrow> addr \<Rightarrow> cwc_state option" where
  "all_toplevel_set_fullscreen on s tp = do {
     s2 \<leftarrow> (if on then do {
               s1 \<leftarrow> cwc_toplevel_set_size_surface s tp (output_width s) (output_height s);
               cwc_toplevel_set_position s1 tp 0 0
             } else Some s);
     t \<leftarrow> toplevels s2 tp;
     Some s2
   }"

definition all_toplevel_set_maximized :: "bool \<Rightarrow> cwc_state \<Rightarrow> addr \<Rightarrow> cwc_state option" where
  "all_toplevel_set_maximized on s tp = do {
     t \<leftarrow> toplevels s tp;
     if on then do {
       let ua = usable_area s;
       s1 \<leftarrow> cwc_toplevel_set_size_surface s tp (box_width ua) (box_height ua);
       cwc_toplevel_set_position s1 tp (box_x ua) (box_y ua)
     } else Some s
   }"

definition all_toplevel_set_minimized :: "bool \<Rightarrow> cwc_state \<Rightarrow> addr \<Rightarrow> cwc_state option" where
  "all_toplevel_set_minimized on s tp = do { t \<leftarrow> toplevels s tp; Some s }"

text \<open>\<open>cwc_output_tiling_layout_update\<close> and \<open>cwc_output_is_current_layout_bsp\<close>.\<close>

definition cwc_output_tiling_layout_update :: "nat \<Rightarrow> cwc_state \<Rightarrow> int \<Rightarrow> cwc_state option" where
  "cwc_output_tiling_layout_update fuel s view = do {
     info \<leftarrow> cwc_output_get_current_view_info s;
     let view = (if view \<noteq> 0 then view else active_workspace s);
     case layout_mode info of
       CWC_LAYOUT_BSP \<Rightarrow> bsp_update_root fuel s view
     | CWC_LAYOUT_MASTER \<Rightarrow> master_arrange_update s
     | CWC_LAYOUT_FLOATING \<Rightarrow> Some s
   }"

definition cwc_output_is_current_layout_bsp :: "cwc_state \<Rightarrow> bool option" where
  "cwc_output_is_current_layout_bsp s = do {
     info \<leftarrow> cwc_output_get_current_view_info s;
     Some (layout_mode info = CWC_LAYOUT_BSP)
   }"

text \<open>Writing \<open>container->state\<close>.  (The parameter \<open>set\<close> of the functions below is called \<open>on\<close>.)\<close>

definition set_state :: "cwc_state \<Rightarrow> addr \<Rightarrow> (32 word \<Rightarrow> 32 word) \<Rightarrow> cwc_state option" where
  "set_state s cp f = do {
     c \<leftarrow> containers s cp;
     Some (s\<lparr>containers := (containers s)(cp \<mapsto> c\<lparr>cont_state := f (cont_state c)\<rparr>)\<rparr>)
   }"

text \<open>
  \<open>cwc_container_set_fullscreen\<close>.  The signal emitted at the end
  (\<open>client::property::fullscreen\<close>) is not part of the model; what a handler of it does
  is a further operation.
\<close>

definition cwc_container_set_fullscreen :: "nat \<Rightarrow> cwc_state \<Rightarrow> addr \<Rightarrow> bool \<Rightarrow> cwc_state option" where
  "cwc_container_set_fullscreen fuel s cp on = do {
     c \<leftarrow> containers s cp;
     let bsp_node = cont_bsp_node c;
     s1 \<leftarrow> (if on then do {
               s0 \<leftarrow> set_state s cp (\<lambda>st. (st OR CONTAINER_STATE_FULLSCREEN)
                                              AND NOT CONTAINER_STATE_MAXIMIZED);
               case bsp_node of None \<Rightarrow> Some s0 | Some np \<Rightarrow> bsp_node_disable fuel s0 np
             } else do {
               s0 \<leftarrow> set_state s cp (\<lambda>st. st AND NOT CONTAINER_STATE_FULLSCREEN);
               c0 \<leftarrow> containers s0 cp;
               fl \<leftarrow> cwc_container_is_floating s0 c0;
               if fl then cwc_container_restore_floating_box s0 cp
               else (case bsp_node of None \<Rightarrow> Some s0 | Some np \<Rightarrow> bsp_node_enable fuel s0 np)
             });
     s2 \<leftarrow> cwc_container_for_each_toplevel (all_toplevel_set_fullscreen on) s1 cp;
     c2 \<leftarrow> containers s2 cp;
     let b = cwc_border_resize (cwc_border_set_enabled (border c2) (\<not> on))
               (cont_width c2) (cont_height c2);
     master_arrange_update (s2\<lparr>containers := (containers s2)(cp \<mapsto> c2\<lparr>border := b\<rparr>)\<rparr>)
   }"

definition cwc_container_set_maximized :: "nat \<Rightarrow> cwc_state \<Rightarrow> addr \<Rightarrow> bool \<Rightarrow> cwc_state option" where
  "cwc_container_set_maximized fuel s cp on = do {
     c \<leftarrow> containers s cp;
     let bsp_node = cont_bsp_node c;
     s1 \<leftarrow> (if on then do {
               s0 \<leftarrow> set_state s cp (\<lambda>st. (st OR CONTAINER_STATE_MAXIMIZED)
                                              AND NOT CONTAINER_STATE_FULLSCREEN);
               case bsp_node of None \<Rightarrow> Some s0 | Some np \<Rightarrow> bsp_node_disable fuel s0 np
             } else do {
               s0 \<leftarrow> set_state s cp (\<lambda>st. st AND NOT CONTAINER_STATE_MAXIMIZED);
               c0 \<leftarrow> containers s0 cp;
               fl \<leftarrow> cwc_container_is_floating s0 c0;
               if fl then cwc_container_restore_floating_box s0 cp
               else (case bsp_node of None \<Rightarrow> Some s0 | Some np \<Rightarrow> bsp_node_enable fuel s0 np)
             });
     s2 \<leftarrow> cwc_container_for_each_toplevel (all_toplevel_set_maximized on) s1 cp;
     c2 \<leftarrow> containers s2 cp;
     let b = cwc_border_resize (cwc_border_set_enabled (border c2) (\<not> on))
               (cont_width c2) (cont_height c2);
     master_arrange_update (s2\<lparr>containers := (containers s2)(cp \<mapsto> c2\<lparr>border := b\<rparr>)\<rparr>)
   }"

text \<open>
  \<open>cwc_container_set_minimized\<close>.  The scene node, the list of minimized containers and
  the keyboard focus are not part of the state.
\<close>

definition cwc_container_set_minimized :: "nat \<Rightarrow> cwc_state \<Rightarrow> addr \<Rightarrow> bool \<Rightarrow> cwc_state option" where
  "cwc_container_set_minimized fuel s cp on = do {
     c \<leftarrow> containers s cp;
     let bsp_node = cont_bsp_node c;
     s1 \<leftarrow> (if on then do {
               s0 \<leftarrow> (case bsp_node of None \<Rightarrow> Some s | Some np \<Rightarrow> bsp_node_disable fuel s np);
               set_state s0 cp (\<lambda>st. st OR CONTAINER_STATE_MINIMIZED)
             } else do {
               s0 \<leftarrow> set_state s cp (\<lambda>st. st AND NOT CONTAINER_STATE_MINIMIZED);
               s0' \<leftarrow> (case bsp_node of None \<Rightarrow> Some s0 | Some np \<Rightarrow> bsp_node_enable fuel s0 np);
               c0 \<leftarrow> containers s0' cp;
               Some (s0'\<lparr>containers := (containers s0')(cp \<mapsto>
                       c0\<lparr>cont_tag := active_tag s0', cont_workspace := active_workspace s0'\<rparr>)\<rparr>)
             });
     s2 \<leftarrow> cwc_container_for_each_toplevel (all_toplevel_set_minimized on) s1 cp;
     master_arrange_update s2
   }"

definition cwc_container_set_floating :: "nat \<Rightarrow> cwc_state \<Rightarrow> addr \<Rightarrow> bool \<Rightarrow> cwc_state option" where
  "cwc_container_set_floating fuel s cp on = do {
     c \<leftarrow> containers s cp;
     if \<not> cwc_container_is_configure_allowed c then Some s
     else if on then do {
       s1 \<leftarrow> cwc_container_restore_floating_box s cp;
       c1 \<leftarrow> containers s1 cp;
       s2 \<leftarrow> (case cont_bsp_node c1 of None \<Rightarrow> Some s1 | Some np \<Rightarrow> bsp_node_disable fuel s1 np);
       s3 \<leftarrow> set_state s2 cp (\<lambda>st. st OR CONTAINER_STATE_FLOATING);
       c3 \<leftarrow> containers s3 cp;
       cwc_output_tiling_layout_update fuel s3 (cont_workspace c3)
     } else do {
       fl \<leftarrow> cwc_container_is_floating s c;
       if fl then do {
         s1 \<leftarrow> set_state s cp (\<lambda>st. st AND NOT CONTAINER_STATE_FLOATING);
         c1 \<leftarrow> containers s1 cp;
         s2 \<leftarrow> (case cont_bsp_node c1 of
                   Some np \<Rightarrow> bsp_node_enable fuel s1 np
                 | None \<Rightarrow> do {
                     bsp \<leftarrow> cwc_output_is_current_layout_bsp s1;
                     if bsp then bsp_insert_container fuel s1 cp (cont_workspace c1) else Some s1
                   });
         c2 \<leftarrow> containers s2 cp;
         cwc_output_tiling_layout_update fuel s2 (cont_workspace c2)
       } else Some s
     }
   }"

text \<open>
  \<open>cwc_container_set_sticky\<close>; \<open>cwc_output_update_visible\<close> shows and hides scene nodes and
  moves the focus.
\<close>

definition cwc_container_set_sticky :: "cwc_state \<Rightarrow> addr \<Rightarrow> bool \<Rightarrow> cwc_state option" where
  "cwc_container_set_sticky s cp on =
     (if on then set_state s cp (\<lambda>st. st OR CONTAINER_STATE_STICKY)
      else set_state s cp (\<lambda>st. st AND NOT CONTAINER_STATE_STICKY))"

definition cwc_container_to_center :: "cwc_state \<Rightarrow> addr \<Rightarrow> cwc_state option" where
  "cwc_container_to_center s cp = do {
     c \<leftarrow> containers s cp;
     if \<not> cwc_container_is_configure_allowed c then Some s
     else do {
       let ua = usable_area s;
       let x = box_width ua sdiv 2 - cont_width c sdiv 2;
       let y = box_height ua sdiv 2 - cont_height c sdiv 2;
       let x = (if x < box_x ua then box_x ua else x);
       let y = (if y < box_y ua then box_y ua else y);
       cwc_container_set_position s cp x y
     }
   }"

text \<open>
  \<open>decide_should_tiled\<close>.  What the client asked for (\<open>cwc_toplevel_wants_fullscreen\<close>,
  \<open>..._maximized\<close>, \<open>..._minimized\<close>, \<open>cwc_toplevel_should_float\<close>) is read from the
  surface; the model takes the four answers.  \<open>cwc_toplevel_set_fullscreen (toplevel, b)\<close> is
  \<open>cwc_container_set_fullscreen (toplevel->container, b)\<close>, and so for the others.
\<close>

record client_wishes =
  wants_fullscreen :: bool
  wants_maximized :: bool
  wants_minimized :: bool
  should_float :: bool

definition decide_should_tiled ::
  "nat \<Rightarrow> cwc_state \<Rightarrow> addr \<Rightarrow> addr \<Rightarrow> client_wishes \<Rightarrow> cwc_state option" where
  "decide_should_tiled fuel s tp cp wishes = do {
     t \<leftarrow> toplevels s tp;
     if wants_fullscreen wishes
     then do { tc \<leftarrow> toplevel_container t; cwc_container_set_fullscreen fuel s tc True }
     else if wants_maximized wishes
     then do { tc \<leftarrow> toplevel_container t; cwc_container_set_maximized fuel s tc True }
     else if wants_minimized wishes
     then do { tc \<leftarrow> toplevel_container t; cwc_container_set_minimized fuel s tc True }
     else if should_float wishes
     then do {
       tc \<leftarrow> toplevel_container t;
       s1 \<leftarrow> cwc_container_set_floating fuel s tc True;
       t1 \<leftarrow> toplevels s1 tp;
       tc1 \<leftarrow> toplevel_container t1;
       cwc_container_to_center s1 tc1
     }
     else do {
       cont \<leftarrow> containers s cp;
       info \<leftarrow> view_info_at s (cont_workspace cont);
       case layout_mode info of
         CWC_LAYOUT_FLOATING \<Rightarrow> Some s
       | CWC_LAYOUT_MASTER \<Rightarrow> do {
           s1 \<leftarrow> master_arrange_update s;
           set_state s1 cp (\<lambda>st. st AND NOT CONTAINER_STATE_FLOATING)
         }
       | CWC_LAYOUT_BSP \<Rightarrow> do {
           s1 \<leftarrow> bsp_insert_container fuel s cp (cont_workspace cont);
           set_state s1 cp (\<lambda>st. st AND NOT CONTAINER_STATE_FLOATING)
         }
     }
   }"

text \<open>
  \<open>cwc_container_init\<close>: \<open>cp\<close> is the address \<open>calloc\<close> returns, which is not in use;
  \<open>geom_w\<close>, \<open>geom_h\<close> are the size of the toplevel's geometry; \<open>config_bw\<close> is
  \<open>g_config.border_width\<close>.  \<open>cwc_border_init\<close> leaves the zeroed border alone when the
  thickness is 0.
\<close>

definition cwc_border_init :: "int \<Rightarrow> int \<Rightarrow> int \<Rightarrow> cwc_border" where
  "cwc_border_init rect_w rect_h thick =
     (if thick = 0
      then \<lparr>thickness = 0, border_width = 0, border_height = 0, border_enabled = False,
            border_valid = False\<rparr>
      else \<lparr>thickness = thick, border_width = rect_w, border_height = rect_h,
            border_enabled = True, border_valid = True\<rparr>)"

definition cwc_container_init ::
  "nat \<Rightarrow> cwc_state \<Rightarrow> addr \<Rightarrow> addr \<Rightarrow> int \<Rightarrow> int \<Rightarrow> int \<Rightarrow> int \<Rightarrow> client_wishes \<Rightarrow> cwc_state option" where
  "cwc_container_init fuel s cp tp geom_w geom_h config_bw border_w wishes = do {
     t \<leftarrow> toplevels s tp;
     if containers s cp \<noteq> None then None
     else do {
       let w = geom_w + config_bw * 2;
       let h = geom_h + config_bw * 2;
       let cont = \<lparr>cont_x = 0, cont_y = 0, cont_width = w, cont_height = h,
                    floating_box = \<lparr>box_x = 0, box_y = 0, box_width = w, box_height = h\<rparr>,
                    cont_state = 0,
                    cont_tag = (if active_tag s \<noteq> 0 then active_tag s else 1),
                    cont_workspace = (if active_workspace s \<noteq> 0 then active_workspace s else 1),
                    cont_bsp_node = None,
                    border = cwc_border_init w h border_w,
                    cont_toplevels = [tp], tree_children = [tp]\<rparr>;
       let s1 = s\<lparr>containers := (containers s)(cp \<mapsto> cont),
                   toplevels := (toplevels s)(tp \<mapsto> t\<lparr>toplevel_container := Some cp\<rparr>)\<rparr>;
       if cwc_toplevel_is_unmanaged t
       then set_state s1 cp (\<lambda>st. st OR CONTAINER_STATE_UNMANAGED)
       else decide_should_tiled fuel (s1\<lparr>output_containers := cp # output_containers s1\<rparr>) tp cp wishes
     }
   }"

section \<open>What a new layout leaves alone\<close>

text \<open>
  A container is \<open>pinned\<close> when the tiling code must not configure it: it is fullscreen or
  maximized, or it floats.  \<open>relayout s s'\<close>: \<open>s'\<close> differs from \<open>s\<close> in geometry and in the
  BSP nodes only, and no pinned container has changed at all.
\<close>

definition pinned :: "cwc_state \<Rightarrow> cwc_container \<Rightarrow> bool" where
  "pinned s c \<longleftrightarrow> \<not> cwc_container_is_configure_allowed c \<or> cwc_container_is_floating s c = Some True"

definition relayout :: "cwc_state \<Rightarrow> cwc_state \<Rightarrow> bool" where
  "relayout s s' \<longleftrightarrow>
     s' = s\<lparr>toplevels := toplevels s', containers := containers s', bsp_nodes := bsp_nodes s'\<rparr>
     \<and> same_toplevels (toplevels s) (toplevels s')
     \<and> (\<forall>cp. map_option cont_skel (containers s' cp) = map_option cont_skel (containers s cp))
     \<and> (\<forall>cp c. containers s cp = Some c \<longrightarrow> pinned s c \<longrightarrow> containers s' cp = Some c)"

definition states_of :: "cwc_state \<Rightarrow> addr \<Rightarrow> 32 word option" where
  "states_of s cp = map_option cont_state (containers s cp)"

lemma relayout_refl [simp]: "relayout s s"
  by (simp add: relayout_def)

lemma relayout_fields:
  assumes "relayout s s'"
  shows "usable_area s' = usable_area s" "output_width s' = output_width s"
    "output_height s' = output_height s" "active_tag s' = active_tag s"
    "active_workspace s' = active_workspace s" "view_info s' = view_info s"
    "output_containers s' = output_containers s" "next_node s' = next_node s"
proof -
  from assms have a: "s' = s\<lparr>toplevels := toplevels s', containers := containers s', bsp_nodes := bsp_nodes s'\<rparr>"
    by (simp add: relayout_def)
  show "usable_area s' = usable_area s" by (subst a) simp
  show "output_width s' = output_width s" by (subst a) simp
  show "output_height s' = output_height s" by (subst a) simp
  show "active_tag s' = active_tag s" by (subst a) simp
  show "active_workspace s' = active_workspace s" by (subst a) simp
  show "view_info s' = view_info s" by (subst a) simp
  show "output_containers s' = output_containers s" by (subst a) simp
  show "next_node s' = next_node s" by (subst a) simp
qed

lemma pinned_cong:
  "cont_state c' = cont_state c \<Longrightarrow> active_workspace s' = active_workspace s \<Longrightarrow> view_info s' = view_info s
   \<Longrightarrow> pinned s' c' = pinned s c"
  by (simp add: pinned_def is_floating_cong[of c' c s' s] cwc_container_is_configure_allowed_def
      cwc_container_is_fullscreen_def cwc_container_is_maximized_def)

lemma relayout_container:
  assumes "relayout s s'" "containers s cp = Some c"
  shows "\<exists>c'. containers s' cp = Some c' \<and> cont_skel c' = cont_skel c"
  using assms by (auto simp: relayout_def dest!: spec[of _ cp])

lemma relayout_container_rev:
  assumes "relayout s s'" "containers s' cp = Some c'"
  shows "\<exists>c. containers s cp = Some c \<and> cont_skel c' = cont_skel c"
proof -
  from assms(1) have "map_option cont_skel (containers s' cp) = map_option cont_skel (containers s cp)"
    by (simp add: relayout_def)
  with assms(2) show ?thesis by (cases "containers s cp") auto
qed

lemma relayout_pinned:
  assumes "relayout s s'" "containers s cp = Some c" "pinned s c"
  shows "containers s' cp = Some c"
  using assms by (simp add: relayout_def)

lemma relayout_trans:
  assumes "relayout s s'" "relayout s' s''"
  shows "relayout s s''"
proof -
  from assms(1) have a: "s' = s\<lparr>toplevels := toplevels s', containers := containers s', bsp_nodes := bsp_nodes s'\<rparr>"
    by (simp add: relayout_def)
  from assms(2) have b: "s'' = s'\<lparr>toplevels := toplevels s'', containers := containers s'', bsp_nodes := bsp_nodes s''\<rparr>"
    by (simp add: relayout_def)
  have 1: "s'' = s\<lparr>toplevels := toplevels s'', containers := containers s'', bsp_nodes := bsp_nodes s''\<rparr>"
    by (subst b, subst a) simp
  have 2: "same_toplevels (toplevels s) (toplevels s'')"
    using assms by (simp add: relayout_def same_toplevels_def)
  have 3: "\<forall>cp. map_option cont_skel (containers s'' cp) = map_option cont_skel (containers s cp)"
    using assms by (simp add: relayout_def)
  have 4: "\<forall>cp c. containers s cp = Some c \<longrightarrow> pinned s c \<longrightarrow> containers s'' cp = Some c"
  proof (intro allI impI)
    fix cp c assume c: "containers s cp = Some c" "pinned s c"
    have c': "containers s' cp = Some c" using relayout_pinned[OF assms(1) c] .
    have "pinned s' c" using c(2) pinned_cong[of c c s' s] relayout_fields(5,6)[OF assms(1)] by simp
    then show "containers s'' cp = Some c" using relayout_pinned[OF assms(2) c'] by simp
  qed
  show ?thesis unfolding relayout_def using 1 2 3 4 by blast
qed

lemma relayout_states: "relayout s s' \<Longrightarrow> states_of s' = states_of s"
proof
  fix cp assume a: "relayout s s'"
  then have "map_option cont_skel (containers s' cp) = map_option cont_skel (containers s cp)"
    by (simp add: relayout_def)
  then show "states_of s' cp = states_of s cp"
    by (cases "containers s cp"; cases "containers s' cp")
       (auto simp: states_of_def dest: cont_skel_fields(1))
qed

lemma same_structure_states: "same_structure s s' \<Longrightarrow> states_of s' = states_of s"
proof
  fix cp assume a: "same_structure s s'"
  then have "map_option cont_skel (containers s' cp) = map_option cont_skel (containers s cp)"
    by (simp add: same_structure_def)
  then show "states_of s' cp = states_of s cp"
    by (cases "containers s cp"; cases "containers s' cp")
       (auto simp: states_of_def dest: cont_skel_fields(1))
qed

lemma relayout_nodes: "relayout s (s\<lparr>bsp_nodes := N\<rparr>)"
  by (simp add: relayout_def)


lemma relayout_set_size:
  assumes "cwc_container_set_size s cp w h = Some s'" "containers s cp = Some c" "\<not> pinned s c"
  shows "relayout s s'"
proof -
  note a = set_size_same_structure[OF assms(1)]
  have "\<forall>cq d. containers s cq = Some d \<longrightarrow> pinned s d \<longrightarrow> containers s' cq = Some d"
    using a(3) assms(2,3) by (metis option.inject)
  then show ?thesis using a(1) unfolding relayout_def same_structure_def by blast
qed

lemma relayout_set_position:
  assumes "cwc_container_set_position s cp x y = Some s'" "containers s cp = Some c" "\<not> pinned s c"
  shows "relayout s s'"
proof -
  note a = set_position_same_structure[OF assms(1)]
  have "\<forall>cq d. containers s cq = Some d \<longrightarrow> pinned s d \<longrightarrow> containers s' cq = Some d"
    using a(4) assms(2,3) by (metis option.inject)
  then show ?thesis using a(1) unfolding relayout_def same_structure_def by blast
qed

lemma relayout_place:
  assumes "cwc_container_set_size s cp w h = Some s1"
    and "cwc_container_set_position_gap s1 cp x y = Some s2"
    and "containers s cp = Some c" "\<not> pinned s c"
  shows "relayout s s2"
proof -
  have r1: "relayout s s1" using relayout_set_size[OF assms(1,3,4)] .
  from relayout_container[OF r1 assms(3)] obtain c1 where
    c1: "containers s1 cp = Some c1" "cont_skel c1 = cont_skel c" by blast
  have np: "\<not> pinned s1 c1"
    using assms(4) pinned_cong[of c1 c s1 s] cont_skel_fields(1)[OF c1(2)] relayout_fields(5,6)[OF r1]
    by simp
  from assms(2) obtain x' y' where "cwc_container_set_position s1 cp x' y' = Some s2"
    by (auto simp: cwc_container_set_position_gap_def Let_def split: bind_splits)
  from relayout_set_position[OF this c1(1) np] r1 show ?thesis by (rule relayout_trans[rotated])
qed

lemma relayout_leaf_configure:
  assumes "bsp_node_leaf_configure s np x y w h = Some s'"
  shows "relayout s s'"
proof -
  from assms obtain node cp c where
    n: "bsp_nodes s np = Some node" "node_container node = Some cp" "containers s cp = Some c"
    by (auto simp: bsp_node_leaf_configure_def split: bind_splits)
  show ?thesis
  proof (cases "cwc_container_is_configure_allowed c")
    case False
    with assms n show ?thesis by (simp add: bsp_node_leaf_configure_def)
  next
    case True
    from assms n True obtain fl where fl: "cwc_container_is_floating s c = Some fl"
      by (auto simp: bsp_node_leaf_configure_def split: bind_splits)
    show ?thesis
    proof (cases fl)
      case True
      with assms n \<open>cwc_container_is_configure_allowed c\<close> fl
      have "\<exists>N. s' = s\<lparr>bsp_nodes := N\<rparr>"
        by (auto simp: bsp_node_leaf_configure_def split: bind_splits)
      then show ?thesis using relayout_nodes by auto
    next
      case False
      with assms n \<open>cwc_container_is_configure_allowed c\<close> fl obtain sa s1 where
        sa: "cwc_container_set_size s cp w h = Some sa"
            "cwc_container_set_position_gap sa cp x y = Some s1" and
        s': "\<exists>N. s' = s1\<lparr>bsp_nodes := N\<rparr>"
        by (auto simp: bsp_node_leaf_configure_def split: bind_splits)
      have "\<not> pinned s c" using \<open>cwc_container_is_configure_allowed c\<close> fl False
        by (simp add: pinned_def)
      from relayout_place[OF sa n(3) this] have "relayout s s1" .
      moreover from s' obtain N where "s' = s1\<lparr>bsp_nodes := N\<rparr>" by blast
      ultimately show ?thesis using relayout_trans[OF _ relayout_nodes] by auto
    qed
  qed
qed

lemma relayout_update_node:
  "bsp_update_node fuel s p = Some s' \<Longrightarrow> relayout s s'"
proof (induction fuel arbitrary: s p s')
  case 0
  then show ?case by simp
next
  case (Suc fuel)
  from Suc.prems obtain parent lp rp left0 right0 left1 right where
    a: "bsp_nodes s p = Some parent" "node_left parent = Some lp" "node_right parent = Some rp"
       "bsp_nodes s lp = Some left0" "bsp_nodes s rp = Some right0"
       "(if lp = rp \<or> lp = p \<or> rp = p then None
         else bsp_split_children parent left0 right0) = Some (left1, right)"
    by (auto split: bind_splits)
  define left where "left = (if \<not> node_enabled right
                 then left1\<lparr>node_width := node_width parent, node_height := node_height parent\<rparr>
                 else left1)"
  define s1 where "s1 = s\<lparr>bsp_nodes := (bsp_nodes s)(lp \<mapsto> left, rp \<mapsto> right)\<rparr>"
  from Suc.prems a obtain s2 right2 where
    s2: "(if node_enabled left then
               (if node_type left = BSP_NODE_LEAF
                then bsp_node_leaf_configure s1 lp (node_x parent) (node_y parent)
                       (node_width left) (node_height left)
                else bsp_update_node fuel
                       (s1\<lparr>bsp_nodes := (bsp_nodes s1)(lp \<mapsto>
                             bsp_node_set_position left (node_x parent) (node_y parent))\<rparr>) lp)
             else Some (s1\<lparr>bsp_nodes := (bsp_nodes s1)(rp \<mapsto>
                          right\<lparr>node_x := node_x parent, node_y := node_y parent,
                                node_width := node_width parent,
                                node_height := node_height parent\<rparr>)\<rparr>)) = Some s2" and
    r2: "bsp_nodes s2 rp = Some right2" and
    fin: "(if node_enabled right2 then
       (if node_type right2 = BSP_NODE_LEAF
        then bsp_node_leaf_configure s2 rp (node_x right2) (node_y right2)
               (node_width right2) (node_height right2)
        else bsp_update_node fuel s2 rp)
     else Some s2) = Some s'"
    unfolding left_def s1_def
    by (auto simp: Let_def split: bind_splits)
  have r01: "relayout s s1" unfolding s1_def by (rule relayout_nodes)
  have r12: "relayout s1 s2"
  proof (cases "node_enabled left")
    case False
    with s2 show ?thesis using relayout_nodes[of s1] by auto
  next
    case True
    show ?thesis
    proof (cases "node_type left = BSP_NODE_LEAF")
      case True
      with s2 \<open>node_enabled left\<close> show ?thesis using relayout_leaf_configure by simp
    next
      case False
      with s2 \<open>node_enabled left\<close> have
        "bsp_update_node fuel (s1\<lparr>bsp_nodes := (bsp_nodes s1)(lp \<mapsto>
            bsp_node_set_position left (node_x parent) (node_y parent))\<rparr>) lp = Some s2" by simp
      from Suc.IH[OF this] relayout_nodes[of s1] show ?thesis by (rule relayout_trans[rotated])
    qed
  qed
  have r2': "relayout s2 s'"
  proof (cases "node_enabled right2")
    case False
    with fin show ?thesis by simp
  next
    case True
    show ?thesis
    proof (cases "node_type right2 = BSP_NODE_LEAF")
      case True
      with fin \<open>node_enabled right2\<close> show ?thesis using relayout_leaf_configure by simp
    next
      case False
      with fin \<open>node_enabled right2\<close> show ?thesis using Suc.IH by simp
    qed
  qed
  from relayout_trans[OF relayout_trans[OF r01 r12] r2'] show ?case .
qed

lemma relayout_update_root:
  assumes "bsp_update_root fuel s workspace = Some s'"
  shows "relayout s s'"
proof -
  from assms obtain e where e: "bsp_entry_get s workspace = Some e"
    by (auto simp: bsp_update_root_def split: bind_splits)
  show ?thesis
  proof (cases e)
    case None
    with assms e show ?thesis by (simp add: bsp_update_root_def)
  next
    case (Some entry)
    with assms e obtain rp rn where
      a: "root entry = Some rp" "bsp_nodes s rp = Some rn"
      by (auto simp: bsp_update_root_def split: bind_splits)
    show ?thesis
    proof (cases "node_type rn = BSP_NODE_LEAF")
      case True
      with assms e Some a show ?thesis
        using relayout_leaf_configure by (simp add: bsp_update_root_def Let_def)
    next
      case False
      with assms e Some a have
        "bsp_update_node fuel (s\<lparr>bsp_nodes := (bsp_nodes s)(rp \<mapsto>
            bsp_node_set_position (bsp_node_set_size rn (box_width (usable_area s))
               (box_height (usable_area s))) (box_x (usable_area s)) (box_y (usable_area s)))\<rparr>) rp
         = Some s'" by (simp add: bsp_update_root_def Let_def)
      from relayout_update_node[OF this] relayout_nodes[of s] show ?thesis
        by (rule relayout_trans[rotated])
    qed
  qed
qed

lemma enable_rec_nodes:
  "bsp_node_enable_rec fuel s np = Some (s', rp) \<Longrightarrow> \<exists>N. s' = s\<lparr>bsp_nodes := N\<rparr>"
proof (induction fuel arbitrary: s np)
  case 0
  then show ?case by simp
next
  case (Suc fuel)
  from Suc.prems obtain node where n: "bsp_nodes s np = Some node" by (auto split: bind_splits)
  show ?case
  proof (cases "node_parent node")
    case None
    with Suc.prems n show ?thesis by (auto simp: Let_def)
  next
    case (Some pp)
    with Suc.prems n have "bsp_node_enable_rec fuel
        (s\<lparr>bsp_nodes := (bsp_nodes s)(np \<mapsto> node\<lparr>node_enabled := True\<rparr>)\<rparr>) pp = Some (s', rp)"
      by (simp add: Let_def)
    from Suc.IH[OF this] show ?thesis by auto
  qed
qed

lemma disable_rec_nodes:
  "bsp_node_disable_rec fuel s np = Some (s', lu) \<Longrightarrow> \<exists>N. s' = s\<lparr>bsp_nodes := N\<rparr>"
proof (induction fuel arbitrary: s np)
  case 0
  then show ?case by simp
next
  case (Suc fuel)
  from Suc.prems obtain node where n: "bsp_nodes s np = Some node" by (auto split: bind_splits)
  define s1 where "s1 = s\<lparr>bsp_nodes := (bsp_nodes s)(np \<mapsto> node\<lparr>node_enabled := False\<rparr>)\<rparr>"
  show ?case
  proof (cases "node_parent node")
    case None
    with Suc.prems n show ?thesis by (auto simp: Let_def)
  next
    case (Some pp)
    with Suc.prems n have "s' = s1 \<or> bsp_node_disable_rec fuel s1 pp = Some (s', lu)"
      unfolding s1_def by (auto simp: Let_def split: bind_splits if_splits)
    then show ?thesis using Suc.IH[of s1 pp] unfolding s1_def by auto
  qed
qed

lemma relayout_enable:
  assumes "bsp_node_enable fuel s np = Some s'"
  shows "relayout s s'"
proof -
  from assms obtain s1 rp rn where
    a: "bsp_node_enable_rec fuel s np = Some (s1, rp)" "bsp_nodes s1 rp = Some rn"
    by (auto simp: bsp_node_enable_def split: bind_splits)
  from enable_rec_nodes[OF a(1)] have r1: "relayout s s1" using relayout_nodes by auto
  have "relayout s1 s'"
    using assms a relayout_update_node relayout_update_root
    by (auto simp: bsp_node_enable_def split: bind_splits if_splits)
  with r1 show ?thesis by (rule relayout_trans)
qed

lemma relayout_disable:
  assumes "bsp_node_disable fuel s np = Some s'"
  shows "relayout s s'"
proof -
  from assms obtain s1 lu last_updated where
    a: "bsp_node_disable_rec fuel s np = Some (s1, lu)" "bsp_nodes s1 lu = Some last_updated"
    by (auto simp: bsp_node_disable_def split: bind_splits)
  from disable_rec_nodes[OF a(1)] have r1: "relayout s s1" using relayout_nodes by auto
  have "relayout s1 s'"
    using assms a relayout_update_node relayout_update_root
    by (auto simp: bsp_node_disable_def split: bind_splits if_splits)
  with r1 show ?thesis by (rule relayout_trans)
qed

text \<open>
  The master layout configures the containers of tileable toplevels only.
  \<open>tileable_entry s x\<close>: the array entry \<open>x\<close> is \<open>NULL\<close> or a tileable toplevel.
\<close>

definition tileable_entry :: "cwc_state \<Rightarrow> addr option \<Rightarrow> bool" where
  "tileable_entry s x \<longleftrightarrow> x = None \<or> cwc_toplevel_is_tileable s x = Some True"

lemma relayout_toplevel:
  assumes "relayout s s'"
  shows "map_option toplevel_skel (toplevels s' tp) = map_option toplevel_skel (toplevels s tp)"
  using assms by (simp add: relayout_def same_toplevels_def)

lemma visible_cong:
  "cont_skel c' = cont_skel c \<Longrightarrow> active_workspace s' = active_workspace s \<Longrightarrow> active_tag s' = active_tag s
   \<Longrightarrow> cwc_container_is_visible s' c' = cwc_container_is_visible s c"
  using cont_skel_fields(1,2,3)[of c' c]
  by (simp add: cwc_container_is_visible_def cwc_container_is_sticky_def cwc_container_is_minimized_def)

lemma relayout_tileable:
  assumes "relayout s s'"
  shows "cwc_toplevel_is_tileable s' x = cwc_toplevel_is_tileable s x"
proof (cases x)
  case None
  then show ?thesis by (simp add: cwc_toplevel_is_tileable_def)
next
  case (Some tp)
  note tl = relayout_toplevel[OF assms, of tp]
  show ?thesis
  proof (cases "toplevels s tp")
    case None
    with tl have "toplevels s' tp = None" by simp
    with None Some show ?thesis by (simp add: cwc_toplevel_is_tileable_def)
  next
    case t: (Some t)
    with tl obtain t' where t': "toplevels s' tp = Some t'" "toplevel_skel t' = toplevel_skel t"
      by auto
    note tf = toplevel_skel_fields[OF t'(2)]
    show ?thesis
    proof (cases "toplevel_container t")
      case None
      with t t' tf Some show ?thesis by (simp add: cwc_toplevel_is_tileable_def)
    next
      case cp: (Some cp)
      show ?thesis
      proof (cases "containers s cp")
        case None
        with assms have "containers s' cp = None"
          by (auto simp: relayout_def dest!: spec[of _ cp])
        with None t t' tf Some cp show ?thesis by (simp add: cwc_toplevel_is_tileable_def)
      next
        case c: (Some c)
        from relayout_container[OF assms c] obtain c' where
          c': "containers s' cp = Some c'" "cont_skel c' = cont_skel c" by blast
        note cf = cont_skel_fields[OF c'(2)]
        note sf = relayout_fields[OF assms]
        have 1: "cwc_container_is_visible s' c' = cwc_container_is_visible s c"
          using visible_cong[OF c'(2)] sf by simp
        have 2: "cwc_container_get_front_toplevel c' = cwc_container_get_front_toplevel c"
          using cf by (simp add: cwc_container_get_front_toplevel_def)
        have 3: "cwc_container_is_floating s' c' = cwc_container_is_floating s c"
          using is_floating_cong[of c' c s' s] cf sf by simp
        have 4: "cwc_container_is_fullscreen c' = cwc_container_is_fullscreen c"
          "cwc_container_is_maximized c' = cwc_container_is_maximized c"
          using cf by (simp_all add: cwc_container_is_fullscreen_def cwc_container_is_maximized_def)
        have 5: "cwc_toplevel_is_unmanaged t' = cwc_toplevel_is_unmanaged t"
          using tf by (simp add: cwc_toplevel_is_unmanaged_def)
        show ?thesis using Some t t' cp c c' tf(3) 1 2 3 4 5
          by (simp add: cwc_toplevel_is_tileable_def)
      qed
    qed
  qed
qed

lemma relayout_tileable_entry: "relayout s s' \<Longrightarrow> tileable_entry s' x = tileable_entry s x"
  by (simp add: tileable_entry_def relayout_tileable)

lemma tileable_target:
  assumes "cwc_toplevel_is_tileable s (Some tp) = Some True"
  shows "\<exists>t cp c. toplevels s tp = Some t \<and> toplevel_container t = Some cp
           \<and> containers s cp = Some c \<and> \<not> pinned s c"
proof -
  from assms obtain t cp c where
    a: "toplevels s tp = Some t" "toplevel_container t = Some cp" "containers s cp = Some c"
    by (auto simp: cwc_toplevel_is_tileable_def split: bind_splits)
  with assms have "\<not> pinned s c"
    by (auto simp: cwc_toplevel_is_tileable_def pinned_def cwc_container_is_configure_allowed_def
          split: bind_splits if_splits)
  with a show ?thesis by blast
qed

lemma tileable_container_at:
  assumes "\<forall>x \<in> set tls. tileable_entry s x" "toplevel_container_at s tls i = Some cp"
  shows "\<exists>c. containers s cp = Some c \<and> \<not> pinned s c"
proof -
  from assms(2) obtain tp t where
    a: "array_read tls i = Some (Some tp)" "toplevels s tp = Some t" "toplevel_container t = Some cp"
    by (auto simp: toplevel_container_at_def split: bind_splits)
  then have "nat i < length tls" "tls ! nat i = Some tp"
    by (auto simp: array_read_def split: if_splits)
  then have "Some tp \<in> set tls" using nth_mem by metis
  with assms(1) have "cwc_toplevel_is_tileable s (Some tp) = Some True"
    by (auto simp: tileable_entry_def)
  from tileable_target[OF this] a show ?thesis by auto
qed

lemma relayout_place_at:
  assumes "\<forall>x \<in> set tls. tileable_entry s x" "toplevel_container_at s tls i = Some cp"
    and "cwc_container_set_size s cp w h = Some s1"
    and "cwc_container_set_position_gap s1 cp x y = Some s2"
  shows "relayout s s2" "\<forall>x \<in> set tls. tileable_entry s2 x"
proof -
  from tileable_container_at[OF assms(1,2)] obtain c where
    c: "containers s cp = Some c" "\<not> pinned s c" by blast
  show r: "relayout s s2" using relayout_place[OF assms(3,4) c] .
  show "\<forall>x \<in> set tls. tileable_entry s2 x"
    using assms(1) relayout_tileable_entry[OF r] by simp
qed

lemma relayout_place_at_rev:
  assumes "\<forall>x \<in> set tls. tileable_entry s x" "toplevel_container_at s tls i = Some cp"
    and "cwc_container_set_position_gap s cp x y = Some s1"
    and "cwc_container_set_size s1 cp w h = Some s2"
  shows "relayout s s2" "\<forall>x \<in> set tls. tileable_entry s2 x"
proof -
  from tileable_container_at[OF assms(1,2)] obtain c where
    c: "containers s cp = Some c" "\<not> pinned s c" by blast
  from assms(3) obtain x' y' where p: "cwc_container_set_position s cp x' y' = Some s1"
    by (auto simp: cwc_container_set_position_gap_def Let_def split: bind_splits)
  have r1: "relayout s s1" using relayout_set_position[OF p c] .
  from relayout_container[OF r1 c(1)] obtain c1 where
    c1: "containers s1 cp = Some c1" "cont_skel c1 = cont_skel c" by blast
  have np: "\<not> pinned s1 c1"
    using c(2) pinned_cong[of c1 c s1 s] cont_skel_fields(1)[OF c1(2)] relayout_fields(5,6)[OF r1]
    by simp
  show r: "relayout s s2" using relayout_trans[OF r1 relayout_set_size[OF assms(4) c1(1) np]] .
  show "\<forall>x \<in> set tls. tileable_entry s2 x"
    using assms(1) relayout_tileable_entry[OF r] by simp
qed

lemma relayout_tile_rows:
  "arrange_tile_rows s tls len sw sh mw i hu = Some (s', hu') \<Longrightarrow>
   \<forall>x \<in> set tls. tileable_entry s x \<Longrightarrow> relayout s s'"
proof (induction s tls len sw sh mw i hu rule: arrange_tile_rows.induct)
  case (1 s tls len sw sh mw i hu)
  show ?case
  proof (cases "i < len - 1")
    case False
    with "1.prems"(1) show ?thesis by (subst (asm) arrange_tile_rows.simps) simp
  next
    case True
    with "1.prems"(1) obtain cp s1 s2 where
      a: "toplevel_container_at s tls i = Some cp"
         "cwc_container_set_size s cp sw sh = Some s1"
         "cwc_container_set_position_gap s1 cp mw (hu + box_y (usable_area s)) = Some s2"
         "arrange_tile_rows s2 tls len sw sh mw (i + 1) (hu + sh) = Some (s', hu')"
      by (subst (asm) arrange_tile_rows.simps) (auto split: bind_splits)
    note r = relayout_place_at[OF "1.prems"(2) a(1,2,3)]
    from "1.IH"[OF True a(1,2,3,4) r(2)] r(1) show ?thesis by (rule relayout_trans[rotated])
  qed
qed

lemma relayout_arrange_tile:
  assumes "arrange_tile s tls len ms = Some s'" "\<forall>x \<in> set tls. tileable_entry s x"
  shows "relayout s s'"
proof (cases "len = 1")
  case True
  with assms(1) obtain cp s1 where
    a: "toplevel_container_at s tls 0 = Some cp"
       "cwc_container_set_size s cp (box_width (usable_area s)) (box_height (usable_area s)) = Some s1"
       "cwc_container_set_position_gap s1 cp (box_x (usable_area s)) (box_y (usable_area s)) = Some s'"
    by (auto simp: arrange_tile_def Let_def split: bind_splits)
  from relayout_place_at(1)[OF assms(2) a] show ?thesis .
next
  case False
  define ua where "ua = usable_area s"
  from False assms(1) obtain mw cp s1 s2 sec_height s3 height_used cpl s4 where
    a: "toplevel_container_at s tls 0 = Some cp"
       "cwc_container_set_size s cp mw (box_height ua) = Some s1"
       "cwc_container_set_position_gap s1 cp (box_x ua) (box_y ua) = Some s2" and
    b: "arrange_tile_rows s2 tls len (box_width ua - mw) sec_height mw 1 0 = Some (s3, height_used)" and
    c: "toplevel_container_at s3 tls (len - 1) = Some cpl"
       "cwc_container_set_size s3 cpl (box_width ua - mw) (box_height ua - height_used) = Some s4"
       "cwc_container_set_position_gap s4 cpl mw (height_used + box_y ua) = Some s'"
    unfolding ua_def
    by (auto simp: arrange_tile_def Let_def split: bind_splits if_splits)
  note r1 = relayout_place_at[OF assms(2) a]
  have r2: "relayout s2 s3" using relayout_tile_rows[OF b r1(2)] .
  have t3: "\<forall>x \<in> set tls. tileable_entry s3 x" using r1(2) relayout_tileable_entry[OF r2] by simp
  note r3 = relayout_place_at[OF t3 c]
  show ?thesis using relayout_trans[OF relayout_trans[OF r1(1) r2] r3(1)] .
qed

lemma relayout_monocle_loop:
  "arrange_monocle_loop s tls i = Some s' \<Longrightarrow>
   \<forall>x \<in> set tls. tileable_entry s x \<Longrightarrow> relayout s s'"
proof (induction s tls i rule: arrange_monocle_loop.induct)
  case (1 s tls i)
  from "1.prems"(1) obtain toplevel where t: "array_read tls i = Some toplevel"
    by (subst (asm) arrange_monocle_loop.simps) (auto split: bind_splits)
  show ?case
  proof (cases toplevel)
    case None
    with "1.prems"(1) t show ?thesis by (subst (asm) arrange_monocle_loop.simps) simp
  next
    case (Some tp)
    with "1.prems"(1) t obtain cp s1 s2 where
      a: "toplevel_container_at s tls i = Some cp"
         "cwc_container_set_position_gap s cp (box_x (usable_area s)) (box_y (usable_area s)) = Some s1"
         "cwc_container_set_size s1 cp (box_width (usable_area s1)) (box_height (usable_area s1)) = Some s2"
         "arrange_monocle_loop s2 tls (i + 1) = Some s'"
      by (subst (asm) arrange_monocle_loop.simps) (auto split: bind_splits)
    note r = relayout_place_at_rev[OF "1.prems"(2) a(1,2,3)]
    from "1.IH"[OF t Some a(1,2,3,4) r(2)] r(1) show ?thesis by (rule relayout_trans[rotated])
  qed
qed

lemma master_collect_tileable:
  "master_collect s cps tv i = Some (tv', n) \<Longrightarrow> \<forall>x \<in> set tv. tileable_entry s x
   \<Longrightarrow> \<forall>x \<in> set tv'. tileable_entry s x"
proof (induction cps arbitrary: tv i)
  case Nil
  then show ?case by simp
next
  case (Cons cp cps)
  from Cons.prems(1) obtain container where c: "containers s cp = Some container"
    by (cases "containers s cp") auto
  define front where "front = cwc_container_get_front_toplevel container"
  from Cons.prems(1) c obtain tileable where t: "cwc_toplevel_is_tileable s front = Some tileable"
    unfolding front_def
    by (cases "cwc_toplevel_is_tileable s (cwc_container_get_front_toplevel container)")
       (auto simp: Let_def)
  show ?case
  proof (cases tileable)
    case False
    with Cons.prems(1) c t have
      "(if i > 49 then Some (tv, i) else master_collect s cps tv i) = Some (tv', n)"
      by (simp add: Let_def front_def)
    then show ?thesis using Cons.IH[of tv i] Cons.prems(2) by (auto split: if_splits)
  next
    case True
    with Cons.prems(1) c t obtain tv1 where
      w: "array_write tv i front = Some tv1" and
      r: "(if i + 1 > 49 then Some (tv1, i + 1) else master_collect s cps tv1 (i + 1)) = Some (tv', n)"
      by (cases "array_write tv i front") (auto simp: Let_def front_def)
    from w have "tv1 = tv[nat i := front]"
      by (auto simp: array_write_def split: if_splits)
    moreover have "tileable_entry s front" using t True by (simp add: tileable_entry_def)
    ultimately have t1: "\<forall>x \<in> set tv1. tileable_entry s x" using Cons.prems(2)
      by (auto dest!: set_update_subset_insert[THEN subsetD])
    show ?thesis using r Cons.IH[of tv1 "i + 1"] t1 by (auto split: if_splits)
  qed
qed

lemma relayout_master_arrange_update:
  assumes "master_arrange_update s = Some s'"
  shows "relayout s s'"
proof -
  from assms obtain info where info: "cwc_output_get_current_view_info s = Some info"
    by (auto simp: master_arrange_update_def split: bind_splits)
  show ?thesis
  proof (cases "layout_mode info \<noteq> CWC_LAYOUT_MASTER")
    case True
    with assms info show ?thesis by (simp add: master_arrange_update_def)
  next
    case False
    with assms info obtain tv i where
      c: "master_collect s (output_containers s) (replicate 50 None) 0 = Some (tv, i)"
      by (auto simp: master_arrange_update_def split: bind_splits)
    have "\<forall>x \<in> set (replicate 50 None). tileable_entry s x" by (simp add: tileable_entry_def)
    from master_collect_tileable[OF c this] have t: "\<forall>x \<in> set tv. tileable_entry s x" .
    show ?thesis
    proof (cases "i \<ge> 1")
      case False
      with assms info c \<open>\<not> layout_mode info \<noteq> CWC_LAYOUT_MASTER\<close> show ?thesis
        by (simp add: master_arrange_update_def)
    next
      case True
      show ?thesis
      proof (cases "current_layout (master info)")
        case LAYOUT_TILE
        with assms info c True \<open>\<not> layout_mode info \<noteq> CWC_LAYOUT_MASTER\<close>
        have "arrange_tile s tv i (master info) = Some s'"
          by (simp add: master_arrange_update_def)
        from relayout_arrange_tile[OF this t] show ?thesis .
      next
        case LAYOUT_MONOCLE
        with assms info c True \<open>\<not> layout_mode info \<noteq> CWC_LAYOUT_MASTER\<close>
        have "arrange_monocle_loop s tv 0 = Some s'"
          by (simp add: master_arrange_update_def arrange_monocle_def)
        from relayout_monocle_loop[OF this t] show ?thesis .
      qed
    qed
  qed
qed

lemma relayout_tiling_layout_update:
  assumes "cwc_output_tiling_layout_update fuel s view = Some s'"
  shows "relayout s s'"
proof -
  from assms obtain info where info: "cwc_output_get_current_view_info s = Some info"
    by (auto simp: cwc_output_tiling_layout_update_def split: bind_splits)
  show ?thesis
    using assms info relayout_update_root relayout_master_arrange_update
    by (cases "layout_mode info") (auto simp: cwc_output_tiling_layout_update_def Let_def)
qed

section \<open>How the operations change the state bits\<close>

text \<open>
  \<open>state_change s s' cp F\<close>: from \<open>s\<close> to \<open>s'\<close> the state bits of container \<open>cp\<close> have become
  \<open>F\<close> of what they were, no other container's bits have changed, and no container has
  appeared or disappeared.
\<close>

definition state_change :: "cwc_state \<Rightarrow> cwc_state \<Rightarrow> addr \<Rightarrow> (32 word \<Rightarrow> 32 word) \<Rightarrow> bool" where
  "state_change s s' cp F \<longleftrightarrow> states_of s' = (states_of s)(cp := map_option F (states_of s cp))"

lemma state_change_kept: "states_of s' = states_of s \<Longrightarrow> state_change s s' cp id"
  by (simp add: state_change_def option.map_id)

lemma state_change_trans:
  "state_change s s1 cp F \<Longrightarrow> state_change s1 s2 cp G \<Longrightarrow> state_change s s2 cp (G \<circ> F)"
  by (simp add: state_change_def option.map_comp)

lemma state_change_before:
  "states_of s1 = states_of s \<Longrightarrow> state_change s1 s2 cp F \<Longrightarrow> state_change s s2 cp F"
  by (simp add: state_change_def)

lemma state_change_after:
  "state_change s s1 cp F \<Longrightarrow> states_of s2 = states_of s1 \<Longrightarrow> state_change s s2 cp F"
  by (simp add: state_change_def)

lemma set_state_result:
  "set_state s cp f = Some s' \<Longrightarrow>
   \<exists>c. containers s cp = Some c
      \<and> s' = s\<lparr>containers := (containers s)(cp \<mapsto> c\<lparr>cont_state := f (cont_state c)\<rparr>)\<rparr>"
  by (auto simp: set_state_def split: bind_splits)

lemma set_state_change: "set_state s cp f = Some s' \<Longrightarrow> state_change s s' cp f"
  by (drule set_state_result) (auto simp: state_change_def states_of_def)

lemma optional_disable_relayout:
  "(case bsp_node of None \<Rightarrow> Some s | Some np \<Rightarrow> bsp_node_disable fuel s np) = Some s'
   \<Longrightarrow> relayout s s'"
  by (cases bsp_node) (auto intro: relayout_disable)

lemma optional_enable_relayout:
  "(case bsp_node of None \<Rightarrow> Some s | Some np \<Rightarrow> bsp_node_enable fuel s np) = Some s'
   \<Longrightarrow> relayout s s'"
  by (cases bsp_node) (auto intro: relayout_enable)

lemma restore_floating_box_same_structure:
  assumes "cwc_container_restore_floating_box s cp = Some s'"
  shows "same_structure s s'"
proof -
  from assms obtain c s1 c1 where
    a: "cwc_container_set_position s cp (box_x (floating_box c)) (box_y (floating_box c)) = Some s1"
       "cwc_container_set_size s1 cp (box_width (floating_box c1)) (box_height (floating_box c1)) = Some s'"
       and "containers s cp = Some c" "containers s1 cp = Some c1"
    by (auto simp: cwc_container_restore_floating_box_def split: bind_splits)
  from same_structure_trans[OF set_position_same_structure(1)[OF a(1)] set_size_same_structure(1)[OF a(2)]]
  show ?thesis .
qed

lemma toplevel_set_size_surface_same_structure:
  "cwc_toplevel_set_size_surface s tp w h = Some s' \<Longrightarrow> same_structure s s'"
  by (auto simp: cwc_toplevel_set_size_surface_def Let_def split: bind_splits
      intro: set_size_same_structure(1))

lemma toplevel_set_position_same_structure:
  "cwc_toplevel_set_position s tp x y = Some s' \<Longrightarrow> same_structure s s'"
  by (auto simp: cwc_toplevel_set_position_def Let_def split: bind_splits
      intro: set_position_same_structure(1))

lemma all_toplevel_set_fullscreen_same_structure:
  assumes "all_toplevel_set_fullscreen on s tp = Some s'"
  shows "same_structure s s'"
proof (cases on)
  case False
  with assms show ?thesis by (auto simp: all_toplevel_set_fullscreen_def split: bind_splits)
next
  case True
  with assms obtain s1 where
    "cwc_toplevel_set_size_surface s tp (output_width s) (output_height s) = Some s1"
    "cwc_toplevel_set_position s1 tp 0 0 = Some s'"
    by (auto simp: all_toplevel_set_fullscreen_def split: bind_splits)
  then show ?thesis
    using same_structure_trans toplevel_set_size_surface_same_structure
      toplevel_set_position_same_structure by blast
qed

lemma all_toplevel_set_maximized_same_structure:
  assumes "all_toplevel_set_maximized on s tp = Some s'"
  shows "same_structure s s'"
proof (cases on)
  case False
  with assms show ?thesis by (auto simp: all_toplevel_set_maximized_def split: bind_splits)
next
  case True
  with assms obtain s1 where
    "cwc_toplevel_set_size_surface s tp (box_width (usable_area s)) (box_height (usable_area s)) = Some s1"
    "cwc_toplevel_set_position s1 tp (box_x (usable_area s)) (box_y (usable_area s)) = Some s'"
    by (auto simp: all_toplevel_set_maximized_def Let_def split: bind_splits)
  then show ?thesis
    using same_structure_trans toplevel_set_size_surface_same_structure
      toplevel_set_position_same_structure by blast
qed

lemma all_toplevel_set_minimized_same: "all_toplevel_set_minimized on s tp = Some s' \<Longrightarrow> s' = s"
  by (auto simp: all_toplevel_set_minimized_def split: bind_splits)

lemma for_each_toplevel_same_structure:
  assumes "\<And>s tp s'. f s tp = Some s' \<Longrightarrow> same_structure s s'"
  shows "for_each_toplevel f s tps = Some s' \<Longrightarrow> same_structure s s'"
proof (induction tps arbitrary: s)
  case Nil
  then show ?case by simp
next
  case (Cons tp tps)
  from Cons.prems obtain s1 where a: "f s tp = Some s1" "for_each_toplevel f s1 tps = Some s'"
    by (auto split: bind_splits)
  from same_structure_trans[OF assms[OF a(1)] Cons.IH[OF a(2)]] show ?case .
qed

lemma container_for_each_same_structure:
  assumes "\<And>s tp s'. f s tp = Some s' \<Longrightarrow> same_structure s s'"
    and "cwc_container_for_each_toplevel f s cp = Some s'"
  shows "same_structure s s'"
  using assms(2) for_each_toplevel_same_structure[of f, OF assms(1)]
  by (auto simp: cwc_container_for_each_toplevel_def split: bind_splits)

lemma border_update_states:
  "containers s cp = Some c \<Longrightarrow>
   states_of (s\<lparr>containers := (containers s)(cp \<mapsto> c\<lparr>border := b\<rparr>)\<rparr>) = states_of s"
  by (auto simp: states_of_def)

lemma set_fullscreen_change:
  assumes "cwc_container_set_fullscreen fuel s cp on = Some s'"
  shows "state_change s s' cp
           (if on then (\<lambda>st. (st OR CONTAINER_STATE_FULLSCREEN) AND NOT CONTAINER_STATE_MAXIMIZED)
            else (\<lambda>st. st AND NOT CONTAINER_STATE_FULLSCREEN))"
proof -
  let ?F = "if on then (\<lambda>st. (st OR CONTAINER_STATE_FULLSCREEN) AND NOT CONTAINER_STATE_MAXIMIZED)
            else (\<lambda>st. st AND NOT CONTAINER_STATE_FULLSCREEN)"
  from assms obtain c where c: "containers s cp = Some c"
    by (cases "containers s cp") (auto simp: cwc_container_set_fullscreen_def)
  define step1 where "step1 = (if on then do {
               s0 \<leftarrow> set_state s cp (\<lambda>st. (st OR CONTAINER_STATE_FULLSCREEN)
                                              AND NOT CONTAINER_STATE_MAXIMIZED);
               case cont_bsp_node c of None \<Rightarrow> Some s0 | Some np \<Rightarrow> bsp_node_disable fuel s0 np
             } else do {
               s0 \<leftarrow> set_state s cp (\<lambda>st. st AND NOT CONTAINER_STATE_FULLSCREEN);
               c0 \<leftarrow> containers s0 cp;
               fl \<leftarrow> cwc_container_is_floating s0 c0;
               if fl then cwc_container_restore_floating_box s0 cp
               else (case cont_bsp_node c of None \<Rightarrow> Some s0 | Some np \<Rightarrow> bsp_node_enable fuel s0 np)
             })"
  from assms c obtain s1 where s1: "step1 = Some s1"
    unfolding step1_def by (cases step1) (auto simp: cwc_container_set_fullscreen_def Let_def step1_def)
  from assms c s1 obtain s2 where
    s2: "cwc_container_for_each_toplevel (all_toplevel_set_fullscreen on) s1 cp = Some s2"
    by (cases "cwc_container_for_each_toplevel (all_toplevel_set_fullscreen on) s1 cp")
       (auto simp: cwc_container_set_fullscreen_def Let_def step1_def)
  from assms c s1 s2 obtain c2 where c2: "containers s2 cp = Some c2"
    by (cases "containers s2 cp") (auto simp: cwc_container_set_fullscreen_def Let_def step1_def)
  from assms c s1 s2 c2 obtain b where
    m: "master_arrange_update (s2\<lparr>containers := (containers s2)(cp \<mapsto> c2\<lparr>border := b\<rparr>)\<rparr>) = Some s'"
    by (auto simp: cwc_container_set_fullscreen_def Let_def step1_def)
  have 1: "state_change s s1 cp ?F"
  proof (cases on)
    case True
    with s1 obtain s0 where
      a: "set_state s cp (\<lambda>st. (st OR CONTAINER_STATE_FULLSCREEN) AND NOT CONTAINER_STATE_MAXIMIZED) = Some s0"
         "(case cont_bsp_node c of None \<Rightarrow> Some s0 | Some np \<Rightarrow> bsp_node_disable fuel s0 np) = Some s1"
      unfolding step1_def by (auto split: bind_splits)
    from state_change_after[OF set_state_change[OF a(1)] relayout_states[OF optional_disable_relayout[OF a(2)]]]
    show ?thesis using True by simp
  next
    case False
    with s1 obtain s0 c0 fl where
      a: "set_state s cp (\<lambda>st. st AND NOT CONTAINER_STATE_FULLSCREEN) = Some s0"
         "(if fl then cwc_container_restore_floating_box s0 cp
           else (case cont_bsp_node c of None \<Rightarrow> Some s0 | Some np \<Rightarrow> bsp_node_enable fuel s0 np)) = Some s1"
      unfolding step1_def by (auto split: bind_splits)
    have "states_of s1 = states_of s0"
      using a(2) same_structure_states[OF restore_floating_box_same_structure]
        relayout_states[OF optional_enable_relayout]
      by (cases fl) auto
    from state_change_after[OF set_state_change[OF a(1)] this] show ?thesis using False by simp
  qed
  have 2: "states_of s2 = states_of s1"
    using same_structure_states[OF container_for_each_same_structure[OF _ s2]]
      all_toplevel_set_fullscreen_same_structure by blast
  have 3: "states_of s' = states_of s2"
    using relayout_states[OF relayout_master_arrange_update[OF m]] border_update_states[OF c2] by simp
  from state_change_after[OF state_change_after[OF 1 2] 3] show ?thesis .
qed

lemma states_of_upd [simp]:
  "states_of (s\<lparr>bsp_nodes := N\<rparr>) = states_of s"
  "states_of (s\<lparr>next_node := n\<rparr>) = states_of s"
  "states_of (s\<lparr>view_info := v\<rparr>) = states_of s"
  "states_of (s\<lparr>toplevels := T\<rparr>) = states_of s"
  "states_of (s\<lparr>output_containers := cs\<rparr>) = states_of s"
  "states_of (set_bsp_entry s w e) = states_of s"
  "states_of (fst (bsp_node_leaf_create s parent cp)) = states_of s"
  "states_of (fst (bsp_node_internal_create s parent x y w h split)) = states_of s"
  by (auto simp: states_of_def set_bsp_entry_def bsp_node_leaf_create_def bsp_node_internal_create_def)

lemma states_of_bsp_node_upd:
  "containers s cp = Some c \<Longrightarrow>
   states_of (s\<lparr>containers := (containers s)(cp \<mapsto> c\<lparr>cont_bsp_node := n\<rparr>)\<rparr>) = states_of s"
  by (auto simp: states_of_def)

lemma states_of_tag_upd:
  "containers s cp = Some c \<Longrightarrow>
   states_of (s\<lparr>containers := (containers s)(cp \<mapsto> c\<lparr>cont_tag := t, cont_workspace := w\<rparr>)\<rparr>) = states_of s"
  by (auto simp: states_of_def)

lemma containers_upd [simp]:
  "containers (set_bsp_entry s w e) = containers s"
  "containers (fst (bsp_node_leaf_create s parent cp)) = containers s"
  "containers (fst (bsp_node_internal_create s parent x y w h split)) = containers s"
  by (auto simp: set_bsp_entry_def bsp_node_leaf_create_def bsp_node_internal_create_def)

lemma bsp_insert_toplevel_states:
  assumes "bsp_insert_toplevel fuel s workspace sibling new = Some s'"
  shows "states_of s' = states_of s"
proof -
  from assms obtain sib lp left where
    a: "containers s sibling = Some sib" "cont_bsp_node sib = Some lp" "bsp_nodes s lp = Some left"
    by (auto simp: bsp_insert_toplevel_def split: bind_splits)
  define split where "split = (if node_width left \<ge> node_height left
                  then BSP_SPLIT_VERTICAL else BSP_SPLIT_HORIZONTAL)"
  define s1 where "s1 = fst (bsp_node_internal_create s (node_parent left)
                      (node_x left) (node_y left) (node_width left) (node_height left) split)"
  define pp where "pp = snd (bsp_node_internal_create s (node_parent left)
                      (node_x left) (node_y left) (node_width left) (node_height left) split)"
  from assms a obtain info parent_node newc where
    b: "view_info_at s1 workspace = Some info" "bsp_nodes s1 pp = Some parent_node"
       "containers s1 new = Some newc"
    unfolding s1_def pp_def split_def
    by (auto simp: bsp_insert_toplevel_def Let_def case_prod_beta split: bind_splits)
  define s2 where "s2 = (if Some lp = root (bsp_entry info)
               then set_bsp_entry
                      (s1\<lparr>bsp_nodes := (bsp_nodes s1)(pp \<mapsto>
                           parent_node\<lparr>node_x := box_x (usable_area s1),
                                       node_y := box_y (usable_area s1),
                                       node_width := box_width (usable_area s1),
                                       node_height := box_height (usable_area s1),
                                       left_wfact := 0.5\<rparr>)\<rparr>)
                      workspace ((bsp_entry info)\<lparr>root := Some pp\<rparr>)
               else s1)"
  define s3 where "s3 = fst (bsp_node_leaf_create s2 (Some pp) new)"
  define rp where "rp = snd (bsp_node_leaf_create s2 (Some pp) new)"
  define s4 where "s4 = s3\<lparr>containers := (containers s3)(new \<mapsto> newc\<lparr>cont_bsp_node := Some rp\<rparr>)\<rparr>"
  have c3: "containers s3 new = Some newc"
    using b(3) unfolding s3_def s2_def by simp
  have st4: "states_of s4 = states_of s"
    unfolding s4_def using states_of_bsp_node_upd[OF c3]
    by (simp add: s3_def s2_def s1_def)
  from assms a b obtain s7 where
    e: "bsp_node_enable fuel s7 rp = Some s'" and "\<exists>N. s7 = s4\<lparr>bsp_nodes := N\<rparr>"
    unfolding s4_def s3_def rp_def s2_def s1_def pp_def split_def
    by (auto simp: bsp_insert_toplevel_def Let_def case_prod_beta split: bind_splits option.splits if_splits)
  then have "states_of s7 = states_of s4" by auto
  with relayout_states[OF relayout_enable[OF e]] st4 show ?thesis by simp
qed

lemma bsp_insert_container_change:
  assumes "bsp_insert_container fuel s new workspace = Some s'"
  shows "state_change s s' new (\<lambda>st. st AND NOT CONTAINER_STATE_FLOATING)"
proof -
  from assms obtain e newc where
    a: "bsp_entry_get s workspace = Some e" "containers s new = Some newc" "cont_bsp_node newc = None"
    by (auto simp: bsp_insert_container_def split: bind_splits if_splits)
  define s1 where "s1 = s\<lparr>containers := (containers s)(new \<mapsto>
                    newc\<lparr>cont_state := cont_state newc AND NOT CONTAINER_STATE_FLOATING\<rparr>)\<rparr>"
  have 1: "state_change s s1 new (\<lambda>st. st AND NOT CONTAINER_STATE_FLOATING)"
    using a(2) unfolding s1_def by (auto simp: state_change_def states_of_def)
  from assms a obtain s2 where
    s2: "(case e of
                None \<Rightarrow> do {
                  let (s', np) = bsp_node_leaf_create s1 None new;
                  newc' \<leftarrow> containers s' new;
                  let s'' = s'\<lparr>containers := (containers s')(new \<mapsto>
                                 newc'\<lparr>cont_bsp_node := Some np\<rparr>)\<rparr>;
                  s3 \<leftarrow> bsp_entry_init s'' workspace np;
                  bsp_update_root fuel s3 (cont_workspace newc')
                }
              | Some entry \<Rightarrow> do {
                  sibling \<leftarrow> last_focused entry;
                  bsp_insert_toplevel fuel s1 workspace sibling new
                }) = Some s2" and
    s': "\<exists>w en. s' = set_bsp_entry s2 w en"
    unfolding s1_def
    by (auto simp: bsp_insert_container_def Let_def split: bind_splits)
  have 2: "states_of s2 = states_of s1"
  proof (cases e)
    case (Some entry)
    with s2 show ?thesis using bsp_insert_toplevel_states by (auto split: bind_splits)
  next
    case None
    define sa where "sa = fst (bsp_node_leaf_create s1 None new)"
    define np where "np = snd (bsp_node_leaf_create s1 None new)"
    have ca: "containers sa new = Some (newc\<lparr>cont_state := cont_state newc AND NOT CONTAINER_STATE_FLOATING\<rparr>)"
      unfolding sa_def s1_def by simp
    from s2 None ca obtain s3 w where
      i: "bsp_entry_init (sa\<lparr>containers := (containers sa)(new \<mapsto>
            (newc\<lparr>cont_state := cont_state newc AND NOT CONTAINER_STATE_FLOATING\<rparr>)
               \<lparr>cont_bsp_node := Some np\<rparr>)\<rparr>) workspace np = Some s3"
         "bsp_update_root fuel s3 w = Some s2"
      unfolding sa_def np_def
      by (auto simp: Let_def case_prod_beta split: bind_splits)
    from i(1) have "states_of s3 = states_of sa"
      using states_of_bsp_node_upd[OF ca]
      by (auto simp: bsp_entry_init_def split: bind_splits)
    with relayout_states[OF relayout_update_root[OF i(2)]] show ?thesis
      unfolding sa_def by simp
  qed
  from s' obtain w en where "s' = set_bsp_entry s2 w en" by blast
  then have "states_of s' = states_of s1" using 2 by simp
  from state_change_after[OF 1 this] show ?thesis .
qed

lemma set_maximized_change:
  assumes "cwc_container_set_maximized fuel s cp on = Some s'"
  shows "state_change s s' cp
           (if on then (\<lambda>st. (st OR CONTAINER_STATE_MAXIMIZED) AND NOT CONTAINER_STATE_FULLSCREEN)
            else (\<lambda>st. st AND NOT CONTAINER_STATE_MAXIMIZED))"
proof -
  let ?F = "if on then (\<lambda>st. (st OR CONTAINER_STATE_MAXIMIZED) AND NOT CONTAINER_STATE_FULLSCREEN)
            else (\<lambda>st. st AND NOT CONTAINER_STATE_MAXIMIZED)"
  from assms obtain c where c: "containers s cp = Some c"
    by (cases "containers s cp") (auto simp: cwc_container_set_maximized_def)
  define step1 where "step1 = (if on then do {
               s0 \<leftarrow> set_state s cp (\<lambda>st. (st OR CONTAINER_STATE_MAXIMIZED)
                                              AND NOT CONTAINER_STATE_FULLSCREEN);
               case cont_bsp_node c of None \<Rightarrow> Some s0 | Some np \<Rightarrow> bsp_node_disable fuel s0 np
             } else do {
               s0 \<leftarrow> set_state s cp (\<lambda>st. st AND NOT CONTAINER_STATE_MAXIMIZED);
               c0 \<leftarrow> containers s0 cp;
               fl \<leftarrow> cwc_container_is_floating s0 c0;
               if fl then cwc_container_restore_floating_box s0 cp
               else (case cont_bsp_node c of None \<Rightarrow> Some s0 | Some np \<Rightarrow> bsp_node_enable fuel s0 np)
             })"
  from assms c obtain s1 where s1: "step1 = Some s1"
    unfolding step1_def by (cases step1) (auto simp: cwc_container_set_maximized_def Let_def step1_def)
  from assms c s1 obtain s2 where
    s2: "cwc_container_for_each_toplevel (all_toplevel_set_maximized on) s1 cp = Some s2"
    by (cases "cwc_container_for_each_toplevel (all_toplevel_set_maximized on) s1 cp")
       (auto simp: cwc_container_set_maximized_def Let_def step1_def)
  from assms c s1 s2 obtain c2 where c2: "containers s2 cp = Some c2"
    by (cases "containers s2 cp") (auto simp: cwc_container_set_maximized_def Let_def step1_def)
  from assms c s1 s2 c2 obtain b where
    m: "master_arrange_update (s2\<lparr>containers := (containers s2)(cp \<mapsto> c2\<lparr>border := b\<rparr>)\<rparr>) = Some s'"
    by (auto simp: cwc_container_set_maximized_def Let_def step1_def)
  have 1: "state_change s s1 cp ?F"
  proof (cases on)
    case True
    with s1 obtain s0 where
      a: "set_state s cp (\<lambda>st. (st OR CONTAINER_STATE_MAXIMIZED) AND NOT CONTAINER_STATE_FULLSCREEN) = Some s0"
         "(case cont_bsp_node c of None \<Rightarrow> Some s0 | Some np \<Rightarrow> bsp_node_disable fuel s0 np) = Some s1"
      unfolding step1_def by (auto split: bind_splits)
    from state_change_after[OF set_state_change[OF a(1)] relayout_states[OF optional_disable_relayout[OF a(2)]]]
    show ?thesis using True by simp
  next
    case False
    with s1 obtain s0 c0 fl where
      a: "set_state s cp (\<lambda>st. st AND NOT CONTAINER_STATE_MAXIMIZED) = Some s0"
         "(if fl then cwc_container_restore_floating_box s0 cp
           else (case cont_bsp_node c of None \<Rightarrow> Some s0 | Some np \<Rightarrow> bsp_node_enable fuel s0 np)) = Some s1"
      unfolding step1_def by (auto split: bind_splits)
    have "states_of s1 = states_of s0"
      using a(2) same_structure_states[OF restore_floating_box_same_structure]
        relayout_states[OF optional_enable_relayout]
      by (cases fl) auto
    from state_change_after[OF set_state_change[OF a(1)] this] show ?thesis using False by simp
  qed
  have 2: "states_of s2 = states_of s1"
    using same_structure_states[OF container_for_each_same_structure[OF _ s2]]
      all_toplevel_set_maximized_same_structure by blast
  have 3: "states_of s' = states_of s2"
    using relayout_states[OF relayout_master_arrange_update[OF m]] border_update_states[OF c2] by simp
  from state_change_after[OF state_change_after[OF 1 2] 3] show ?thesis .
qed

lemma for_each_minimized_same:
  "for_each_toplevel (all_toplevel_set_minimized on) s tps = Some s' \<Longrightarrow> s' = s"
  by (induction tps arbitrary: s) (auto split: bind_splits dest: all_toplevel_set_minimized_same)

lemma set_minimized_change:
  assumes "cwc_container_set_minimized fuel s cp on = Some s'"
  shows "state_change s s' cp
           (if on then (\<lambda>st. st OR CONTAINER_STATE_MINIMIZED)
            else (\<lambda>st. st AND NOT CONTAINER_STATE_MINIMIZED))"
proof -
  from assms obtain c where c: "containers s cp = Some c"
    by (cases "containers s cp") (auto simp: cwc_container_set_minimized_def)
  define step1 where "step1 = (if on then do {
               s0 \<leftarrow> (case cont_bsp_node c of None \<Rightarrow> Some s | Some np \<Rightarrow> bsp_node_disable fuel s np);
               set_state s0 cp (\<lambda>st. st OR CONTAINER_STATE_MINIMIZED)
             } else do {
               s0 \<leftarrow> set_state s cp (\<lambda>st. st AND NOT CONTAINER_STATE_MINIMIZED);
               s0' \<leftarrow> (case cont_bsp_node c of None \<Rightarrow> Some s0 | Some np \<Rightarrow> bsp_node_enable fuel s0 np);
               c0 \<leftarrow> containers s0' cp;
               Some (s0'\<lparr>containers := (containers s0')(cp \<mapsto>
                       c0\<lparr>cont_tag := active_tag s0', cont_workspace := active_workspace s0'\<rparr>)\<rparr>)
             })"
  from assms c obtain s1 where s1: "step1 = Some s1"
    unfolding step1_def by (cases step1) (auto simp: cwc_container_set_minimized_def Let_def step1_def)
  from assms c s1 obtain s2 where
    s2: "cwc_container_for_each_toplevel (all_toplevel_set_minimized on) s1 cp = Some s2"
        "master_arrange_update s2 = Some s'"
    by (cases "cwc_container_for_each_toplevel (all_toplevel_set_minimized on) s1 cp")
       (auto simp: cwc_container_set_minimized_def Let_def step1_def)
  have 1: "state_change s s1 cp (if on then (\<lambda>st. st OR CONTAINER_STATE_MINIMIZED)
            else (\<lambda>st. st AND NOT CONTAINER_STATE_MINIMIZED))"
  proof (cases on)
    case True
    with s1 obtain s0 where
      a: "(case cont_bsp_node c of None \<Rightarrow> Some s | Some np \<Rightarrow> bsp_node_disable fuel s np) = Some s0"
         "set_state s0 cp (\<lambda>st. st OR CONTAINER_STATE_MINIMIZED) = Some s1"
      unfolding step1_def by (auto split: bind_splits)
    from state_change_before[OF relayout_states[OF optional_disable_relayout[OF a(1)]] set_state_change[OF a(2)]]
    show ?thesis using True by simp
  next
    case False
    with s1 obtain s0 s0' and c0 :: cwc_container where
      a: "set_state s cp (\<lambda>st. st AND NOT CONTAINER_STATE_MINIMIZED) = Some s0"
         "(case cont_bsp_node c of None \<Rightarrow> Some s0 | Some np \<Rightarrow> bsp_node_enable fuel s0 np) = Some s0'"
         "containers s0' cp = Some c0"
         "s1 = s0'\<lparr>containers := (containers s0')(cp \<mapsto>
                       c0\<lparr>cont_tag := active_tag s0', cont_workspace := active_workspace s0'\<rparr>)\<rparr>"
      unfolding step1_def by (auto split: bind_splits)
    have "states_of s1 = states_of s0"
      using relayout_states[OF optional_enable_relayout[OF a(2)]] states_of_tag_upd[OF a(3)] a(4)
      by simp
    from state_change_after[OF set_state_change[OF a(1)] this] show ?thesis using False by simp
  qed
  have 2: "s2 = s1" using s2(1) for_each_minimized_same
    by (auto simp: cwc_container_for_each_toplevel_def split: bind_splits)
  have 3: "states_of s' = states_of s1"
    using relayout_states[OF relayout_master_arrange_update[OF s2(2)]] 2 by simp
  from state_change_after[OF 1 3] show ?thesis .
qed

lemma set_sticky_change:
  "cwc_container_set_sticky s cp on = Some s' \<Longrightarrow>
   state_change s s' cp (if on then (\<lambda>st. st OR CONTAINER_STATE_STICKY)
                         else (\<lambda>st. st AND NOT CONTAINER_STATE_STICKY))"
  by (auto simp: cwc_container_set_sticky_def dest: set_state_change split: if_splits)

lemma set_floating_change:
  assumes "cwc_container_set_floating fuel s cp on = Some s'"
  shows "state_change s s' cp id
       \<or> state_change s s' cp (\<lambda>st. st OR CONTAINER_STATE_FLOATING)
       \<or> state_change s s' cp (\<lambda>st. st AND NOT CONTAINER_STATE_FLOATING)"
proof -
  from assms obtain c where c: "containers s cp = Some c"
    by (cases "containers s cp") (auto simp: cwc_container_set_floating_def)
  show ?thesis
  proof (cases "cwc_container_is_configure_allowed c")
    case False
    with assms c have "s' = s" by (simp add: cwc_container_set_floating_def)
    then show ?thesis using state_change_kept by simp
  next
    case ca: True
    show ?thesis
    proof (cases on)
      case True
      with assms c ca obtain s1 c1 s2 s3 c3 where
        a: "cwc_container_restore_floating_box s cp = Some s1"
           "(case cont_bsp_node c1 of None \<Rightarrow> Some s1 | Some np \<Rightarrow> bsp_node_disable fuel s1 np) = Some s2"
           "set_state s2 cp (\<lambda>st. st OR CONTAINER_STATE_FLOATING) = Some s3"
           "cwc_output_tiling_layout_update fuel s3 (cont_workspace c3) = Some s'"
           "containers s1 cp = Some c1" "containers s3 cp = Some c3"
        by (auto simp: cwc_container_set_floating_def split: bind_splits)
      have "states_of s2 = states_of s"
        using same_structure_states[OF restore_floating_box_same_structure[OF a(1)]]
          relayout_states[OF optional_disable_relayout[OF a(2)]] by simp
      from state_change_after[OF state_change_before[OF this set_state_change[OF a(3)]]
          relayout_states[OF relayout_tiling_layout_update[OF a(4)]]]
      show ?thesis by simp
    next
      case False
      from assms c ca False obtain fl where fl: "cwc_container_is_floating s c = Some fl"
        by (cases "cwc_container_is_floating s c") (auto simp: cwc_container_set_floating_def)
      show ?thesis
      proof (cases fl)
        case False
        with assms c ca \<open>\<not> on\<close> fl have "s' = s" by (simp add: cwc_container_set_floating_def)
        then show ?thesis using state_change_kept by simp
      next
        case True
        with assms c ca \<open>\<not> on\<close> fl obtain s1 c1 s2 c2 where
          a: "set_state s cp (\<lambda>st. st AND NOT CONTAINER_STATE_FLOATING) = Some s1"
             "containers s1 cp = Some c1"
             "(case cont_bsp_node c1 of
                   Some np \<Rightarrow> bsp_node_enable fuel s1 np
                 | None \<Rightarrow> do {
                     bsp \<leftarrow> cwc_output_is_current_layout_bsp s1;
                     if bsp then bsp_insert_container fuel s1 cp (cont_workspace c1) else Some s1
                   }) = Some s2"
             "cwc_output_tiling_layout_update fuel s2 (cont_workspace c2) = Some s'"
             "containers s2 cp = Some c2"
          by (auto simp: cwc_container_set_floating_def split: bind_splits)
        have "state_change s1 s2 cp (\<lambda>st. st AND NOT CONTAINER_STATE_FLOATING)
              \<or> states_of s2 = states_of s1"
        proof (cases "cont_bsp_node c1")
          case (Some np)
          with a(3) show ?thesis using relayout_states[OF relayout_enable] by simp
        next
          case None
          with a(3) show ?thesis using bsp_insert_container_change
            by (auto split: bind_splits if_splits)
        qed
        then have "state_change s s2 cp (\<lambda>st. st AND NOT CONTAINER_STATE_FLOATING)"
        proof
          assume "states_of s2 = states_of s1"
          from state_change_after[OF set_state_change[OF a(1)] this] show ?thesis .
        next
          assume "state_change s1 s2 cp (\<lambda>st. st AND NOT CONTAINER_STATE_FLOATING)"
          from state_change_trans[OF set_state_change[OF a(1)] this]
          show ?thesis by (simp add: comp_def and.right_idem)
        qed
        from state_change_after[OF this relayout_states[OF relayout_tiling_layout_update[OF a(4)]]]
        show ?thesis by simp
      qed
    qed
  qed
qed

section \<open>Fullscreen and maximized exclude each other\<close>

text \<open>
  The operations of the model on containers.  \<open>container->state\<close> is written by
  \<open>cwc_container_init\<close> (with \<open>decide_should_tiled\<close>), by the five setters and by
  \<open>bsp_insert_container\<close>; the other operations change geometry.
\<close>

datatype container_op =
    Container_init addr addr int int int int client_wishes
  | Set_fullscreen addr bool
  | Set_maximized addr bool
  | Set_minimized addr bool
  | Set_floating addr bool
  | Set_sticky addr bool
  | Bsp_insert addr int
  | Tiling_layout_update int
  | Set_size addr int int
  | Set_position addr int int
  | Restore_floating_box addr
  | To_center addr

fun run_op :: "nat \<Rightarrow> cwc_state \<Rightarrow> container_op \<Rightarrow> cwc_state option" where
  "run_op fuel s (Container_init cp tp geom_w geom_h config_bw border_w wishes) =
     cwc_container_init fuel s cp tp geom_w geom_h config_bw border_w wishes"
| "run_op fuel s (Set_fullscreen cp on) = cwc_container_set_fullscreen fuel s cp on"
| "run_op fuel s (Set_maximized cp on) = cwc_container_set_maximized fuel s cp on"
| "run_op fuel s (Set_minimized cp on) = cwc_container_set_minimized fuel s cp on"
| "run_op fuel s (Set_floating cp on) = cwc_container_set_floating fuel s cp on"
| "run_op fuel s (Set_sticky cp on) = cwc_container_set_sticky s cp on"
| "run_op fuel s (Bsp_insert cp workspace) = bsp_insert_container fuel s cp workspace"
| "run_op fuel s (Tiling_layout_update view) = cwc_output_tiling_layout_update fuel s view"
| "run_op fuel s (Set_size cp w h) = cwc_container_set_size s cp w h"
| "run_op fuel s (Set_position cp x y) = cwc_container_set_position s cp x y"
| "run_op fuel s (Restore_floating_box cp) = cwc_container_restore_floating_box s cp"
| "run_op fuel s (To_center cp) = cwc_container_to_center s cp"

fun run_ops :: "nat \<Rightarrow> cwc_state \<Rightarrow> container_op list \<Rightarrow> cwc_state option" where
  "run_ops fuel s [] = Some s"
| "run_ops fuel s (op # ops) = do { s' \<leftarrow> run_op fuel s op; run_ops fuel s' ops }"

definition mutual_exclusion :: "cwc_state \<Rightarrow> bool" where
  "mutual_exclusion s \<longleftrightarrow>
     (\<forall>cp c. containers s cp = Some c \<longrightarrow>
        \<not> (cwc_container_is_fullscreen c \<and> cwc_container_is_maximized c))"

definition exclusive :: "32 word \<Rightarrow> bool" where
  "exclusive st \<longleftrightarrow> \<not> (st AND CONTAINER_STATE_FULLSCREEN \<noteq> 0 \<and> st AND CONTAINER_STATE_MAXIMIZED \<noteq> 0)"

definition keeps_exclusion :: "(32 word \<Rightarrow> 32 word) \<Rightarrow> bool" where
  "keeps_exclusion F \<longleftrightarrow> (\<forall>st. exclusive st \<longrightarrow> exclusive (F st))"

lemma mutual_exclusion_states:
  "mutual_exclusion s \<longleftrightarrow> (\<forall>cp st. states_of s cp = Some st \<longrightarrow> exclusive st)"
  by (auto simp: mutual_exclusion_def states_of_def exclusive_def cwc_container_is_fullscreen_def
        cwc_container_is_maximized_def)

lemma keeps_exclusion_id: "keeps_exclusion id"
  by (simp add: keeps_exclusion_def)

lemma keeps_exclusion_comp: "keeps_exclusion F \<Longrightarrow> keeps_exclusion G \<Longrightarrow> keeps_exclusion (G \<circ> F)"
  by (simp add: keeps_exclusion_def)

lemma keeps_exclusion_fullscreen:
  "keeps_exclusion (\<lambda>st. (st OR CONTAINER_STATE_FULLSCREEN) AND NOT CONTAINER_STATE_MAXIMIZED)"
  "keeps_exclusion (\<lambda>st. st AND NOT CONTAINER_STATE_FULLSCREEN)"
  "keeps_exclusion (\<lambda>st. (st OR CONTAINER_STATE_MAXIMIZED) AND NOT CONTAINER_STATE_FULLSCREEN)"
  "keeps_exclusion (\<lambda>st. st AND NOT CONTAINER_STATE_MAXIMIZED)"
  by (simp_all add: keeps_exclusion_def exclusive_def and.assoc)

lemma other_bits:
  "(st OR CONTAINER_STATE_MINIMIZED) AND CONTAINER_STATE_FULLSCREEN = st AND CONTAINER_STATE_FULLSCREEN"
  "(st OR CONTAINER_STATE_MINIMIZED) AND CONTAINER_STATE_MAXIMIZED = st AND CONTAINER_STATE_MAXIMIZED"
  "(st AND NOT CONTAINER_STATE_MINIMIZED) AND CONTAINER_STATE_FULLSCREEN = st AND CONTAINER_STATE_FULLSCREEN"
  "(st AND NOT CONTAINER_STATE_MINIMIZED) AND CONTAINER_STATE_MAXIMIZED = st AND CONTAINER_STATE_MAXIMIZED"
  "(st OR CONTAINER_STATE_FLOATING) AND CONTAINER_STATE_FULLSCREEN = st AND CONTAINER_STATE_FULLSCREEN"
  "(st OR CONTAINER_STATE_FLOATING) AND CONTAINER_STATE_MAXIMIZED = st AND CONTAINER_STATE_MAXIMIZED"
  "(st AND NOT CONTAINER_STATE_FLOATING) AND CONTAINER_STATE_FULLSCREEN = st AND CONTAINER_STATE_FULLSCREEN"
  "(st AND NOT CONTAINER_STATE_FLOATING) AND CONTAINER_STATE_MAXIMIZED = st AND CONTAINER_STATE_MAXIMIZED"
  "(st OR CONTAINER_STATE_STICKY) AND CONTAINER_STATE_FULLSCREEN = st AND CONTAINER_STATE_FULLSCREEN"
  "(st OR CONTAINER_STATE_STICKY) AND CONTAINER_STATE_MAXIMIZED = st AND CONTAINER_STATE_MAXIMIZED"
  "(st AND NOT CONTAINER_STATE_STICKY) AND CONTAINER_STATE_FULLSCREEN = st AND CONTAINER_STATE_FULLSCREEN"
  "(st AND NOT CONTAINER_STATE_STICKY) AND CONTAINER_STATE_MAXIMIZED = st AND CONTAINER_STATE_MAXIMIZED"
  "(st OR CONTAINER_STATE_UNMANAGED) AND CONTAINER_STATE_FULLSCREEN = st AND CONTAINER_STATE_FULLSCREEN"
  "(st OR CONTAINER_STATE_UNMANAGED) AND CONTAINER_STATE_MAXIMIZED = st AND CONTAINER_STATE_MAXIMIZED"
  by (simp_all add: state_bit_defs bit.conj_disj_distrib2 and.assoc)

lemma keeps_exclusion_other:
  "keeps_exclusion (\<lambda>st. st OR CONTAINER_STATE_MINIMIZED)"
  "keeps_exclusion (\<lambda>st. st AND NOT CONTAINER_STATE_MINIMIZED)"
  "keeps_exclusion (\<lambda>st. st OR CONTAINER_STATE_FLOATING)"
  "keeps_exclusion (\<lambda>st. st AND NOT CONTAINER_STATE_FLOATING)"
  "keeps_exclusion (\<lambda>st. st OR CONTAINER_STATE_STICKY)"
  "keeps_exclusion (\<lambda>st. st AND NOT CONTAINER_STATE_STICKY)"
  "keeps_exclusion (\<lambda>st. st OR CONTAINER_STATE_UNMANAGED)"
  by (simp_all add: keeps_exclusion_def exclusive_def other_bits)

text \<open>\<open>bits_step s s'\<close>: the bits of one container have changed, in a way that keeps the exclusion.\<close>

definition bits_step :: "cwc_state \<Rightarrow> cwc_state \<Rightarrow> bool" where
  "bits_step s s' \<longleftrightarrow> (\<exists>cp F. state_change s s' cp F \<and> keeps_exclusion F)"

lemma bits_stepI: "state_change s s' cp F \<Longrightarrow> keeps_exclusion F \<Longrightarrow> bits_step s s'"
  by (auto simp: bits_step_def)

lemma bits_step_kept: "states_of s' = states_of s \<Longrightarrow> bits_step s s'"
  by (rule bits_stepI[OF state_change_kept keeps_exclusion_id])

lemma bits_step_exclusion:
  assumes "bits_step s s'" "mutual_exclusion s"
  shows "mutual_exclusion s'"
proof -
  from assms(1) obtain cp F where
    a: "states_of s' = (states_of s)(cp := map_option F (states_of s cp))" "keeps_exclusion F"
    by (auto simp: bits_step_def state_change_def)
  show ?thesis unfolding mutual_exclusion_states
  proof (intro allI impI)
    fix cq st assume b: "states_of s' cq = Some st"
    show "exclusive st"
    proof (cases "cq = cp")
      case False
      with a(1) b assms(2) show ?thesis by (auto simp: mutual_exclusion_states)
    next
      case True
      with a(1) b obtain st0 where "states_of s cp = Some st0" "st = F st0" by auto
      with a(2) assms(2) show ?thesis by (auto simp: mutual_exclusion_states keeps_exclusion_def)
    qed
  qed
qed

lemma to_center_states: "cwc_container_to_center s cp = Some s' \<Longrightarrow> states_of s' = states_of s"
  by (auto simp: cwc_container_to_center_def Let_def split: bind_splits if_splits
      dest!: set_position_same_structure(1) same_structure_states)

lemma set_fullscreen_step: "cwc_container_set_fullscreen fuel s cp on = Some s' \<Longrightarrow> bits_step s s'"
  by (drule set_fullscreen_change) (cases on; auto intro: bits_stepI keeps_exclusion_fullscreen)

lemma set_maximized_step: "cwc_container_set_maximized fuel s cp on = Some s' \<Longrightarrow> bits_step s s'"
  by (drule set_maximized_change) (cases on; auto intro: bits_stepI keeps_exclusion_fullscreen)

lemma set_minimized_step: "cwc_container_set_minimized fuel s cp on = Some s' \<Longrightarrow> bits_step s s'"
  by (drule set_minimized_change) (cases on; auto intro: bits_stepI keeps_exclusion_other)

lemma set_sticky_step: "cwc_container_set_sticky s cp on = Some s' \<Longrightarrow> bits_step s s'"
  by (drule set_sticky_change) (cases on; auto intro: bits_stepI keeps_exclusion_other)

lemma set_floating_step: "cwc_container_set_floating fuel s cp on = Some s' \<Longrightarrow> bits_step s s'"
  by (drule set_floating_change) (auto intro: bits_stepI keeps_exclusion_other keeps_exclusion_id)

lemma bsp_insert_step: "bsp_insert_container fuel s cp workspace = Some s' \<Longrightarrow> bits_step s s'"
  by (drule bsp_insert_container_change) (auto intro: bits_stepI keeps_exclusion_other)

lemma set_state_step: "set_state s cp F = Some s' \<Longrightarrow> keeps_exclusion F \<Longrightarrow> bits_step s s'"
  by (auto dest: set_state_change intro: bits_stepI)

lemma decide_should_tiled_exclusion:
  assumes "decide_should_tiled fuel s tp cp wishes = Some s'" "mutual_exclusion s"
  shows "mutual_exclusion s'"
proof -
  from assms(1) obtain t where t: "toplevels s tp = Some t"
    by (cases "toplevels s tp") (auto simp: decide_should_tiled_def)
  consider (fs) "wants_fullscreen wishes"
    | (mx) "\<not> wants_fullscreen wishes" "wants_maximized wishes"
    | (mn) "\<not> wants_fullscreen wishes" "\<not> wants_maximized wishes" "wants_minimized wishes"
    | (fl) "\<not> wants_fullscreen wishes" "\<not> wants_maximized wishes" "\<not> wants_minimized wishes"
           "should_float wishes"
    | (tile) "\<not> wants_fullscreen wishes" "\<not> wants_maximized wishes" "\<not> wants_minimized wishes"
           "\<not> should_float wishes"
    by blast
  then show ?thesis
  proof cases
    case fs
    with assms(1) t obtain tc where "cwc_container_set_fullscreen fuel s tc True = Some s'"
      by (auto simp: decide_should_tiled_def split: bind_splits)
    from bits_step_exclusion[OF set_fullscreen_step[OF this] assms(2)] show ?thesis .
  next
    case mx
    with assms(1) t obtain tc where "cwc_container_set_maximized fuel s tc True = Some s'"
      by (auto simp: decide_should_tiled_def split: bind_splits)
    from bits_step_exclusion[OF set_maximized_step[OF this] assms(2)] show ?thesis .
  next
    case mn
    with assms(1) t obtain tc where "cwc_container_set_minimized fuel s tc True = Some s'"
      by (auto simp: decide_should_tiled_def split: bind_splits)
    from bits_step_exclusion[OF set_minimized_step[OF this] assms(2)] show ?thesis .
  next
    case fl
    with assms(1) t obtain tc s1 tc1 where
      a: "cwc_container_set_floating fuel s tc True = Some s1"
         "cwc_container_to_center s1 tc1 = Some s'"
      by (auto simp: decide_should_tiled_def split: bind_splits)
    from bits_step_exclusion[OF bits_step_kept[OF to_center_states[OF a(2)]]
        bits_step_exclusion[OF set_floating_step[OF a(1)] assms(2)]]
    show ?thesis .
  next
    case tile
    with assms(1) t obtain cont info where
      c: "containers s cp = Some cont" "view_info_at s (cont_workspace cont) = Some info"
      by (auto simp: decide_should_tiled_def split: bind_splits)
    show ?thesis
    proof (cases "layout_mode info")
      case CWC_LAYOUT_FLOATING
      with assms tile t c show ?thesis by (simp add: decide_should_tiled_def)
    next
      case CWC_LAYOUT_MASTER
      with assms(1) tile t c obtain s1 where
        a: "master_arrange_update s = Some s1"
           "set_state s1 cp (\<lambda>st. st AND NOT CONTAINER_STATE_FLOATING) = Some s'"
        by (auto simp: decide_should_tiled_def split: bind_splits)
      from bits_step_exclusion[OF set_state_step[OF a(2) keeps_exclusion_other(4)]
          bits_step_exclusion[OF bits_step_kept[OF relayout_states[OF relayout_master_arrange_update[OF a(1)]]] assms(2)]]
      show ?thesis .
    next
      case CWC_LAYOUT_BSP
      with assms(1) tile t c obtain s1 where
        a: "bsp_insert_container fuel s cp (cont_workspace cont) = Some s1"
           "set_state s1 cp (\<lambda>st. st AND NOT CONTAINER_STATE_FLOATING) = Some s'"
        by (auto simp: decide_should_tiled_def split: bind_splits)
      from bits_step_exclusion[OF set_state_step[OF a(2) keeps_exclusion_other(4)]
          bits_step_exclusion[OF bsp_insert_step[OF a(1)] assms(2)]]
      show ?thesis .
    qed
  qed
qed

lemma new_container_exclusion:
  assumes "mutual_exclusion s" "cont_state c = 0"
  shows "mutual_exclusion (s\<lparr>containers := (containers s)(cp \<mapsto> c), toplevels := T\<rparr>)"
  using assms
  by (auto simp: mutual_exclusion_def cwc_container_is_fullscreen_def)

lemma mutual_exclusion_output_containers [simp]:
  "mutual_exclusion (s\<lparr>output_containers := cs\<rparr>) = mutual_exclusion s"
  by (simp add: mutual_exclusion_def)

lemma container_init_exclusion:
  assumes "cwc_container_init fuel s cp tp geom_w geom_h config_bw border_w wishes = Some s'"
    and "mutual_exclusion s"
  shows "mutual_exclusion s'"
proof -
  from assms(1) obtain t where t: "toplevels s tp = Some t" "containers s cp = None"
    by (cases "toplevels s tp") (auto simp: cwc_container_init_def split: if_splits)
  define w where "w = geom_w + config_bw * 2"
  define h where "h = geom_h + config_bw * 2"
  define cont where "cont = \<lparr>cont_x = 0, cont_y = 0, cont_width = w, cont_height = h,
                    floating_box = \<lparr>box_x = 0, box_y = 0, box_width = w, box_height = h\<rparr>,
                    cont_state = 0,
                    cont_tag = (if active_tag s \<noteq> 0 then active_tag s else 1),
                    cont_workspace = (if active_workspace s \<noteq> 0 then active_workspace s else 1),
                    cont_bsp_node = None,
                    border = cwc_border_init w h border_w,
                    cont_toplevels = [tp], tree_children = [tp]\<rparr>"
  define s1 where "s1 = s\<lparr>containers := (containers s)(cp \<mapsto> cont),
                   toplevels := (toplevels s)(tp \<mapsto> t\<lparr>toplevel_container := Some cp\<rparr>)\<rparr>"
  have e1: "mutual_exclusion s1" unfolding s1_def
    by (rule new_container_exclusion[OF assms(2)]) (simp add: cont_def)
  from assms(1) t have
    r: "(if cwc_toplevel_is_unmanaged t
         then set_state s1 cp (\<lambda>st. st OR CONTAINER_STATE_UNMANAGED)
         else decide_should_tiled fuel (s1\<lparr>output_containers := cp # output_containers s1\<rparr>) tp cp wishes)
        = Some s'"
    unfolding s1_def cont_def w_def h_def by (simp add: cwc_container_init_def Let_def)
  show ?thesis
  proof (cases "cwc_toplevel_is_unmanaged t")
    case True
    with r have "set_state s1 cp (\<lambda>st. st OR CONTAINER_STATE_UNMANAGED) = Some s'" by simp
    from bits_step_exclusion[OF set_state_step[OF this keeps_exclusion_other(7)] e1] show ?thesis .
  next
    case False
    with r have "decide_should_tiled fuel (s1\<lparr>output_containers := cp # output_containers s1\<rparr>) tp cp wishes = Some s'"
      by simp
    from decide_should_tiled_exclusion[OF this] e1 show ?thesis by simp
  qed
qed

lemma run_op_exclusion:
  assumes "run_op fuel s op = Some s'" "mutual_exclusion s"
  shows "mutual_exclusion s'"
proof (cases op)
  case (Container_init cp tp gw gh cb bw wishes)
  with assms show ?thesis using container_init_exclusion by simp
next
  case (Set_fullscreen cp on)
  with assms show ?thesis using bits_step_exclusion[OF set_fullscreen_step] by simp
next
  case (Set_maximized cp on)
  with assms show ?thesis using bits_step_exclusion[OF set_maximized_step] by simp
next
  case (Set_minimized cp on)
  with assms show ?thesis using bits_step_exclusion[OF set_minimized_step] by simp
next
  case (Set_floating cp on)
  with assms show ?thesis using bits_step_exclusion[OF set_floating_step] by simp
next
  case (Set_sticky cp on)
  with assms show ?thesis using bits_step_exclusion[OF set_sticky_step] by simp
next
  case (Bsp_insert cp workspace)
  with assms show ?thesis using bits_step_exclusion[OF bsp_insert_step] by simp
next
  case (Tiling_layout_update view)
  with assms show ?thesis
    using bits_step_exclusion[OF bits_step_kept[OF relayout_states[OF relayout_tiling_layout_update]]]
    by simp
next
  case (Set_size cp w h)
  with assms show ?thesis
    using bits_step_exclusion[OF bits_step_kept[OF same_structure_states[OF set_size_same_structure(1)]]]
    by simp
next
  case (Set_position cp x y)
  with assms show ?thesis
    using bits_step_exclusion[OF bits_step_kept[OF same_structure_states[OF set_position_same_structure(1)]]]
    by simp
next
  case (Restore_floating_box cp)
  with assms show ?thesis
    using bits_step_exclusion[OF bits_step_kept[OF same_structure_states[OF restore_floating_box_same_structure]]]
    by simp
next
  case (To_center cp)
  with assms show ?thesis
    using bits_step_exclusion[OF bits_step_kept[OF to_center_states]] by simp
qed

lemma run_ops_exclusion:
  "run_ops fuel s ops = Some s' \<Longrightarrow> mutual_exclusion s \<Longrightarrow> mutual_exclusion s'"
proof (induction ops arbitrary: s)
  case Nil
  then show ?case by simp
next
  case (Cons op ops)
  from Cons.prems(1) obtain s1 where a: "run_op fuel s op = Some s1" "run_ops fuel s1 ops = Some s'"
    by (auto split: bind_splits)
  from Cons.IH[OF a(2) run_op_exclusion[OF a(1) Cons.prems(2)]] show ?case .
qed

lemma state_change_at:
  assumes "state_change s s' cp F" "containers s cp = Some c"
  shows "\<exists>c'. containers s' cp = Some c' \<and> cont_state c' = F (cont_state c)"
proof -
  from assms have "states_of s' cp = Some (F (cont_state c))"
    by (simp add: state_change_def states_of_def)
  then show ?thesis by (auto simp: states_of_def)
qed

lemma bit_nonzero: "bit (w :: 32 word) n \<Longrightarrow> w \<noteq> 0"
  by auto

lemma set_bits_result:
  "((st OR CONTAINER_STATE_FULLSCREEN) AND NOT CONTAINER_STATE_MAXIMIZED) AND CONTAINER_STATE_FULLSCREEN \<noteq> 0"
  "((st OR CONTAINER_STATE_FULLSCREEN) AND NOT CONTAINER_STATE_MAXIMIZED) AND CONTAINER_STATE_MAXIMIZED = 0"
  "((st OR CONTAINER_STATE_MAXIMIZED) AND NOT CONTAINER_STATE_FULLSCREEN) AND CONTAINER_STATE_MAXIMIZED \<noteq> 0"
  "((st OR CONTAINER_STATE_MAXIMIZED) AND NOT CONTAINER_STATE_FULLSCREEN) AND CONTAINER_STATE_FULLSCREEN = 0"
proof -
  show "((st OR CONTAINER_STATE_FULLSCREEN) AND NOT CONTAINER_STATE_MAXIMIZED) AND CONTAINER_STATE_FULLSCREEN \<noteq> 0"
    by (rule bit_nonzero[of _ 4]) (simp add: state_bit_defs bit_simps)
  show "((st OR CONTAINER_STATE_MAXIMIZED) AND NOT CONTAINER_STATE_FULLSCREEN) AND CONTAINER_STATE_MAXIMIZED \<noteq> 0"
    by (rule bit_nonzero[of _ 3]) (simp add: state_bit_defs bit_simps)
  show "((st OR CONTAINER_STATE_FULLSCREEN) AND NOT CONTAINER_STATE_MAXIMIZED) AND CONTAINER_STATE_MAXIMIZED = 0"
    by (simp add: and.assoc)
  show "((st OR CONTAINER_STATE_MAXIMIZED) AND NOT CONTAINER_STATE_FULLSCREEN) AND CONTAINER_STATE_FULLSCREEN = 0"
    by (simp add: and.assoc)
qed

text \<open>
  Claim C3.  Every operation of the model that returns keeps the invariant that no container
  has the fullscreen and the maximized bit both set, and so does every sequence of
  operations; it holds when there is no container, and a new container starts with no bit
  set.  \<open>cwc_container_set_fullscreen (c, true)\<close> leaves \<open>c\<close> fullscreen and not maximized,
  \<open>cwc_container_set_maximized (c, true)\<close> leaves it maximized and not fullscreen.
\<close>

theorem fullscreen_maximized_exclusive:
  "(mutual_exclusion s \<and> run_ops fuel s ops = Some s' \<longrightarrow> mutual_exclusion s')
   \<and> (containers s = Map.empty \<longrightarrow> mutual_exclusion s)
   \<and> (cwc_container_set_fullscreen fuel s cp True = Some s' \<longrightarrow>
        (\<exists>c'. containers s' cp = Some c' \<and> cwc_container_is_fullscreen c'
              \<and> \<not> cwc_container_is_maximized c'))
   \<and> (cwc_container_set_maximized fuel s cp True = Some s' \<longrightarrow>
        (\<exists>c'. containers s' cp = Some c' \<and> cwc_container_is_maximized c'
              \<and> \<not> cwc_container_is_fullscreen c'))"
proof (intro conjI impI)
  assume "mutual_exclusion s \<and> run_ops fuel s ops = Some s'"
  then show "mutual_exclusion s'" using run_ops_exclusion by blast
next
  assume "containers s = Map.empty"
  then show "mutual_exclusion s" by (simp add: mutual_exclusion_def)
next
  assume a: "cwc_container_set_fullscreen fuel s cp True = Some s'"
  then obtain c where c: "containers s cp = Some c"
    by (cases "containers s cp") (auto simp: cwc_container_set_fullscreen_def)
  from state_change_at[OF set_fullscreen_change[OF a] c]
  show "\<exists>c'. containers s' cp = Some c' \<and> cwc_container_is_fullscreen c'
              \<and> \<not> cwc_container_is_maximized c'"
    by (auto simp: cwc_container_is_fullscreen_def cwc_container_is_maximized_def set_bits_result)
next
  assume a: "cwc_container_set_maximized fuel s cp True = Some s'"
  then obtain c where c: "containers s cp = Some c"
    by (cases "containers s cp") (auto simp: cwc_container_set_maximized_def)
  from state_change_at[OF set_maximized_change[OF a] c]
  show "\<exists>c'. containers s' cp = Some c' \<and> cwc_container_is_maximized c'
              \<and> \<not> cwc_container_is_fullscreen c'"
    by (auto simp: cwc_container_is_fullscreen_def cwc_container_is_maximized_def set_bits_result)
qed

theorem fullscreen_maximized_exclusive_witness:
  "mutual_exclusion demo_state
   \<and> (\<exists>s'. run_ops 3 demo_state [Set_maximized 1 True, Set_fullscreen 1 True, Set_minimized 1 True]
              = Some s'
          \<and> mutual_exclusion s'
          \<and> states_of s' 1 = Some (CONTAINER_STATE_FULLSCREEN OR CONTAINER_STATE_MINIMIZED))
   \<and> (\<exists>s' c'. cwc_container_set_fullscreen 3 demo_state 1 True = Some s'
          \<and> containers s' 1 = Some c' \<and> cwc_container_is_fullscreen c'
          \<and> \<not> cwc_container_is_maximized c')
   \<and> (\<exists>s' c'. cwc_container_set_maximized 3 demo_state 1 True = Some s'
          \<and> containers s' 1 = Some c' \<and> cwc_container_is_maximized c'
          \<and> \<not> cwc_container_is_fullscreen c')"
proof -
  let ?ops = "[Set_maximized 1 True, Set_fullscreen 1 True, Set_minimized 1 True]"
  have e: "mutual_exclusion demo_state"
    by (auto simp: mutual_exclusion_def demo_defs cwc_container_is_fullscreen_def split: if_splits)
  have "run_ops 3 demo_state ?ops \<noteq> None" by code_simp
  then obtain s1 where s1: "run_ops 3 demo_state ?ops = Some s1" by blast
  have "map_option (\<lambda>s. states_of s 1) (run_ops 3 demo_state ?ops)
        = Some (Some (CONTAINER_STATE_FULLSCREEN OR CONTAINER_STATE_MINIMIZED))" by code_simp
  then have b: "states_of s1 1 = Some (CONTAINER_STATE_FULLSCREEN OR CONTAINER_STATE_MINIMIZED)"
    using s1 by simp
  have "cwc_container_set_fullscreen 3 demo_state 1 True \<noteq> None" by code_simp
  then obtain s2 where s2: "cwc_container_set_fullscreen 3 demo_state 1 True = Some s2" by blast
  have "cwc_container_set_maximized 3 demo_state 1 True \<noteq> None" by code_simp
  then obtain s3 where s3: "cwc_container_set_maximized 3 demo_state 1 True = Some s3" by blast
  have "mutual_exclusion s1"
    using fullscreen_maximized_exclusive[of demo_state 3 ?ops s1] e s1 by blast
  moreover have "\<exists>c'. containers s2 1 = Some c' \<and> cwc_container_is_fullscreen c'
          \<and> \<not> cwc_container_is_maximized c'"
    using fullscreen_maximized_exclusive[of demo_state 3 _ s2 1] s2 by blast
  moreover have "\<exists>c'. containers s3 1 = Some c' \<and> cwc_container_is_maximized c'
          \<and> \<not> cwc_container_is_fullscreen c'"
    using fullscreen_maximized_exclusive[of demo_state 3 _ s3 1] s3 by blast
  ultimately show ?thesis using e s1 b s2 s3 by blast
qed

section \<open>Well-formed BSP trees, and that the update returns\<close>

text \<open>
  \<open>tree_ok h s p\<close>: the nodes below \<open>p\<close> form a tree of height less than \<open>h\<close> that
  \<open>bsp_update_node\<close> can walk: an internal node has two children, different from each other
  and from itself, and a split direction; a leaf has a container, which exists together with
  its toplevels.  \<open>chain h s np\<close> is the path from \<open>np\<close> up to the node without parent, when
  it has at most \<open>h\<close> nodes.
\<close>

fun tree_ok :: "nat \<Rightarrow> cwc_state \<Rightarrow> addr \<Rightarrow> bool" where
  "tree_ok 0 s p = False"
| "tree_ok (Suc h) s p =
     (case bsp_nodes s p of
        None \<Rightarrow> False
      | Some n \<Rightarrow>
          (case node_type n of
             BSP_NODE_LEAF \<Rightarrow>
               (case node_container n of None \<Rightarrow> False | Some cp \<Rightarrow> container_ok s cp)
           | BSP_NODE_INTERNAL \<Rightarrow>
               (case node_left n of
                  None \<Rightarrow> False
                | Some lp \<Rightarrow>
                    (case node_right n of
                       None \<Rightarrow> False
                     | Some rp \<Rightarrow> lp \<noteq> rp \<and> lp \<noteq> p \<and> rp \<noteq> p
                         \<and> split_type n \<noteq> BSP_SPLIT_AUTO
                         \<and> tree_ok h s lp \<and> tree_ok h s rp))))"

fun chain :: "nat \<Rightarrow> cwc_state \<Rightarrow> addr \<Rightarrow> addr list option" where
  "chain 0 s np = None"
| "chain (Suc h) s np =
     (case bsp_nodes s np of
        None \<Rightarrow> None
      | Some n \<Rightarrow>
          (case node_parent n of
             None \<Rightarrow> Some [np]
           | Some pp \<Rightarrow> map_option (\<lambda>path. np # path) (chain h s pp)))"

text \<open>\<open>node_struct\<close> forgets the geometry of a node and whether it is enabled.\<close>

definition node_struct :: "bsp_node \<Rightarrow> bsp_node" where
  "node_struct n = (node_skel n)\<lparr>node_enabled := True\<rparr>"

definition same_tree :: "cwc_state \<Rightarrow> cwc_state \<Rightarrow> bool" where
  "same_tree s s' \<longleftrightarrow>
     (\<forall>np. map_option node_struct (bsp_nodes s' np) = map_option node_struct (bsp_nodes s np))
     \<and> (\<forall>cp. container_ok s' cp = container_ok s cp)"

lemma node_struct_fields:
  assumes "node_struct n' = node_struct n"
  shows "node_type n' = node_type n" "node_container n' = node_container n"
    "node_parent n' = node_parent n" "node_left n' = node_left n" "node_right n' = node_right n"
    "split_type n' = split_type n" "left_wfact n' = left_wfact n"
proof -
  show "node_type n' = node_type n" using arg_cong[OF assms, of node_type] by (simp add: node_struct_def node_skel_def)
  show "node_container n' = node_container n" using arg_cong[OF assms, of node_container] by (simp add: node_struct_def node_skel_def)
  show "node_parent n' = node_parent n" using arg_cong[OF assms, of node_parent] by (simp add: node_struct_def node_skel_def)
  show "node_left n' = node_left n" using arg_cong[OF assms, of node_left] by (simp add: node_struct_def node_skel_def)
  show "node_right n' = node_right n" using arg_cong[OF assms, of node_right] by (simp add: node_struct_def node_skel_def)
  show "split_type n' = split_type n" using arg_cong[OF assms, of split_type] by (simp add: node_struct_def node_skel_def)
  show "left_wfact n' = left_wfact n" using arg_cong[OF assms, of left_wfact] by (simp add: node_struct_def node_skel_def)
qed

lemma same_tree_refl [simp]: "same_tree s s"
  by (simp add: same_tree_def)

lemma same_tree_trans: "same_tree s s' \<Longrightarrow> same_tree s' s'' \<Longrightarrow> same_tree s s''"
  by (simp add: same_tree_def)

lemma same_tree_sym: "same_tree s s' \<Longrightarrow> same_tree s' s"
  by (simp add: same_tree_def)

lemma same_tree_node:
  assumes "same_tree s s'" "bsp_nodes s np = Some n"
  shows "\<exists>n'. bsp_nodes s' np = Some n' \<and> node_struct n' = node_struct n"
  using assms by (auto simp: same_tree_def dest!: spec[of _ np])

lemma same_tree_node_none:
  assumes "same_tree s s'" "bsp_nodes s np = None"
  shows "bsp_nodes s' np = None"
  using assms by (auto simp: same_tree_def dest!: spec[of _ np])

lemma same_structure_same_tree:
  assumes "same_structure s s'"
  shows "same_tree s s'"
proof -
  have "\<forall>np. map_option node_struct (bsp_nodes s' np) = map_option node_struct (bsp_nodes s np)"
  proof
    fix np
    from assms have a: "map_option node_skel (bsp_nodes s' np) = map_option node_skel (bsp_nodes s np)"
      by (simp add: same_structure_def)
    show "map_option node_struct (bsp_nodes s' np) = map_option node_struct (bsp_nodes s np)"
      using a by (cases "bsp_nodes s np"; cases "bsp_nodes s' np") (auto simp: node_struct_def)
  qed
  then show ?thesis using same_structure_container_ok[OF assms] by (simp add: same_tree_def)
qed

lemma tree_ok_cong:
  assumes "same_tree s s'"
  shows "tree_ok h s' p = tree_ok h s p"
proof (induction h arbitrary: p)
  case 0
  then show ?case by simp
next
  case (Suc h)
  show ?case
  proof (cases "bsp_nodes s p")
    case None
    with same_tree_node_none[OF assms None] show ?thesis by simp
  next
    case (Some n)
    from same_tree_node[OF assms Some] obtain n' where
      n': "bsp_nodes s' p = Some n'" "node_struct n' = node_struct n" by blast
    note f = node_struct_fields[OF n'(2)]
    have c: "\<And>cp. container_ok s' cp = container_ok s cp" using assms by (simp add: same_tree_def)
    show ?thesis using Some n' f c Suc.IH
      by (simp split: bsp_node_type.splits option.splits)
  qed
qed

lemma chain_cong:
  assumes "\<forall>np. map_option node_parent (bsp_nodes s' np) = map_option node_parent (bsp_nodes s np)"
  shows "chain h s' p = chain h s p"
proof (induction h arbitrary: p)
  case 0
  then show ?case by simp
next
  case (Suc h)
  from assms have a: "map_option node_parent (bsp_nodes s' p) = map_option node_parent (bsp_nodes s p)"
    by simp
  show ?case using a Suc.IH
    by (cases "bsp_nodes s p"; cases "bsp_nodes s' p") (auto split: option.splits)
qed

lemma tree_ok_node: "tree_ok h s p \<Longrightarrow> bsp_nodes s p \<noteq> None"
  by (cases h) (auto split: option.splits)

lemma tree_ok_mono: "tree_ok h s p \<Longrightarrow> tree_ok (Suc h) s p"
proof (induction h arbitrary: p)
  case 0
  then show ?case by simp
next
  case (Suc h)
  from Suc.prems obtain n where n: "bsp_nodes s p = Some n"
    by (auto split: option.splits)
  show ?case
  proof (cases "node_type n")
    case BSP_NODE_LEAF
    with Suc.prems n show ?thesis by (simp split: option.splits)
  next
    case BSP_NODE_INTERNAL
    with Suc.prems n obtain lp rp where
      c: "node_left n = Some lp" "node_right n = Some rp" "lp \<noteq> rp" "lp \<noteq> p" "rp \<noteq> p"
         "split_type n \<noteq> BSP_SPLIT_AUTO" "tree_ok h s lp" "tree_ok h s rp"
      by (auto split: option.splits)
    from Suc.IH[OF c(7)] Suc.IH[OF c(8)] c n BSP_NODE_INTERNAL
    show ?thesis by (simp del: tree_ok.simps(2) add: tree_ok.simps(2)[of "Suc h"])
  qed
qed

subsection \<open>The update changes geometry only\<close>

lemma same_structure_node_upd:
  assumes "bsp_nodes s np = Some n" "node_skel n' = node_skel n"
  shows "same_structure s (s\<lparr>bsp_nodes := (bsp_nodes s)(np \<mapsto> n')\<rparr>)"
  using assms by (simp add: same_structure_def)

lemma node_skel_geometry [simp]:
  "node_skel (n\<lparr>node_x := x\<rparr>) = node_skel n"
  "node_skel (n\<lparr>node_y := y\<rparr>) = node_skel n"
  "node_skel (n\<lparr>node_width := w\<rparr>) = node_skel n"
  "node_skel (n\<lparr>node_height := h\<rparr>) = node_skel n"
  "node_skel (bsp_node_set_position n x y) = node_skel n"
  "node_skel (bsp_node_set_size n w h) = node_skel n"
  by (simp_all add: node_skel_def bsp_node_set_position_def bsp_node_set_size_def)

lemma split_children_skel:
  assumes "bsp_split_children parent left0 right0 = Some (left1, right)"
  shows "node_skel left1 = node_skel left0" "node_skel right = node_skel right0"
  using assms
  by (auto simp: bsp_split_children_def Let_def node_skel_def split: bsp_split_type.splits)

lemma split_children_total:
  "split_type parent \<noteq> BSP_SPLIT_AUTO \<Longrightarrow> \<exists>r. bsp_split_children parent left0 right0 = Some r"
  by (cases "split_type parent") (auto simp: bsp_split_children_def Let_def)

lemma same_structure_place:
  assumes "cwc_container_set_size s cp w h = Some s1"
    and "cwc_container_set_position_gap s1 cp x y = Some s2"
  shows "same_structure s s2"
proof -
  from assms(2) obtain x' y' where "cwc_container_set_position s1 cp x' y' = Some s2"
    by (auto simp: cwc_container_set_position_gap_def Let_def split: bind_splits)
  from same_structure_trans[OF set_size_same_structure(1)[OF assms(1)]
      set_position_same_structure(1)[OF this]]
  show ?thesis .
qed

lemma leaf_configure_same_structure:
  assumes "bsp_node_leaf_configure s np x y w h = Some s'"
  shows "same_structure s s'"
proof -
  from assms obtain node cp c where
    n: "bsp_nodes s np = Some node" "node_container node = Some cp" "containers s cp = Some c"
    by (auto simp: bsp_node_leaf_configure_def split: bind_splits)
  show ?thesis
  proof (cases "cwc_container_is_configure_allowed c")
    case False
    with assms n show ?thesis by (simp add: bsp_node_leaf_configure_def)
  next
    case True
    from assms n True obtain fl where fl: "cwc_container_is_floating s c = Some fl"
      by (auto simp: bsp_node_leaf_configure_def split: bind_splits)
    from assms n True fl obtain s1 node1 where
      s1: "(if \<not> fl then do {
                 s' \<leftarrow> cwc_container_set_size s cp w h;
                 cwc_container_set_position_gap s' cp x y
               } else Some s) = Some s1" and
      n1: "bsp_nodes s1 np = Some node1" and
      s': "s' = s1\<lparr>bsp_nodes := (bsp_nodes s1)(np \<mapsto>
               bsp_node_set_size (bsp_node_set_position node1 x y) w h)\<rparr>"
      by (cases "(if \<not> fl then do {
                 s' \<leftarrow> cwc_container_set_size s cp w h;
                 cwc_container_set_position_gap s' cp x y
               } else Some s)")
         (auto simp: bsp_node_leaf_configure_def split: bind_splits)
    have "same_structure s s1"
    proof (cases fl)
      case True
      with s1 show ?thesis by simp
    next
      case False
      with s1 show ?thesis using same_structure_place by (auto split: bind_splits)
    qed
    from same_structure_trans[OF this same_structure_node_upd[OF n1]] s' show ?thesis by simp
  qed
qed

lemma leaf_configure_total:
  assumes "view_ok s" "bsp_nodes s np = Some n" "node_container n = Some cp" "container_ok s cp"
  shows "\<exists>s'. bsp_node_leaf_configure s np x y w h = Some s'"
proof -
  from assms(4) obtain c where c: "containers s cp = Some c"
    by (auto simp: container_ok_def split: option.splits)
  show ?thesis
  proof (cases "cwc_container_is_configure_allowed c")
    case False
    with assms c show ?thesis by (simp add: bsp_node_leaf_configure_def)
  next
    case True
    from is_floating_total[OF assms(1), of c] obtain fl where
      fl: "cwc_container_is_floating s c = Some fl" by blast
    show ?thesis
    proof (cases fl)
      case True
      with assms c fl \<open>cwc_container_is_configure_allowed c\<close> show ?thesis
        by (simp add: bsp_node_leaf_configure_def)
    next
      case False
      from place_container[OF assms(1,4), of w h x y] obtain s1 s2 where
        p: "cwc_container_set_size s cp w h = Some s1"
           "cwc_container_set_position_gap s1 cp x y = Some s2"
           "bsp_nodes s2 = bsp_nodes s" by blast
      with assms c fl False \<open>cwc_container_is_configure_allowed c\<close> show ?thesis
        by (simp add: bsp_node_leaf_configure_def)
    qed
  qed
qed

lemma tree_ok_leaf:
  assumes "tree_ok h s p" "bsp_nodes s p = Some n" "node_type n = BSP_NODE_LEAF"
  shows "\<exists>cp. node_container n = Some cp \<and> container_ok s cp"
  using assms by (cases h) (auto split: option.splits)

lemma tree_ok_internal:
  assumes "tree_ok h s p" "bsp_nodes s p = Some n" "node_type n = BSP_NODE_INTERNAL"
  shows "\<exists>lp rp k. h = Suc k \<and> node_left n = Some lp \<and> node_right n = Some rp \<and> lp \<noteq> rp \<and> lp \<noteq> p
           \<and> rp \<noteq> p \<and> split_type n \<noteq> BSP_SPLIT_AUTO \<and> tree_ok k s lp \<and> tree_ok k s rp"
  using assms by (cases h) (auto split: option.splits)

lemma update_node_total:
  "view_ok s \<Longrightarrow> tree_ok h s p \<Longrightarrow>
   (\<exists>n. bsp_nodes s p = Some n \<and> node_type n = BSP_NODE_INTERNAL) \<Longrightarrow> h \<le> fuel \<Longrightarrow>
   \<exists>s'. bsp_update_node fuel s p = Some s' \<and> same_structure s s'"
proof (induction fuel arbitrary: s p h)
  case 0
  then show ?case by simp
next
  case (Suc fuel)
  from Suc.prems(3) obtain parent where
    parent: "bsp_nodes s p = Some parent" "node_type parent = BSP_NODE_INTERNAL" by blast
  from tree_ok_internal[OF Suc.prems(2) parent] obtain lp rp k where
    c: "h = Suc k" "node_left parent = Some lp" "node_right parent = Some rp" "lp \<noteq> rp" "lp \<noteq> p"
       "rp \<noteq> p" "split_type parent \<noteq> BSP_SPLIT_AUTO" "tree_ok k s lp" "tree_ok k s rp" by blast
  have kf: "k \<le> fuel" using c(1) Suc.prems(4) by simp
  from tree_ok_node[OF c(8)] obtain left0 where left0: "bsp_nodes s lp = Some left0" by blast
  from tree_ok_node[OF c(9)] obtain right0 where right0: "bsp_nodes s rp = Some right0" by blast
  from split_children_total[OF c(7), of left0 right0] obtain left1 right where
    sp: "bsp_split_children parent left0 right0 = Some (left1, right)" by (cases "bsp_split_children parent left0 right0") auto
  note sk = split_children_skel[OF sp]
  define left where "left = (if \<not> node_enabled right
                 then left1\<lparr>node_width := node_width parent, node_height := node_height parent\<rparr>
                 else left1)"
  have lsk: "node_skel left = node_skel left0" unfolding left_def using sk(1) by simp
  define s1 where "s1 = s\<lparr>bsp_nodes := (bsp_nodes s)(lp \<mapsto> left, rp \<mapsto> right)\<rparr>"
  have ss1: "same_structure s s1"
  proof -
    have a: "same_structure s (s\<lparr>bsp_nodes := (bsp_nodes s)(lp \<mapsto> left)\<rparr>)"
      using same_structure_node_upd[OF left0 lsk] .
    have "bsp_nodes (s\<lparr>bsp_nodes := (bsp_nodes s)(lp \<mapsto> left)\<rparr>) rp = Some right0"
      using right0 c(4) by simp
    from same_structure_trans[OF a same_structure_node_upd[OF this sk(2)]]
    show ?thesis by (simp add: s1_def)
  qed
  have v1: "view_ok s1" using same_structure_view_ok[OF ss1] Suc.prems(1) by simp
  have n1: "bsp_nodes s1 lp = Some left" "bsp_nodes s1 rp = Some right"
    using c(4) by (simp_all add: s1_def)
  have t1: "tree_ok k s1 lp" "tree_ok k s1 rp"
    using tree_ok_cong[OF same_structure_same_tree[OF ss1]] c(8,9) by simp_all
  define step2 where "step2 = (if node_enabled left then
               (if node_type left = BSP_NODE_LEAF
                then bsp_node_leaf_configure s1 lp (node_x parent) (node_y parent)
                       (node_width left) (node_height left)
                else bsp_update_node fuel
                       (s1\<lparr>bsp_nodes := (bsp_nodes s1)(lp \<mapsto>
                             bsp_node_set_position left (node_x parent) (node_y parent))\<rparr>) lp)
             else Some (s1\<lparr>bsp_nodes := (bsp_nodes s1)(rp \<mapsto>
                          right\<lparr>node_x := node_x parent, node_y := node_y parent,
                                node_width := node_width parent,
                                node_height := node_height parent\<rparr>)\<rparr>))"
  have "\<exists>s2. step2 = Some s2 \<and> same_structure s1 s2"
  proof (cases "node_enabled left")
    case False
    then show ?thesis unfolding step2_def
      using same_structure_node_upd[OF n1(2), of "right\<lparr>node_x := node_x parent, node_y := node_y parent,
                                node_width := node_width parent,
                                node_height := node_height parent\<rparr>"] by simp
  next
    case True
    show ?thesis
    proof (cases "node_type left = BSP_NODE_LEAF")
      case leaf: True
      from tree_ok_leaf[OF t1(1) n1(1) leaf] obtain cp where
        cp: "node_container left = Some cp" "container_ok s1 cp" by blast
      from leaf_configure_total[OF v1 n1(1) cp] obtain s2 where
        s2: "bsp_node_leaf_configure s1 lp (node_x parent) (node_y parent)
                       (node_width left) (node_height left) = Some s2" by blast
      with leaf_configure_same_structure[OF s2] True leaf show ?thesis by (simp add: step2_def)
    next
      case False
      define s1' where "s1' = s1\<lparr>bsp_nodes := (bsp_nodes s1)(lp \<mapsto>
                             bsp_node_set_position left (node_x parent) (node_y parent))\<rparr>"
      have ss: "same_structure s1 s1'" unfolding s1'_def
        by (rule same_structure_node_upd[OF n1(1)]) simp
      have "view_ok s1'" using same_structure_view_ok[OF ss] v1 by simp
      moreover have "tree_ok k s1' lp" using tree_ok_cong[OF same_structure_same_tree[OF ss]] t1(1) by simp
      moreover have "\<exists>n. bsp_nodes s1' lp = Some n \<and> node_type n = BSP_NODE_INTERNAL"
        using False by (cases "node_type left") (auto simp: s1'_def bsp_node_set_position_def)
      ultimately obtain s2 where "bsp_update_node fuel s1' lp = Some s2" "same_structure s1' s2"
        using Suc.IH[of s1' k lp] kf by blast
      with same_structure_trans[OF ss] True False show ?thesis
        by (auto simp: step2_def s1'_def)
    qed
  qed
  then obtain s2 where s2: "step2 = Some s2" "same_structure s1 s2" by blast
  have v2: "view_ok s2" using same_structure_view_ok[OF s2(2)] v1 by simp
  have t2: "tree_ok k s2 rp" using tree_ok_cong[OF same_structure_same_tree[OF s2(2)]] t1(2) by simp
  from tree_ok_node[OF t2] obtain right2 where right2: "bsp_nodes s2 rp = Some right2" by blast
  define step3 where "step3 = (if node_enabled right2 then
       (if node_type right2 = BSP_NODE_LEAF
        then bsp_node_leaf_configure s2 rp (node_x right2) (node_y right2)
               (node_width right2) (node_height right2)
        else bsp_update_node fuel s2 rp)
     else Some s2)"
  have "\<exists>s'. step3 = Some s' \<and> same_structure s2 s'"
  proof (cases "node_enabled right2")
    case False
    then show ?thesis by (simp add: step3_def)
  next
    case True
    show ?thesis
    proof (cases "node_type right2 = BSP_NODE_LEAF")
      case leaf: True
      from tree_ok_leaf[OF t2 right2 leaf] obtain cp where
        cp: "node_container right2 = Some cp" "container_ok s2 cp" by blast
      from leaf_configure_total[OF v2 right2 cp] obtain s' where
        s': "bsp_node_leaf_configure s2 rp (node_x right2) (node_y right2)
               (node_width right2) (node_height right2) = Some s'" by blast
      with leaf_configure_same_structure[OF s'] True leaf show ?thesis by (simp add: step3_def)
    next
      case False
      have "\<exists>n. bsp_nodes s2 rp = Some n \<and> node_type n = BSP_NODE_INTERNAL"
        using False right2 by (cases "node_type right2") auto
      from Suc.IH[OF v2 t2 this kf] True False show ?thesis by (simp add: step3_def)
    qed
  qed
  then obtain s' where s': "step3 = Some s'" "same_structure s2 s'" by blast
  have "bsp_update_node (Suc fuel) s p = Some s'"
    using parent c(2,3,4,5,6) left0 right0 sp s2(1) right2 s'(1)
    unfolding step2_def step3_def s1_def left_def
    by (simp add: Let_def)
  moreover have "same_structure s s'"
    using same_structure_trans[OF same_structure_trans[OF ss1 s2(2)] s'(2)] .
  ultimately show ?case by blast
qed

lemma update_root_total:
  assumes "view_ok s" "view_info_at s workspace = Some info"
    and "root (bsp_entry info) = Some rp" "tree_ok h s rp" "h \<le> fuel"
  shows "\<exists>s'. bsp_update_root fuel s workspace = Some s' \<and> same_structure s s'"
proof -
  from tree_ok_node[OF assms(4)] obtain rn where rn: "bsp_nodes s rp = Some rn" by blast
  have e: "bsp_entry_get s workspace = Some (Some (bsp_entry info))"
    using assms(2,3) by (simp add: bsp_entry_get_def)
  show ?thesis
  proof (cases "node_type rn = BSP_NODE_LEAF")
    case True
    from tree_ok_leaf[OF assms(4) rn True] obtain cp where
      cp: "node_container rn = Some cp" "container_ok s cp" by blast
    from leaf_configure_total[OF assms(1) rn cp] obtain s' where
      s': "bsp_node_leaf_configure s rp (box_x (usable_area s)) (box_y (usable_area s))
             (box_width (usable_area s)) (box_height (usable_area s)) = Some s'" by blast
    with leaf_configure_same_structure[OF s'] True e assms(3) rn show ?thesis
      by (simp add: bsp_update_root_def Let_def)
  next
    case False
    define s0 where "s0 = s\<lparr>bsp_nodes := (bsp_nodes s)(rp \<mapsto>
                     bsp_node_set_position (bsp_node_set_size rn (box_width (usable_area s))
                        (box_height (usable_area s))) (box_x (usable_area s)) (box_y (usable_area s)))\<rparr>"
    have ss: "same_structure s s0" unfolding s0_def
      by (rule same_structure_node_upd[OF rn]) simp
    have "view_ok s0" using same_structure_view_ok[OF ss] assms(1) by simp
    moreover have "tree_ok h s0 rp" using tree_ok_cong[OF same_structure_same_tree[OF ss]] assms(4) by simp
    moreover have "\<exists>n. bsp_nodes s0 rp = Some n \<and> node_type n = BSP_NODE_INTERNAL"
      using False by (cases "node_type rn")
        (auto simp: s0_def bsp_node_set_position_def bsp_node_set_size_def)
    ultimately obtain s' where "bsp_update_node fuel s0 rp = Some s'" "same_structure s0 s'"
      using update_node_total[of s0 h rp fuel] assms(5) by blast
    with same_structure_trans[OF ss] False e assms(3) rn show ?thesis
      by (auto simp: bsp_update_root_def Let_def s0_def)
  qed
qed

subsection \<open>Enabling a node\<close>

lemma chain_nonempty: "chain h s np = Some path \<Longrightarrow> path \<noteq> [] \<and> hd path = np"
  by (cases h) (auto split: option.splits)

lemma toplevel_ok_nodes_upd [simp]: "toplevel_ok (s\<lparr>bsp_nodes := N\<rparr>) = toplevel_ok s"
  by (auto simp: toplevel_ok_def fun_eq_iff split: option.splits)

lemma container_ok_nodes_upd [simp]: "container_ok (s\<lparr>bsp_nodes := N\<rparr>) cp = container_ok s cp"
  by (simp add: container_ok_def split: option.splits)

lemma view_ok_nodes_upd [simp]: "view_ok (s\<lparr>bsp_nodes := N\<rparr>) = view_ok s"
  by (simp add: view_ok_def)

lemma same_tree_enabled_upd:
  assumes "bsp_nodes s np = Some n"
  shows "same_tree s (s\<lparr>bsp_nodes := (bsp_nodes s)(np \<mapsto> n\<lparr>node_enabled := b\<rparr>)\<rparr>)"
  using assms by (simp add: same_tree_def node_struct_def node_skel_def)

lemma enable_rec_total:
  "chain h s np = Some path \<Longrightarrow> h \<le> fuel \<Longrightarrow>
   \<exists>N. bsp_node_enable_rec fuel s np = Some (s\<lparr>bsp_nodes := N\<rparr>, last path)
      \<and> same_tree s (s\<lparr>bsp_nodes := N\<rparr>)"
proof (induction h arbitrary: s np path fuel)
  case 0
  then show ?case by simp
next
  case (Suc h)
  from Suc.prems(2) obtain fuel' where fuel: "fuel = Suc fuel'" "h \<le> fuel'"
    by (cases fuel) auto
  from Suc.prems(1) obtain n where n: "bsp_nodes s np = Some n"
    by (auto split: option.splits)
  define s1 where "s1 = s\<lparr>bsp_nodes := (bsp_nodes s)(np \<mapsto> n\<lparr>node_enabled := True\<rparr>)\<rparr>"
  have st1: "same_tree s s1" unfolding s1_def by (rule same_tree_enabled_upd[OF n])
  show ?case
  proof (cases "node_parent n")
    case None
    with Suc.prems(1) n have "path = [np]" by simp
    with None n fuel st1 show ?thesis
      by (auto simp: Let_def s1_def intro!: exI[of _ "(bsp_nodes s)(np \<mapsto> n\<lparr>node_enabled := True\<rparr>)"])
  next
    case (Some pp)
    with Suc.prems(1) n obtain path' where
      p: "chain h s pp = Some path'" "path = np # path'" by auto
    have "\<forall>q. map_option node_parent (bsp_nodes s1 q) = map_option node_parent (bsp_nodes s q)"
      using n by (simp add: s1_def)
    from chain_cong[OF this] p(1) have "chain h s1 pp = Some path'" by simp
    from Suc.IH[OF this fuel(2)] obtain N where
      N: "bsp_node_enable_rec fuel' s1 pp = Some (s1\<lparr>bsp_nodes := N\<rparr>, last path')"
         "same_tree s1 (s1\<lparr>bsp_nodes := N\<rparr>)" by blast
    have e: "s1\<lparr>bsp_nodes := N\<rparr> = s\<lparr>bsp_nodes := N\<rparr>" by (simp add: s1_def)
    have l: "last path = last path'" using p(2) chain_nonempty[OF p(1)] by simp
    have "bsp_node_enable_rec fuel s np = Some (s\<lparr>bsp_nodes := N\<rparr>, last path)"
      using n Some N(1) fuel e l by (simp add: Let_def s1_def)
    moreover have "same_tree s (s\<lparr>bsp_nodes := N\<rparr>)"
      using same_tree_trans[OF st1 N(2)] e by simp
    ultimately show ?thesis by blast
  qed
qed

lemma node_enable_total:
  assumes "view_ok s" "chain h s np = Some path" "tree_ok h s (last path)"
    and "bsp_nodes s (last path) = Some topn" "node_type topn = BSP_NODE_INTERNAL" "h \<le> fuel"
  shows "\<exists>s'. bsp_node_enable fuel s np = Some s' \<and> same_tree s s' \<and> relayout s s'"
proof -
  from enable_rec_total[OF assms(2,6)] obtain N where
    N: "bsp_node_enable_rec fuel s np = Some (s\<lparr>bsp_nodes := N\<rparr>, last path)"
       "same_tree s (s\<lparr>bsp_nodes := N\<rparr>)" by blast
  define s1 where "s1 = s\<lparr>bsp_nodes := N\<rparr>"
  from same_tree_node[OF N(2) assms(4)] obtain topn' where
    topn': "bsp_nodes s1 (last path) = Some topn'" "node_struct topn' = node_struct topn"
    by (auto simp: s1_def)
  have ty: "node_type topn' = BSP_NODE_INTERNAL"
    using node_struct_fields(1)[OF topn'(2)] assms(5) by simp
  have "view_ok s1" using assms(1) by (simp add: s1_def)
  moreover have "tree_ok h s1 (last path)" using tree_ok_cong[OF N(2)] assms(3) by (simp add: s1_def)
  ultimately obtain s' where
    s': "bsp_update_node fuel s1 (last path) = Some s'" "same_structure s1 s'"
    using update_node_total[of s1 h "last path" fuel] topn'(1) ty assms(6) by blast
  have e: "bsp_node_enable fuel s np = Some s'"
    using N(1) topn'(1) ty s'(1) by (simp add: bsp_node_enable_def s1_def)
  moreover have "same_tree s s'"
    using same_tree_trans[OF N(2) same_structure_same_tree[OF s'(2)[unfolded s1_def]]] .
  ultimately show ?thesis using relayout_enable[OF e] by blast
qed

subsection \<open>The new nodes of an insertion\<close>

text \<open>
  \<open>bsp_splice\<close> is \<open>_bsp_insert_toplevel\<close> up to the call of \<open>bsp_node_enable\<close>: it returns
  the state with the new internal node and the new leaf in place, and the new leaf.
\<close>

definition bsp_splice :: "cwc_state \<Rightarrow> int \<Rightarrow> addr \<Rightarrow> addr \<Rightarrow> (cwc_state \<times> addr) option" where
  "bsp_splice s workspace sibling new = do {
     sib \<leftarrow> containers s sibling;
     lp \<leftarrow> cont_bsp_node sib;
     left \<leftarrow> bsp_nodes s lp;
     let split = (if node_width left \<ge> node_height left
                  then BSP_SPLIT_VERTICAL else BSP_SPLIT_HORIZONTAL);
     let (s1, pp) = bsp_node_internal_create s (node_parent left)
                      (node_x left) (node_y left) (node_width left) (node_height left) split;
     info \<leftarrow> view_info_at s1 workspace;
     parent_node \<leftarrow> bsp_nodes s1 pp;
     newc \<leftarrow> containers s1 new;
     let s2 = (if Some lp = root (bsp_entry info)
               then set_bsp_entry
                      (s1\<lparr>bsp_nodes := (bsp_nodes s1)(pp \<mapsto>
                           parent_node\<lparr>node_x := box_x (usable_area s1),
                                       node_y := box_y (usable_area s1),
                                       node_width := box_width (usable_area s1),
                                       node_height := box_height (usable_area s1),
                                       left_wfact := 0.5\<rparr>)\<rparr>)
                      workspace ((bsp_entry info)\<lparr>root := Some pp\<rparr>)
               else s1);
     let (s3, rp) = bsp_node_leaf_create s2 (Some pp) new;
     let s4 = s3\<lparr>containers := (containers s3)(new \<mapsto> newc\<lparr>cont_bsp_node := Some rp\<rparr>)\<rparr>;
     left4 \<leftarrow> bsp_nodes s4 lp;
     let s5 = s4\<lparr>bsp_nodes := (bsp_nodes s4)(lp \<mapsto> left4\<lparr>node_parent := Some pp\<rparr>)\<rparr>;
     parent5 \<leftarrow> bsp_nodes s5 pp;
     let s6 = s5\<lparr>bsp_nodes := (bsp_nodes s5)(pp \<mapsto>
                   parent5\<lparr>node_left := Some lp, node_right := Some rp\<rparr>)\<rparr>;
     s7 \<leftarrow> (case node_parent parent5 of
              None \<Rightarrow> Some s6
            | Some gp \<Rightarrow> do {
                g \<leftarrow> bsp_nodes s6 gp;
                if node_left g = Some lp
                then Some (s6\<lparr>bsp_nodes := (bsp_nodes s6)(gp \<mapsto> g\<lparr>node_left := Some pp\<rparr>)\<rparr>)
                else if node_right g = Some lp
                then Some (s6\<lparr>bsp_nodes := (bsp_nodes s6)(gp \<mapsto> g\<lparr>node_right := Some pp\<rparr>)\<rparr>)
                else None
              });
     Some (s7, rp)
   }"

lemma insert_toplevel_splice:
  "bsp_insert_toplevel fuel s workspace sibling new = do {
     (s7, rp) \<leftarrow> bsp_splice s workspace sibling new;
     bsp_node_enable fuel s7 rp
   }"
  by (simp add: bsp_insert_toplevel_def bsp_splice_def Let_def case_prod_beta)

text \<open>
  \<open>nodes_fresh\<close>: \<open>calloc\<close> returns an address that is not in use: no node lives at or above
  \<open>next_node\<close>.  \<open>parent_link_ok s lp\<close>: the parent of \<open>lp\<close>, when there is one, is another
  node and has \<open>lp\<close> as its left or right child.
\<close>

definition nodes_fresh :: "cwc_state \<Rightarrow> bool" where
  "nodes_fresh s \<longleftrightarrow> (\<forall>q. next_node s \<le> q \<longrightarrow> bsp_nodes s q = None)"

definition parent_link_ok :: "cwc_state \<Rightarrow> addr \<Rightarrow> bool" where
  "parent_link_ok s lp =
     (case bsp_nodes s lp of
        None \<Rightarrow> False
      | Some left \<Rightarrow>
          (case node_parent left of
             None \<Rightarrow> True
           | Some gp \<Rightarrow>
               (case bsp_nodes s gp of
                  None \<Rightarrow> False
                | Some g \<Rightarrow> gp \<noteq> lp \<and> (node_left g = Some lp \<or> node_right g = Some lp))))"

definition new_internal :: "cwc_state \<Rightarrow> bsp_node \<Rightarrow> bool \<Rightarrow> addr \<Rightarrow> addr \<Rightarrow> bsp_node" where
  "new_internal s left is_root lp rp =
     \<lparr>node_type = BSP_NODE_INTERNAL, node_container = None, node_parent = node_parent left,
      node_left = Some lp, node_right = Some rp, node_enabled = True,
      split_type = (if node_width left \<ge> node_height left
                    then BSP_SPLIT_VERTICAL else BSP_SPLIT_HORIZONTAL),
      left_wfact = 0.5,
      node_x = (if is_root then box_x (usable_area s) else node_x left),
      node_y = (if is_root then box_y (usable_area s) else node_y left),
      node_width = (if is_root then box_width (usable_area s) else node_width left),
      node_height = (if is_root then box_height (usable_area s) else node_height left)\<rparr>"

definition new_leaf :: "addr \<Rightarrow> addr \<Rightarrow> bsp_node" where
  "new_leaf pp new =
     \<lparr>node_type = BSP_NODE_LEAF, node_container = Some new, node_parent = Some pp,
      node_left = None, node_right = None, node_enabled = True,
      split_type = BSP_SPLIT_AUTO, left_wfact = 0,
      node_x = 0, node_y = 0, node_width = 0, node_height = 0\<rparr>"

lemma splice_result:
  assumes sib: "containers s sibling = Some sib" "cont_bsp_node sib = Some lp"
    and left: "bsp_nodes s lp = Some left"
    and info: "view_info_at s workspace = Some info"
    and newc: "containers s new = Some newc"
    and fresh: "nodes_fresh s"
    and link: "parent_link_ok s lp"
  shows "\<exists>s7. bsp_splice s workspace sibling new = Some (s7, Suc (next_node s))
      \<and> bsp_nodes s7 (next_node s)
          = Some (new_internal s left (Some lp = root (bsp_entry info)) lp (Suc (next_node s)))
      \<and> bsp_nodes s7 (Suc (next_node s)) = Some (new_leaf (next_node s) new)
      \<and> bsp_nodes s7 lp = Some (left\<lparr>node_parent := Some (next_node s)\<rparr>)
      \<and> (\<forall>q. q \<noteq> next_node s \<and> q \<noteq> Suc (next_node s) \<and> q \<noteq> lp \<and> Some q \<noteq> node_parent left
             \<longrightarrow> bsp_nodes s7 q = bsp_nodes s q)
      \<and> (\<forall>gp g. node_parent left = Some gp \<and> bsp_nodes s gp = Some g \<longrightarrow>
             bsp_nodes s7 gp = Some (if node_left g = Some lp then g\<lparr>node_left := Some (next_node s)\<rparr>
                                     else g\<lparr>node_right := Some (next_node s)\<rparr>))
      \<and> containers s7 = (containers s)(new \<mapsto> newc\<lparr>cont_bsp_node := Some (Suc (next_node s))\<rparr>)
      \<and> toplevels s7 = toplevels s \<and> active_workspace s7 = active_workspace s
      \<and> usable_area s7 = usable_area s \<and> active_tag s7 = active_tag s
      \<and> output_containers s7 = output_containers s
      \<and> next_node s7 = Suc (Suc (next_node s))
      \<and> view_info s7 = (if Some lp = root (bsp_entry info)
                         then (view_info s)(workspace := (view_info s workspace)
                                \<lparr>bsp_entry := (bsp_entry info)\<lparr>root := Some (next_node s)\<rparr>\<rparr>)
                         else view_info s)"
proof -
  have lp_old: "lp < next_node s" "lp \<noteq> next_node s" "lp \<noteq> Suc (next_node s)"
    using fresh left by (auto simp: nodes_fresh_def dest!: spec[of _ lp])
  have fr: "bsp_nodes s (next_node s) = None" "bsp_nodes s (Suc (next_node s)) = None"
    using fresh by (auto simp: nodes_fresh_def)
  have info1: "\<And>N n. view_info_at (s\<lparr>bsp_nodes := N, next_node := n\<rparr>) workspace = Some info"
    using info by (auto simp: view_info_at_def split: if_splits)
  show ?thesis
  proof (cases "node_parent left")
    case None
    show ?thesis
      using sib left info1 newc lp_old fr None
      by (simp add: bsp_splice_def Let_def case_prod_beta bsp_node_internal_create_def
            bsp_node_leaf_create_def set_bsp_entry_def new_internal_def new_leaf_def)
  next
    case (Some gp)
    with link left obtain g where
      g: "bsp_nodes s gp = Some g" "gp \<noteq> lp" "node_left g = Some lp \<or> node_right g = Some lp"
      by (auto simp: parent_link_ok_def split: option.splits)
    have gp_old: "gp \<noteq> next_node s" "gp \<noteq> Suc (next_node s)"
      using fresh g(1) by (auto simp: nodes_fresh_def)
    show ?thesis
    proof (cases "node_left g = Some lp")
      case True
      show ?thesis
        using sib left info1 newc lp_old fr Some g gp_old True
        by (simp add: bsp_splice_def Let_def case_prod_beta bsp_node_internal_create_def
              bsp_node_leaf_create_def set_bsp_entry_def new_internal_def new_leaf_def)
    next
      case False
      with g(3) have "node_right g = Some lp" by simp
      then show ?thesis
        using sib left info1 newc lp_old fr Some g gp_old False
        by (auto simp add: bsp_splice_def Let_def case_prod_beta bsp_node_internal_create_def
              bsp_node_leaf_create_def set_bsp_entry_def new_internal_def new_leaf_def)
    qed
  qed
qed

text \<open>\<open>spliced\<close> collects what \<open>bsp_splice\<close> has done to the nodes.\<close>

definition spliced :: "cwc_state \<Rightarrow> cwc_state \<Rightarrow> addr \<Rightarrow> bsp_node \<Rightarrow> addr \<Rightarrow> bool \<Rightarrow> bool" where
  "spliced s s7 lp left new is_root \<longleftrightarrow>
     bsp_nodes s7 (next_node s) = Some (new_internal s left is_root lp (Suc (next_node s)))
     \<and> bsp_nodes s7 (Suc (next_node s)) = Some (new_leaf (next_node s) new)
     \<and> bsp_nodes s7 lp = Some (left\<lparr>node_parent := Some (next_node s)\<rparr>)
     \<and> (\<forall>q. q \<noteq> next_node s \<and> q \<noteq> Suc (next_node s) \<and> q \<noteq> lp \<and> Some q \<noteq> node_parent left
            \<longrightarrow> bsp_nodes s7 q = bsp_nodes s q)
     \<and> (\<forall>gp g. node_parent left = Some gp \<and> bsp_nodes s gp = Some g \<longrightarrow>
            bsp_nodes s7 gp = Some (if node_left g = Some lp then g\<lparr>node_left := Some (next_node s)\<rparr>
                                    else g\<lparr>node_right := Some (next_node s)\<rparr>))
     \<and> (\<forall>cp. container_ok s7 cp = container_ok s cp)"

lemma tree_ok_new_internal:
  assumes sp: "spliced s s7 lp left new is_root"
    and fresh: "nodes_fresh s" and left: "bsp_nodes s lp = Some left" "node_type left = BSP_NODE_LEAF"
    and new: "container_ok s new" and t: "tree_ok k s lp"
  shows "tree_ok (Suc k) s7 (next_node s)"
proof -
  from t obtain k' where k: "k = Suc k'" by (cases k) auto
  have lp_old: "lp \<noteq> next_node s" "lp \<noteq> Suc (next_node s)"
    using fresh left by (auto simp: nodes_fresh_def dest!: spec[of _ lp])
  from tree_ok_leaf[OF t left] obtain cp where cp: "node_container left = Some cp" "container_ok s cp"
    by blast
  have c7: "\<And>cq. container_ok s7 cq = container_ok s cq" using sp by (simp add: spliced_def)
  have 1: "tree_ok (Suc k') s7 lp"
    using sp left(2) cp c7 by (simp add: spliced_def)
  have 2: "tree_ok (Suc k') s7 (Suc (next_node s))"
    using sp new c7 by (simp add: spliced_def new_leaf_def)
  have n: "bsp_nodes s7 (next_node s) = Some (new_internal s left is_root lp (Suc (next_node s)))"
    using sp by (simp add: spliced_def)
  show ?thesis
    unfolding k tree_ok.simps(2)[of "Suc k'" s7 "next_node s"]
    using n 1 2 lp_old by (simp add: new_internal_def del: tree_ok.simps)
qed

lemma tree_ok_spliced:
  assumes sp: "spliced s s7 lp left new is_root"
    and fresh: "nodes_fresh s" and left: "bsp_nodes s lp = Some left" "node_type left = BSP_NODE_LEAF"
    and new: "container_ok s new" and link: "parent_link_ok s lp"
  shows "tree_ok k s p \<Longrightarrow> tree_ok (Suc k) s7 p"
proof (induction k arbitrary: p)
  case 0
  then show ?case by simp
next
  case (Suc k)
  from tree_ok_node[OF Suc.prems] obtain n where n: "bsp_nodes s p = Some n" by blast
  have p_old: "p \<noteq> next_node s" "p \<noteq> Suc (next_node s)"
    using fresh n by (auto simp: nodes_fresh_def dest!: spec[of _ p])
  have c7: "\<And>cq. container_ok s7 cq = container_ok s cq" using sp by (simp add: spliced_def)
  let ?pp = "next_node s"
  define is_gp where "is_gp \<longleftrightarrow> node_parent left = Some p \<and> p \<noteq> lp"
  have n7: "\<exists>n7. bsp_nodes s7 p = Some n7 \<and> node_type n7 = node_type n
    \<and> node_container n7 = node_container n \<and> split_type n7 = split_type n
    \<and> node_left n7 = (if is_gp \<and> node_left n = Some lp then Some ?pp else node_left n)
    \<and> node_right n7 = (if is_gp \<and> node_left n \<noteq> Some lp then Some ?pp else node_right n)"
  proof (cases "p = lp")
    case True
    with sp left n show ?thesis by (simp add: spliced_def is_gp_def)
  next
    case False
    show ?thesis
    proof (cases "node_parent left = Some p")
      case True
      with sp n have "bsp_nodes s7 p = Some (if node_left n = Some lp then n\<lparr>node_left := Some ?pp\<rparr>
                                    else n\<lparr>node_right := Some ?pp\<rparr>)"
        by (simp add: spliced_def)
      with True False show ?thesis by (cases "node_left n = Some lp") (auto simp: is_gp_def)
    next
      case np: False
      with sp False p_old have "bsp_nodes s7 p = bsp_nodes s p"
        by (auto simp: spliced_def)
      with n np show ?thesis by (simp add: is_gp_def)
    qed
  qed
  then obtain n7 where n7: "bsp_nodes s7 p = Some n7" "node_type n7 = node_type n"
    "node_container n7 = node_container n" "split_type n7 = split_type n"
    "node_left n7 = (if is_gp \<and> node_left n = Some lp then Some ?pp else node_left n)"
    "node_right n7 = (if is_gp \<and> node_left n \<noteq> Some lp then Some ?pp else node_right n)"
    by blast
  show ?case
  proof (cases "node_type n")
    case BSP_NODE_LEAF
    from tree_ok_leaf[OF Suc.prems n this] obtain cp where
      "node_container n = Some cp" "container_ok s cp" by blast
    with n7 BSP_NODE_LEAF c7 show ?thesis by simp
  next
    case BSP_NODE_INTERNAL
    from tree_ok_internal[OF Suc.prems n this] obtain a b where
      c: "node_left n = Some a" "node_right n = Some b" "a \<noteq> b" "a \<noteq> p"
         "b \<noteq> p" "split_type n \<noteq> BSP_SPLIT_AUTO" "tree_ok k s a" "tree_ok k s b" by auto
    from tree_ok_node[OF c(7)] fresh have a_old: "a \<noteq> ?pp"
      by (auto simp: nodes_fresh_def)
    from tree_ok_node[OF c(8)] fresh have b_old: "b \<noteq> ?pp"
      by (auto simp: nodes_fresh_def)
    have child: "is_gp \<Longrightarrow> a \<noteq> lp \<Longrightarrow> b = lp"
      using link left n c(1,2) by (auto simp: parent_link_ok_def is_gp_def)
    define a7 where "a7 = (if is_gp \<and> a = lp then ?pp else a)"
    define b7 where "b7 = (if is_gp \<and> a \<noteq> lp then ?pp else b)"
    have l7: "node_left n7 = Some a7" using n7(5) c(1) by (simp add: a7_def)
    have r7: "node_right n7 = Some b7" using n7(6) c(1,2) by (simp add: b7_def)
    note new_int = tree_ok_new_internal[OF sp fresh left new]
    have ta: "tree_ok (Suc k) s7 a7"
      using Suc.IH[OF c(7)] new_int[of k] c(7) by (auto simp: a7_def)
    have tb: "tree_ok (Suc k) s7 b7"
      using Suc.IH[OF c(8)] new_int[of k] c(8) child by (auto simp: b7_def)
    have d: "a7 \<noteq> b7" "a7 \<noteq> p" "b7 \<noteq> p"
      using c(3,4,5) a_old b_old p_old by (auto simp: a7_def b7_def)
    show ?thesis
      unfolding tree_ok.simps(2)[of "Suc k" s7 p]
      using n7(1,2,4) BSP_NODE_INTERNAL l7 r7 d c(6) ta tb by (simp del: tree_ok.simps)
  qed
qed

text \<open>The path from the new leaf to the root.\<close>

lemma chain_cong_on:
  "chain k s p = Some path \<Longrightarrow>
   \<forall>q \<in> set path. map_option node_parent (bsp_nodes s' q) = map_option node_parent (bsp_nodes s q) \<Longrightarrow>
   chain k s' p = Some path"
proof (induction k arbitrary: p path)
  case 0
  then show ?case by simp
next
  case (Suc k)
  from Suc.prems(1) obtain n where n: "bsp_nodes s p = Some n" by (auto split: option.splits)
  from chain_nonempty[OF Suc.prems(1)] have "p \<in> set path" by (cases path) auto
  with Suc.prems(2) n obtain n' where n': "bsp_nodes s' p = Some n'" "node_parent n' = node_parent n"
    by (cases "bsp_nodes s' p") (auto dest!: bspec[of _ _ p])
  show ?case
  proof (cases "node_parent n")
    case None
    with Suc.prems(1) n n' show ?thesis by simp
  next
    case (Some pp)
    with Suc.prems(1) n obtain path' where p': "chain k s pp = Some path'" "path = p # path'"
      by auto
    from Suc.IH[OF p'(1)] Suc.prems(2) p'(2) have "chain k s' pp = Some path'" by simp
    with n' Some p'(2) show ?thesis by simp
  qed
qed

lemma chain_spliced:
  assumes sp: "spliced s s7 lp left new is_root"
    and fresh: "nodes_fresh s" and left: "bsp_nodes s lp = Some left"
    and ch: "chain h s lp = Some path" "distinct path"
  shows "chain (Suc h) s7 (Suc (next_node s)) = Some (Suc (next_node s) # next_node s # tl path)"
proof -
  let ?pp = "next_node s"
  from ch(1) obtain k where h: "h = Suc k" by (cases h) auto
  have n_rp: "bsp_nodes s7 (Suc ?pp) = Some (new_leaf ?pp new)"
    and n_pp: "bsp_nodes s7 ?pp = Some (new_internal s left is_root lp (Suc ?pp))"
    using sp by (simp_all add: spliced_def)
  have "chain h s7 ?pp = Some (?pp # tl path)"
  proof (cases "node_parent left")
    case None
    with ch(1) left h have "path = [lp]" by simp
    with n_pp None h show ?thesis by (simp add: new_internal_def)
  next
    case (Some gp)
    with ch(1) left h obtain path' where p': "chain k s gp = Some path'" "path = lp # path'" by auto
    have "\<forall>q \<in> set path'. map_option node_parent (bsp_nodes s7 q) = map_option node_parent (bsp_nodes s q)"
    proof
      fix q assume q: "q \<in> set path'"
      with ch(2) p'(2) have ql: "q \<noteq> lp" by auto
      show "map_option node_parent (bsp_nodes s7 q) = map_option node_parent (bsp_nodes s q)"
      proof (cases "bsp_nodes s q")
        case None
        show ?thesis
        proof (cases "q = ?pp \<or> q = Suc ?pp")
          case True
            have "\<forall>q \<in> set path'. bsp_nodes s q \<noteq> None"
            using p'(1)
          proof (induction k arbitrary: gp path')
            case 0
            then show ?case by simp
          next
            case (Suc k)
            then show ?case by (auto split: option.splits)
          qed
          with q None show ?thesis by auto
        next
          case False
          have "Some q \<noteq> node_parent left"
          proof
            assume "Some q = node_parent left"
            with Some have "q = gp" by simp
            moreover from p'(1) have "bsp_nodes s gp \<noteq> None" by (cases k) (auto split: option.splits)
            ultimately show False using None by simp
          qed
          with sp False ql have "bsp_nodes s7 q = bsp_nodes s q" by (auto simp: spliced_def)
          then show ?thesis by simp
        qed
      next
        case (Some n)
        have q_old: "q \<noteq> ?pp" "q \<noteq> Suc ?pp"
          using fresh Some by (auto simp: nodes_fresh_def dest!: spec[of _ q])
        show ?thesis
        proof (cases "node_parent left = Some q")
          case True
          with sp Some have "bsp_nodes s7 q = Some (if node_left n = Some lp then n\<lparr>node_left := Some ?pp\<rparr>
                                    else n\<lparr>node_right := Some ?pp\<rparr>)"
            by (simp add: spliced_def)
          with Some show ?thesis by simp
        next
          case False
          with sp q_old ql have "bsp_nodes s7 q = bsp_nodes s q" by (auto simp: spliced_def)
          then show ?thesis by simp
        qed
      qed
    qed
    from chain_cong_on[OF p'(1) this] have "chain k s7 gp = Some path'" .
    with n_pp Some h p'(2) show ?thesis by (simp add: new_internal_def)
  qed
  with n_rp show ?thesis by (simp add: new_leaf_def)
qed

subsection \<open>Inserting a container\<close>

lemma container_ok_cong:
  assumes "toplevels s' = toplevels s"
    and "\<forall>cp. map_option (\<lambda>c. (tree_children c, cont_toplevels c)) (containers s' cp)
             = map_option (\<lambda>c. (tree_children c, cont_toplevels c)) (containers s cp)"
  shows "container_ok s' cp = container_ok s cp"
proof -
  have dom: "\<And>cq. (containers s' cq = None) = (containers s cq = None)"
  proof -
    fix cq
    from assms(2) have "map_option (\<lambda>c. (tree_children c, cont_toplevels c)) (containers s' cq)
             = map_option (\<lambda>c. (tree_children c, cont_toplevels c)) (containers s cq)" by simp
    then show "(containers s' cq = None) = (containers s cq = None)"
      by (cases "containers s cq"; cases "containers s' cq") auto
  qed
  have t: "toplevel_ok s' = toplevel_ok s"
    using assms(1) dom by (auto simp: toplevel_ok_def fun_eq_iff split: option.splits)
  from assms(2) have "map_option (\<lambda>c. (tree_children c, cont_toplevels c)) (containers s' cp)
             = map_option (\<lambda>c. (tree_children c, cont_toplevels c)) (containers s cp)" by simp
  then show ?thesis using t
    by (cases "containers s cp"; cases "containers s' cp") (auto simp: container_ok_def)
qed

lemma parent_link_ok_cong: "bsp_nodes s' = bsp_nodes s \<Longrightarrow> parent_link_ok s' lp = parent_link_ok s lp"
  by (simp add: parent_link_ok_def cong: option.case_cong)

lemma toplevel_ok_view_upd [simp]: "toplevel_ok (s\<lparr>view_info := vi\<rparr>) = toplevel_ok s"
  by (auto simp: toplevel_ok_def fun_eq_iff split: option.splits)

lemma container_ok_view_upd [simp]: "container_ok (s\<lparr>view_info := vi\<rparr>) cp = container_ok s cp"
  by (simp add: container_ok_def split: option.splits)

lemma chain_nodes: "chain k s p = Some path \<Longrightarrow> \<forall>q \<in> set path. bsp_nodes s q \<noteq> None"
proof (induction k arbitrary: p path)
  case 0
  then show ?case by simp
next
  case (Suc k)
  then show ?case by (auto split: option.splits)
qed

lemma insert_nonempty:
  assumes v: "view_ok s" and ws: "0 \<le> workspace" "workspace < MAX_WORKSPACE"
    and entry: "root (bsp_entry (view_info s workspace)) = Some r"
               "last_focused (bsp_entry (view_info s workspace)) = Some sibling"
    and sib: "containers s sibling = Some sib" "cont_bsp_node sib = Some lp"
    and left: "bsp_nodes s lp = Some left" "node_type left = BSP_NODE_LEAF"
    and newc: "containers s new = Some newc" "cont_bsp_node newc = None" "container_ok s new"
    and fresh: "nodes_fresh s" and link: "parent_link_ok s lp"
    and ch: "chain h s lp = Some path" "distinct path" "last path = r"
    and tr: "tree_ok h s r"
            "r = lp \<or> (\<exists>rn. bsp_nodes s r = Some rn \<and> node_type rn = BSP_NODE_INTERNAL)"
    and fuel: "h < fuel"
  shows "\<exists>s' s7. bsp_insert_container fuel s new workspace = Some s'
       \<and> spliced s s7 lp left new (r = lp) \<and> same_tree s7 s'
       \<and> (\<exists>c'. containers s' new = Some c' \<and> cont_bsp_node c' = Some (Suc (next_node s)))
       \<and> root (bsp_entry (view_info s' workspace)) = Some (if r = lp then next_node s else r)
       \<and> last_focused (bsp_entry (view_info s' workspace)) = Some new"
proof -
  let ?pp = "next_node s"
  let ?rp = "Suc (next_node s)"
  have ne: "new \<noteq> sibling" using sib newc by auto
  have e: "bsp_entry_get s workspace = Some (Some (bsp_entry (view_info s workspace)))"
    using ws entry by (simp add: bsp_entry_get_def view_info_at_def)
  define newc1 where "newc1 = newc\<lparr>cont_state := cont_state newc AND NOT CONTAINER_STATE_FLOATING\<rparr>"
  define s1 where "s1 = s\<lparr>containers := (containers s)(new \<mapsto> newc1)\<rparr>"
  have s1f: "containers s1 sibling = Some sib" "bsp_nodes s1 = bsp_nodes s"
    "view_info_at s1 workspace = Some (view_info s workspace)" "containers s1 new = Some newc1"
    "next_node s1 = next_node s" "usable_area s1 = usable_area s" "toplevels s1 = toplevels s"
    "view_info s1 = view_info s" "active_workspace s1 = active_workspace s"
    using sib ne ws by (simp_all add: s1_def view_info_at_def)
  have fresh1: "nodes_fresh s1" using fresh by (simp add: nodes_fresh_def s1f)
  have link1: "parent_link_ok s1 lp" using link parent_link_ok_cong[OF s1f(2)] by simp
  have cok1: "\<And>cp. container_ok s1 cp = container_ok s cp"
    by (rule container_ok_cong) (auto simp: s1_def newc1_def newc)
  from splice_result[OF s1f(1) sib(2) left(1)[folded s1f(2)] s1f(3,4) fresh1 link1]
  obtain s7 where
    s7: "bsp_splice s1 workspace sibling new = Some (s7, ?rp)"
        "bsp_nodes s7 ?pp = Some (new_internal s1 left (Some lp = root (bsp_entry (view_info s workspace))) lp ?rp)"
        "bsp_nodes s7 ?rp = Some (new_leaf ?pp new)"
        "bsp_nodes s7 lp = Some (left\<lparr>node_parent := Some ?pp\<rparr>)"
        "\<forall>q. q \<noteq> ?pp \<and> q \<noteq> ?rp \<and> q \<noteq> lp \<and> Some q \<noteq> node_parent left
             \<longrightarrow> bsp_nodes s7 q = bsp_nodes s q"
        "\<forall>gp g. node_parent left = Some gp \<and> bsp_nodes s gp = Some g \<longrightarrow>
             bsp_nodes s7 gp = Some (if node_left g = Some lp then g\<lparr>node_left := Some ?pp\<rparr>
                                     else g\<lparr>node_right := Some ?pp\<rparr>)"
        "containers s7 = (containers s1)(new \<mapsto> newc1\<lparr>cont_bsp_node := Some ?rp\<rparr>)"
        "toplevels s7 = toplevels s" "active_workspace s7 = active_workspace s"
        "view_info s7 = (if Some lp = root (bsp_entry (view_info s workspace))
                         then (view_info s)(workspace := (view_info s workspace)
                                \<lparr>bsp_entry := (bsp_entry (view_info s workspace))\<lparr>root := Some ?pp\<rparr>\<rparr>)
                         else view_info s)"
    unfolding s1f by blast
  have isr: "(Some lp = root (bsp_entry (view_info s workspace))) = (r = lp)"
    using entry(1) by auto
  have ni: "new_internal s1 left (r = lp) lp ?rp = new_internal s left (r = lp) lp ?rp"
    by (simp add: new_internal_def s1f)
  have cok7: "\<And>cp. container_ok s7 cp = container_ok s cp"
  proof -
    fix cp
    have "container_ok s7 cp = container_ok s1 cp"
      by (rule container_ok_cong) (auto simp: s7(7,8) s1f newc1_def)
    then show "container_ok s7 cp = container_ok s cp" using cok1 by simp
  qed
  have sp: "spliced s s7 lp left new (r = lp)"
    unfolding spliced_def using s7(2,3,4,5,6) cok7 isr ni by simp
  have v7: "view_ok s7" using v s7(9) by (simp add: view_ok_def)
  from chain_spliced[OF sp fresh left(1) ch(1,2)]
  have ch7: "chain (Suc h) s7 ?rp = Some (?rp # ?pp # tl path)" .
  have path_hd: "path \<noteq> []" "hd path = lp" using chain_nonempty[OF ch(1)] by simp_all
  define top7 where "top7 = (if r = lp then ?pp else r)"
  have last7: "last (?rp # ?pp # tl path) = top7"
  proof (cases "tl path = []")
    case True
    with path_hd have "path = [lp]" by (cases path) auto
    with ch(3) True show ?thesis by (simp add: top7_def)
  next
    case False
    with path_hd obtain path' where p': "path = lp # path'" "path' \<noteq> []" by (cases path) auto
    with ch(2,3) have "r \<noteq> lp" by (metis distinct.simps(2) last.simps last_in_set)
    with p' ch(3) show ?thesis by (simp add: top7_def)
  qed
  have t7: "tree_ok (Suc h) s7 top7"
  proof (cases "r = lp")
    case True
    with tr(1) tree_ok_new_internal[OF sp fresh left newc(3)] show ?thesis by (simp add: top7_def)
  next
    case False
    with tree_ok_spliced[OF sp fresh left newc(3) link tr(1)] show ?thesis by (simp add: top7_def)
  qed
  have topn: "\<exists>topn. bsp_nodes s7 top7 = Some topn \<and> node_type topn = BSP_NODE_INTERNAL"
  proof (cases "r = lp")
    case True
    with s7(2) show ?thesis by (simp add: top7_def new_internal_def)
  next
    case False
    with tr(2) obtain rn where rn: "bsp_nodes s r = Some rn" "node_type rn = BSP_NODE_INTERNAL" by blast
    have r_old: "r \<noteq> ?pp" "r \<noteq> ?rp"
      using fresh rn(1) by (auto simp: nodes_fresh_def dest!: spec[of _ r])
    show ?thesis
    proof (cases "node_parent left = Some r")
      case True
      with s7(6) rn show ?thesis using False by (auto simp: top7_def)
    next
      case np: False
      with s7(5) False r_old have "bsp_nodes s7 r = bsp_nodes s r" by auto
      with rn False show ?thesis by (simp add: top7_def)
    qed
  qed
  then obtain topn where topn: "bsp_nodes s7 top7 = Some topn" "node_type topn = BSP_NODE_INTERNAL"
    by blast
  have "Suc h \<le> fuel" using fuel by simp
  from node_enable_total[OF v7 ch7 t7[folded last7] topn(1)[folded last7] topn(2) this]
  obtain s8 where
    s8: "bsp_node_enable fuel s7 ?rp = Some s8" "same_tree s7 s8" "relayout s7 s8" by blast
  have ins: "bsp_insert_toplevel fuel s1 workspace sibling new = Some s8"
    using s7(1) s8(1) by (simp add: insert_toplevel_splice)
  have vi8: "view_info s8 = view_info s7" "active_workspace s8 = active_workspace s7"
    using relayout_fields[OF s8(3)] by simp_all
  have via8: "view_info_at s8 workspace = Some (view_info s7 workspace)"
    using ws vi8 by (simp add: view_info_at_def)
  define s' where "s' = set_bsp_entry s8 workspace
                          ((bsp_entry (view_info s7 workspace))\<lparr>last_focused := Some new\<rparr>)"
  have res: "bsp_insert_container fuel s new workspace = Some s'"
    using e newc(1,2) entry(2) ins via8
    by (simp add: bsp_insert_container_def Let_def s1_def newc1_def s'_def)
  have st: "same_tree s7 s'"
    using s8(2) by (simp add: same_tree_def s'_def set_bsp_entry_def)
  have c7: "containers s7 new = Some (newc1\<lparr>cont_bsp_node := Some ?rp\<rparr>)" using s7(7) by simp
  from relayout_container[OF s8(3) c7] obtain c' where
    c': "containers s8 new = Some c'" "cont_skel c' = cont_skel (newc1\<lparr>cont_bsp_node := Some ?rp\<rparr>)"
    by blast
  have cn: "containers s' new = Some c'" "cont_bsp_node c' = Some ?rp"
    using c'(1) cont_skel_fields(4)[OF c'(2)] by (simp_all add: s'_def)
  have rt: "root (bsp_entry (view_info s' workspace)) = Some (if r = lp then ?pp else r)"
    "last_focused (bsp_entry (view_info s' workspace)) = Some new"
    using s7(10) isr entry(1) by (auto simp: s'_def set_bsp_entry_def vi8)
  show ?thesis using res sp st cn rt by blast
qed

lemma insert_empty:
  assumes v: "view_ok s" and ws: "0 \<le> workspace" "workspace < MAX_WORKSPACE"
    and entry: "root (bsp_entry (view_info s workspace)) = None"
    and newc: "containers s new = Some newc" "cont_bsp_node newc = None"
              "cont_workspace newc = workspace" "container_ok s new"
  shows "\<exists>s' leaf c'. bsp_insert_container fuel s new workspace = Some s'
       \<and> bsp_nodes s' (next_node s) = Some leaf \<and> node_type leaf = BSP_NODE_LEAF
       \<and> node_container leaf = Some new \<and> node_parent leaf = None
       \<and> containers s' new = Some c' \<and> cont_bsp_node c' = Some (next_node s)
       \<and> root (bsp_entry (view_info s' workspace)) = Some (next_node s)
       \<and> last_focused (bsp_entry (view_info s' workspace)) = Some new"
proof -
  let ?np = "next_node s"
  have e: "bsp_entry_get s workspace = Some None"
    using ws entry by (simp add: bsp_entry_get_def view_info_at_def)
  define newc1 where "newc1 = newc\<lparr>cont_state := cont_state newc AND NOT CONTAINER_STATE_FLOATING\<rparr>"
  define leaf0 where "leaf0 = \<lparr>node_type = BSP_NODE_LEAF, node_container = Some new, node_parent = None,
           node_left = None, node_right = None, node_enabled = True,
           split_type = BSP_SPLIT_AUTO, left_wfact = 0,
           node_x = 0, node_y = 0, node_width = 0, node_height = 0\<rparr>"
  define s3 where "s3 = s\<lparr>containers := (containers s)(new \<mapsto> newc1\<lparr>cont_bsp_node := Some ?np\<rparr>),
      bsp_nodes := (bsp_nodes s)(?np \<mapsto> leaf0), next_node := Suc ?np,
      view_info := (view_info s)(workspace := (view_info s workspace)
         \<lparr>bsp_entry := (bsp_entry (view_info s workspace))\<lparr>root := Some ?np\<rparr>\<rparr>)\<rparr>"
  have v3: "view_ok s3" using v by (simp add: view_ok_def s3_def)
  have n3: "bsp_nodes s3 ?np = Some leaf0" by (simp add: s3_def)
  have "container_ok s3 new = container_ok s new"
    by (rule container_ok_cong) (auto simp: s3_def newc1_def newc)
  with newc(4) have c3: "container_ok s3 new" by simp
  have lc: "node_container leaf0 = Some new" "node_type leaf0 = BSP_NODE_LEAF" by (simp_all add: leaf0_def)
  from leaf_configure_total[OF v3 n3 lc(1) c3] obtain s4 where
    s4: "bsp_node_leaf_configure s3 ?np (box_x (usable_area s3)) (box_y (usable_area s3))
           (box_width (usable_area s3)) (box_height (usable_area s3)) = Some s4" by blast
  note ss = leaf_configure_same_structure[OF s4]
  have eg3: "bsp_entry_get s3 workspace
             = Some (Some ((bsp_entry (view_info s workspace))\<lparr>root := Some ?np\<rparr>))"
    using ws by (simp add: bsp_entry_get_def view_info_at_def s3_def)
  have ur: "bsp_update_root fuel s3 workspace = Some s4"
    using eg3 n3 lc(2) s4 by (simp add: bsp_update_root_def Let_def)
  have vi4: "view_info s4 = view_info s3" using same_structure_fields(6)[OF ss] .
  have via4: "view_info_at s4 workspace = Some (view_info s3 workspace)"
    using ws vi4 by (simp add: view_info_at_def)
  define s' where "s' = set_bsp_entry s4 workspace
                          ((bsp_entry (view_info s3 workspace))\<lparr>last_focused := Some new\<rparr>)"
  have init: "bsp_entry_init (s\<lparr>bsp_nodes := (bsp_nodes s)(?np \<mapsto> leaf0), next_node := Suc ?np,
      containers := (containers s)(new \<mapsto> newc1\<lparr>cont_bsp_node := Some ?np\<rparr>)\<rparr>) workspace ?np = Some s3"
    using ws by (simp add: bsp_entry_init_def view_info_at_def set_bsp_entry_def s3_def)
  have res: "bsp_insert_container fuel s new workspace = Some s'"
    using e newc(1,2,3) init ur via4
    by (simp add: bsp_insert_container_def Let_def bsp_node_leaf_create_def newc1_def leaf0_def s'_def)
  from same_structure_node[OF ss n3] obtain leaf where
    leaf: "bsp_nodes s4 ?np = Some leaf" "node_skel leaf = node_skel leaf0" by blast
  have c3': "containers s3 new = Some (newc1\<lparr>cont_bsp_node := Some ?np\<rparr>)" by (simp add: s3_def)
  from same_structure_container[OF ss c3'] obtain c' where
    c': "containers s4 new = Some c'" "cont_skel c' = cont_skel (newc1\<lparr>cont_bsp_node := Some ?np\<rparr>)"
    by blast
  have "bsp_nodes s' ?np = Some leaf" "node_type leaf = BSP_NODE_LEAF"
    "node_container leaf = Some new" "node_parent leaf = None"
    using leaf node_skel_fields(1,2,3)[OF leaf(2)] by (simp_all add: s'_def set_bsp_entry_def leaf0_def)
  moreover have "containers s' new = Some c'" "cont_bsp_node c' = Some ?np"
    using c'(1) cont_skel_fields(4)[OF c'(2)] by (simp_all add: s'_def)
  moreover have "root (bsp_entry (view_info s' workspace)) = Some ?np"
    "last_focused (bsp_entry (view_info s' workspace)) = Some new"
    by (simp_all add: s'_def set_bsp_entry_def s3_def)
  ultimately show ?thesis using res by blast
qed

subsection \<open>Four inserts on a 1600x900 output\<close>

text \<open>
  An output of 1600x900 in the BSP layout with four containers that are in no tree, and the
  inserts of a list of containers into workspace 1, one after the other.
\<close>

definition bsp_view :: cwc_view_info where
  "bsp_view = demo_view\<lparr>layout_mode := CWC_LAYOUT_BSP\<rparr>"

definition bsp_demo_state :: cwc_state where
  "bsp_demo_state = demo_state\<lparr>
     usable_area := \<lparr>box_x = 0, box_y = 0, box_width = 1600, box_height = 900\<rparr>,
     output_width := 1600, output_height := 900,
     view_info := (\<lambda>i. bsp_view),
     output_containers := [1, 2, 3, 4],
     containers := (\<lambda>cp. if 1 \<le> cp \<and> cp \<le> 4 then Some (tiled_container cp) else None),
     toplevels := (\<lambda>tp. if 1 \<le> tp \<and> tp \<le> 4
                         then Some (demo_toplevel\<lparr>toplevel_container := Some tp\<rparr>) else None)\<rparr>"

definition insert_all :: "nat \<Rightarrow> cwc_state \<Rightarrow> addr list \<Rightarrow> cwc_state option" where
  "insert_all fuel s cps = fold (\<lambda>cp r. r \<bind> (\<lambda>s. bsp_insert_container fuel s cp 1)) cps (Some s)"

text \<open>The state after the first insert, written out: the tree is the leaf 0 of container 1.\<close>

definition root_leaf :: bsp_node where
  "root_leaf = \<lparr>node_type = BSP_NODE_LEAF, node_container = Some 1, node_parent = None,
                 node_left = None, node_right = None, node_enabled = True,
                 split_type = BSP_SPLIT_AUTO, left_wfact = 0,
                 node_x = 0, node_y = 0, node_width = 1600, node_height = 900\<rparr>"

definition bsp_one_state :: cwc_state where
  "bsp_one_state = bsp_demo_state\<lparr>
     view_info := (\<lambda>i. if i = 1 then bsp_view\<lparr>bsp_entry := \<lparr>root = Some 0, last_focused = Some 1\<rparr>\<rparr>
                        else bsp_view),
     containers := (\<lambda>cp. if cp = 1
                           then Some ((tiled_container 1)\<lparr>cont_x := 0, cont_y := 0, cont_width := 1600,
                                  cont_height := 900, cont_bsp_node := Some 0,
                                  border := \<lparr>thickness = 1, border_width = 1600, border_height = 900,
                                             border_enabled = True, border_valid = True\<rparr>\<rparr>)
                           else if 2 \<le> cp \<and> cp \<le> 4 then Some (tiled_container cp) else None),
     toplevels := (\<lambda>tp. if tp = 1
                          then Some (demo_toplevel\<lparr>configured_width := 1598, configured_height := 898\<rparr>)
                          else if 2 \<le> tp \<and> tp \<le> 4
                          then Some (demo_toplevel\<lparr>toplevel_container := Some tp\<rparr>) else None),
     bsp_nodes := [0 \<mapsto> root_leaf],
     next_node := 1\<rparr>"

lemmas bsp_demo_defs = bsp_demo_state_def bsp_view_def bsp_one_state_def root_leaf_def
  tiled_container_def demo_defs


text \<open>
  \<open>empty_tree_ready\<close>: what an insert into an empty tree needs: a valid workspace, and a
  container of that workspace that exists with its toplevels and is in no tree.
  \<open>sibling_ready h s workspace sibling new lp left r\<close>: what an insert beside \<open>sibling\<close> needs:
  the tree of the workspace has root \<open>r\<close> and is well formed with height below \<open>h\<close>;
  \<open>sibling\<close> is the last focused container and its node \<open>lp\<close>, with contents \<open>left\<close>, is a
  leaf of that tree, linked to its parent; the new container is in no tree.
\<close>

definition empty_tree_ready :: "cwc_state \<Rightarrow> int \<Rightarrow> addr \<Rightarrow> bool" where
  "empty_tree_ready s workspace new \<longleftrightarrow>
     view_ok s \<and> 0 \<le> workspace \<and> workspace < MAX_WORKSPACE
     \<and> root (bsp_entry (view_info s workspace)) = None
     \<and> container_ok s new
     \<and> (case containers s new of None \<Rightarrow> False
         | Some newc \<Rightarrow> cont_bsp_node newc = None \<and> cont_workspace newc = workspace)"

definition sibling_ready ::
  "nat \<Rightarrow> cwc_state \<Rightarrow> int \<Rightarrow> addr \<Rightarrow> addr \<Rightarrow> addr \<Rightarrow> bsp_node \<Rightarrow> addr \<Rightarrow> bool" where
  "sibling_ready h s workspace sibling new lp left r \<longleftrightarrow>
     view_ok s \<and> 0 \<le> workspace \<and> workspace < MAX_WORKSPACE
     \<and> root (bsp_entry (view_info s workspace)) = Some r
     \<and> last_focused (bsp_entry (view_info s workspace)) = Some sibling
     \<and> (case containers s sibling of None \<Rightarrow> False | Some sib \<Rightarrow> cont_bsp_node sib = Some lp)
     \<and> bsp_nodes s lp = Some left \<and> node_type left = BSP_NODE_LEAF
     \<and> container_ok s new
     \<and> (case containers s new of None \<Rightarrow> False | Some newc \<Rightarrow> cont_bsp_node newc = None)
     \<and> nodes_fresh s \<and> parent_link_ok s lp
     \<and> (case chain h s lp of None \<Rightarrow> False | Some path \<Rightarrow> distinct path \<and> last path = r)
     \<and> tree_ok h s r
     \<and> (r = lp \<or> (case bsp_nodes s r of None \<Rightarrow> False
                    | Some rn \<Rightarrow> node_type rn = BSP_NODE_INTERNAL))"

text \<open>
  Claim C1.  Into an empty tree, \<open>bsp_insert_container\<close> puts the container as the root leaf.
  Into a tree with root \<open>r\<close>, it creates the internal node \<open>next_node s\<close> with the sibling's
  node \<open>lp\<close> as left child and a new leaf \<open>Suc (next_node s)\<close> for the container as right
  child, split vertically when the sibling's node is at least as wide as high and
  horizontally otherwise, with \<open>left_wfact = 0.5\<close>; the new internal node takes the place of
  the sibling's node under its parent, or as the root; \<open>last_focused\<close> becomes the new
  container.  The call returns when the fuel exceeds the height bound.  Four inserts into the
  empty tree of a 1600x900 output give the rectangles of the example.
\<close>

theorem bsp_insert_container_spec:
  "(empty_tree_ready s workspace new \<longrightarrow>
      (\<exists>s' leaf c'. bsp_insert_container fuel s new workspace = Some s'
         \<and> root (bsp_entry (view_info s' workspace)) = Some (next_node s)
         \<and> last_focused (bsp_entry (view_info s' workspace)) = Some new
         \<and> bsp_nodes s' (next_node s) = Some leaf \<and> node_type leaf = BSP_NODE_LEAF
         \<and> node_container leaf = Some new \<and> node_parent leaf = None
         \<and> containers s' new = Some c' \<and> cont_bsp_node c' = Some (next_node s)))
   \<and> (sibling_ready h s workspace sibling new lp left r \<and> h < fuel \<longrightarrow>
      (\<exists>s' P L R c'. bsp_insert_container fuel s new workspace = Some s'
         \<and> bsp_nodes s' (next_node s) = Some P \<and> node_type P = BSP_NODE_INTERNAL
         \<and> split_type P = (if node_width left \<ge> node_height left
                            then BSP_SPLIT_VERTICAL else BSP_SPLIT_HORIZONTAL)
         \<and> left_wfact P = 0.5
         \<and> node_left P = Some lp \<and> node_right P = Some (Suc (next_node s))
         \<and> node_parent P = node_parent left
         \<and> bsp_nodes s' lp = Some L \<and> node_type L = BSP_NODE_LEAF
         \<and> node_container L = node_container left \<and> node_parent L = Some (next_node s)
         \<and> bsp_nodes s' (Suc (next_node s)) = Some R \<and> node_type R = BSP_NODE_LEAF
         \<and> node_container R = Some new \<and> node_parent R = Some (next_node s)
         \<and> containers s' new = Some c' \<and> cont_bsp_node c' = Some (Suc (next_node s))
         \<and> root (bsp_entry (view_info s' workspace)) = Some (if r = lp then next_node s else r)
         \<and> last_focused (bsp_entry (view_info s' workspace)) = Some new
         \<and> (\<forall>gp g. node_parent left = Some gp \<and> bsp_nodes s gp = Some g \<longrightarrow>
               (\<exists>G. bsp_nodes s' gp = Some G
                  \<and> node_left G = (if node_left g = Some lp then Some (next_node s) else node_left g)
                  \<and> node_right G = (if node_left g = Some lp then node_right g
                                     else Some (next_node s))))))
   \<and> map_option (\<lambda>s'. map (placed s') [1, 2, 3, 4]) (insert_all 4 bsp_demo_state [1, 2, 3, 4])
       = Some [Some \<lparr>box_x = 0, box_y = 0, box_width = 800, box_height = 900\<rparr>,
               Some \<lparr>box_x = 800, box_y = 0, box_width = 800, box_height = 450\<rparr>,
               Some \<lparr>box_x = 800, box_y = 450, box_width = 400, box_height = 450\<rparr>,
               Some \<lparr>box_x = 1200, box_y = 450, box_width = 400, box_height = 450\<rparr>]"
proof (intro conjI impI)
  assume "empty_tree_ready s workspace new"
  then obtain newc where
    a: "view_ok s" "0 \<le> workspace" "workspace < MAX_WORKSPACE"
       "root (bsp_entry (view_info s workspace)) = None" "container_ok s new"
       "containers s new = Some newc" "cont_bsp_node newc = None" "cont_workspace newc = workspace"
    by (auto simp: empty_tree_ready_def split: option.splits)
  from insert_empty[OF a(1,2,3,4,6,7,8,5), of fuel]
  show "\<exists>s' leaf c'. bsp_insert_container fuel s new workspace = Some s'
         \<and> root (bsp_entry (view_info s' workspace)) = Some (next_node s)
         \<and> last_focused (bsp_entry (view_info s' workspace)) = Some new
         \<and> bsp_nodes s' (next_node s) = Some leaf \<and> node_type leaf = BSP_NODE_LEAF
         \<and> node_container leaf = Some new \<and> node_parent leaf = None
         \<and> containers s' new = Some c' \<and> cont_bsp_node c' = Some (next_node s)"
    by blast
next
  let ?pp = "next_node s"
  let ?rp = "Suc (next_node s)"
  assume "sibling_ready h s workspace sibling new lp left r \<and> h < fuel"
  then obtain sib newc path where
    a: "view_ok s" "0 \<le> workspace" "workspace < MAX_WORKSPACE"
       "root (bsp_entry (view_info s workspace)) = Some r"
       "last_focused (bsp_entry (view_info s workspace)) = Some sibling"
       "containers s sibling = Some sib" "cont_bsp_node sib = Some lp"
       "bsp_nodes s lp = Some left" "node_type left = BSP_NODE_LEAF"
       "containers s new = Some newc" "cont_bsp_node newc = None" "container_ok s new"
       "nodes_fresh s" "parent_link_ok s lp"
       "chain h s lp = Some path" "distinct path" "last path = r"
       "tree_ok h s r"
       "r = lp \<or> (\<exists>rn. bsp_nodes s r = Some rn \<and> node_type rn = BSP_NODE_INTERNAL)"
       "h < fuel"
    by (auto simp: sibling_ready_def split: option.splits)
  from insert_nonempty[OF a] obtain s' s7 c' where
    r: "bsp_insert_container fuel s new workspace = Some s'"
       "spliced s s7 lp left new (r = lp)" "same_tree s7 s'"
       "containers s' new = Some c'" "cont_bsp_node c' = Some ?rp"
       "root (bsp_entry (view_info s' workspace)) = Some (if r = lp then ?pp else r)"
       "last_focused (bsp_entry (view_info s' workspace)) = Some new" by blast
  from r(2) have n7:
    "bsp_nodes s7 ?pp = Some (new_internal s left (r = lp) lp ?rp)"
    "bsp_nodes s7 ?rp = Some (new_leaf ?pp new)"
    "bsp_nodes s7 lp = Some (left\<lparr>node_parent := Some ?pp\<rparr>)"
    by (simp_all add: spliced_def)
  from same_tree_node[OF r(3) n7(1)] obtain P where
    P: "bsp_nodes s' ?pp = Some P" "node_struct P = node_struct (new_internal s left (r = lp) lp ?rp)"
    by blast
  from same_tree_node[OF r(3) n7(2)] obtain R where
    R: "bsp_nodes s' ?rp = Some R" "node_struct R = node_struct (new_leaf ?pp new)" by blast
  from same_tree_node[OF r(3) n7(3)] obtain L where
    L: "bsp_nodes s' lp = Some L" "node_struct L = node_struct (left\<lparr>node_parent := Some ?pp\<rparr>)"
    by blast
  note Pf = node_struct_fields[OF P(2)]
  note Rf = node_struct_fields[OF R(2)]
  note Lf = node_struct_fields[OF L(2)]
  have gp: "\<forall>gp g. node_parent left = Some gp \<and> bsp_nodes s gp = Some g \<longrightarrow>
               (\<exists>G. bsp_nodes s' gp = Some G
                  \<and> node_left G = (if node_left g = Some lp then Some ?pp else node_left g)
                  \<and> node_right G = (if node_left g = Some lp then node_right g else Some ?pp))"
  proof (intro allI impI)
    fix gp g assume g: "node_parent left = Some gp \<and> bsp_nodes s gp = Some g"
    with r(2) have "bsp_nodes s7 gp = Some (if node_left g = Some lp then g\<lparr>node_left := Some ?pp\<rparr>
                                    else g\<lparr>node_right := Some ?pp\<rparr>)"
      by (simp add: spliced_def)
    from same_tree_node[OF r(3) this] obtain G where
      G: "bsp_nodes s' gp = Some G"
         "node_struct G = node_struct (if node_left g = Some lp then g\<lparr>node_left := Some ?pp\<rparr>
                                    else g\<lparr>node_right := Some ?pp\<rparr>)" by blast
    note Gf = node_struct_fields[OF G(2)]
    show "\<exists>G. bsp_nodes s' gp = Some G
                  \<and> node_left G = (if node_left g = Some lp then Some ?pp else node_left g)
                  \<and> node_right G = (if node_left g = Some lp then node_right g else Some ?pp)"
      using G(1) Gf(4,5) by (cases "node_left g = Some lp") auto
  qed
  have "node_type P = BSP_NODE_INTERNAL"
    "split_type P = (if node_width left \<ge> node_height left
                            then BSP_SPLIT_VERTICAL else BSP_SPLIT_HORIZONTAL)"
    "left_wfact P = 0.5" "node_left P = Some lp" "node_right P = Some ?rp"
    "node_parent P = node_parent left"
    using Pf by (simp_all add: new_internal_def)
  moreover have "node_type L = BSP_NODE_LEAF" "node_container L = node_container left"
    "node_parent L = Some ?pp"
    using Lf a(9) by simp_all
  moreover have "node_type R = BSP_NODE_LEAF" "node_container R = Some new" "node_parent R = Some ?pp"
    using Rf by (simp_all add: new_leaf_def)
  ultimately show "\<exists>s' P L R c'. bsp_insert_container fuel s new workspace = Some s'
         \<and> bsp_nodes s' (next_node s) = Some P \<and> node_type P = BSP_NODE_INTERNAL
         \<and> split_type P = (if node_width left \<ge> node_height left
                            then BSP_SPLIT_VERTICAL else BSP_SPLIT_HORIZONTAL)
         \<and> left_wfact P = 0.5
         \<and> node_left P = Some lp \<and> node_right P = Some (Suc (next_node s))
         \<and> node_parent P = node_parent left
         \<and> bsp_nodes s' lp = Some L \<and> node_type L = BSP_NODE_LEAF
         \<and> node_container L = node_container left \<and> node_parent L = Some (next_node s)
         \<and> bsp_nodes s' (Suc (next_node s)) = Some R \<and> node_type R = BSP_NODE_LEAF
         \<and> node_container R = Some new \<and> node_parent R = Some (next_node s)
         \<and> containers s' new = Some c' \<and> cont_bsp_node c' = Some (Suc (next_node s))
         \<and> root (bsp_entry (view_info s' workspace)) = Some (if r = lp then next_node s else r)
         \<and> last_focused (bsp_entry (view_info s' workspace)) = Some new
         \<and> (\<forall>gp g. node_parent left = Some gp \<and> bsp_nodes s gp = Some g \<longrightarrow>
               (\<exists>G. bsp_nodes s' gp = Some G
                  \<and> node_left G = (if node_left g = Some lp then Some (next_node s) else node_left g)
                  \<and> node_right G = (if node_left g = Some lp then node_right g
                                     else Some (next_node s))))"
    using r(1,4,5,6,7) P(1) L(1) R(1) gp by blast
next
  show "map_option (\<lambda>s'. map (placed s') [1, 2, 3, 4]) (insert_all 4 bsp_demo_state [1, 2, 3, 4])
       = Some [Some \<lparr>box_x = 0, box_y = 0, box_width = 800, box_height = 900\<rparr>,
               Some \<lparr>box_x = 800, box_y = 0, box_width = 800, box_height = 450\<rparr>,
               Some \<lparr>box_x = 800, box_y = 450, box_width = 400, box_height = 450\<rparr>,
               Some \<lparr>box_x = 1200, box_y = 450, box_width = 400, box_height = 450\<rparr>]"
    by code_simp
qed


theorem bsp_insert_container_spec_witness:
  "empty_tree_ready bsp_demo_state 1 1
   \<and> (\<exists>s' leaf. bsp_insert_container 1 bsp_demo_state 1 1 = Some s'
          \<and> root (bsp_entry (view_info s' 1)) = Some 0
          \<and> last_focused (bsp_entry (view_info s' 1)) = Some 1
          \<and> bsp_nodes s' 0 = Some leaf \<and> node_type leaf = BSP_NODE_LEAF
          \<and> node_container leaf = Some 1
          \<and> placed s' 1 = Some \<lparr>box_x = 0, box_y = 0, box_width = 1600, box_height = 900\<rparr>)
   \<and> sibling_ready 1 bsp_one_state 1 1 2 0 root_leaf 0
   \<and> (\<exists>s' P. bsp_insert_container 2 bsp_one_state 2 1 = Some s'
          \<and> bsp_nodes s' 1 = Some P \<and> node_type P = BSP_NODE_INTERNAL
          \<and> split_type P = BSP_SPLIT_VERTICAL \<and> left_wfact P = 0.5
          \<and> node_left P = Some 0 \<and> node_right P = Some 2
          \<and> root (bsp_entry (view_info s' 1)) = Some 1
          \<and> last_focused (bsp_entry (view_info s' 1)) = Some 2
          \<and> placed s' 1 = Some \<lparr>box_x = 0, box_y = 0, box_width = 800, box_height = 900\<rparr>
          \<and> placed s' 2 = Some \<lparr>box_x = 800, box_y = 0, box_width = 800, box_height = 900\<rparr>)"
proof -
  have e: "empty_tree_ready bsp_demo_state 1 1"
    by (simp add: empty_tree_ready_def bsp_demo_defs view_ok_def MAX_WORKSPACE_def
          container_ok_def toplevel_ok_def)
  have n: "next_node bsp_demo_state = 0" "next_node bsp_one_state = 1"
    by (simp_all add: bsp_demo_defs)
  have r: "sibling_ready 1 bsp_one_state 1 1 2 0 root_leaf 0"
    by (auto simp: sibling_ready_def bsp_demo_defs view_ok_def MAX_WORKSPACE_def
          container_ok_def toplevel_ok_def nodes_fresh_def parent_link_ok_def)
  note t1 = bsp_insert_container_spec[of bsp_demo_state 1 1 1, unfolded n]
  from t1 e obtain s1 leaf where
    s1: "bsp_insert_container 1 bsp_demo_state 1 1 = Some s1"
        "root (bsp_entry (view_info s1 1)) = Some 0"
        "last_focused (bsp_entry (view_info s1 1)) = Some 1"
        "bsp_nodes s1 0 = Some leaf" "node_type leaf = BSP_NODE_LEAF" "node_container leaf = Some 1"
    by blast
  have "map_option (\<lambda>s'. placed s' 1) (bsp_insert_container 1 bsp_demo_state 1 1)
        = Some (Some \<lparr>box_x = 0, box_y = 0, box_width = 1600, box_height = 900\<rparr>)" by code_simp
  with s1(1) have p1: "placed s1 1 = Some \<lparr>box_x = 0, box_y = 0, box_width = 1600, box_height = 900\<rparr>"
    by simp
  have w: "node_width root_leaf \<ge> node_height root_leaf" by (simp add: root_leaf_def)
  have lt: "(1::nat) < 2" by simp
  note t2 = bsp_insert_container_spec[of bsp_one_state 1 2 2 1 1 0 root_leaf 0, unfolded n]
  from t2 r lt obtain s2 P where
    s2: "bsp_insert_container 2 bsp_one_state 2 1 = Some s2"
        "bsp_nodes s2 1 = Some P" "node_type P = BSP_NODE_INTERNAL"
        "split_type P = (if node_width root_leaf \<ge> node_height root_leaf
                         then BSP_SPLIT_VERTICAL else BSP_SPLIT_HORIZONTAL)" "left_wfact P = 0.5"
        "node_left P = Some 0" "node_right P = Some (Suc 1)"
        "root (bsp_entry (view_info s2 1)) = Some (if (0::nat) = 0 then 1 else 0)"
        "last_focused (bsp_entry (view_info s2 1)) = Some 2"
    by blast
  have s2': "split_type P = BSP_SPLIT_VERTICAL" "node_right P = Some 2"
    "root (bsp_entry (view_info s2 1)) = Some 1"
    using s2(4,7,8) w by simp_all
  have "map_option (\<lambda>s'. (placed s' 1, placed s' 2)) (bsp_insert_container 2 bsp_one_state 2 1)
        = Some (Some \<lparr>box_x = 0, box_y = 0, box_width = 800, box_height = 900\<rparr>,
                Some \<lparr>box_x = 800, box_y = 0, box_width = 800, box_height = 900\<rparr>)" by code_simp
  with s2(1) have p2: "placed s2 1 = Some \<lparr>box_x = 0, box_y = 0, box_width = 800, box_height = 900\<rparr>"
    "placed s2 2 = Some \<lparr>box_x = 800, box_y = 0, box_width = 800, box_height = 900\<rparr>" by simp_all
  show ?thesis using e r s1 p1 s2(1,2,3,5,6,9) s2' p2 by blast
qed

section \<open>Fullscreen and back\<close>

text \<open>
  \<open>owns s cp tp\<close>: toplevel \<open>tp\<close> exists and its \<open>container\<close> is \<open>cp\<close>.  \<open>fullscreen_rect s c\<close> is
  the rectangle of a container whose surface, inside the border and the gap, covers the
  output.
\<close>

definition owns :: "cwc_state \<Rightarrow> addr \<Rightarrow> addr \<Rightarrow> bool" where
  "owns s cp tp = (case toplevels s tp of None \<Rightarrow> False | Some t \<Rightarrow> toplevel_container t = Some cp)"

definition fullscreen_rect :: "cwc_state \<Rightarrow> cwc_container \<Rightarrow> wlr_box" where
  "fullscreen_rect s c =
     (let bw = cwc_border_get_thickness (border c);
          gaps = useless_gaps (view_info s (active_workspace s))
      in \<lparr>box_x = - bw, box_y = - bw,
          box_width = output_width s + (bw + gaps) * 2,
          box_height = output_height s + (bw + gaps) * 2\<rparr>)"












lemma owns_containers_upd [simp]: "owns (s\<lparr>containers := C\<rparr>) = owns s"
  by (simp add: owns_def fun_eq_iff)

lemma view_ok_containers_upd [simp]: "view_ok (s\<lparr>containers := C\<rparr>) = view_ok s"
  by (simp add: view_ok_def)

lemma fullscreen_rect_containers_upd [simp]:
  "fullscreen_rect (s\<lparr>containers := C\<rparr>) c = fullscreen_rect s c"
  by (simp add: fullscreen_rect_def)

lemma fullscreen_rect_state_upd [simp]:
  "fullscreen_rect s (c\<lparr>cont_state := st\<rparr>) = fullscreen_rect s c"
  by (simp add: fullscreen_rect_def)




lemma state_bit_iff:
  "bit CONTAINER_STATE_FULLSCREEN n \<longleftrightarrow> n = 4"
  "bit CONTAINER_STATE_MAXIMIZED n \<longleftrightarrow> n = 3"
  unfolding state_bit_defs bit_push_bit_iff bit_1_iff by (auto simp: possible_bit_word)

lemma unset_fullscreen_bits:
  assumes "st AND CONTAINER_STATE_FULLSCREEN = 0" "st AND CONTAINER_STATE_MAXIMIZED = 0"
  shows "((st OR CONTAINER_STATE_FULLSCREEN) AND NOT CONTAINER_STATE_MAXIMIZED)
           AND NOT CONTAINER_STATE_FULLSCREEN = st"
proof (rule bit_eqI)
  fix n
  have "bit (st AND CONTAINER_STATE_FULLSCREEN) n = False" using assms(1) by simp
  then have 1: "\<not> (bit st n \<and> n = 4)" by (simp add: bit_and_iff state_bit_iff)
  have "bit (st AND CONTAINER_STATE_MAXIMIZED) n = False" using assms(2) by simp
  then have 2: "\<not> (bit st n \<and> n = 3)" by (simp add: bit_and_iff state_bit_iff)
  have 3: "bit st n \<Longrightarrow> n < 32" using bit_imp_le_length[of st n] by simp
  from 1 2 3 show "bit (((st OR CONTAINER_STATE_FULLSCREEN) AND NOT CONTAINER_STATE_MAXIMIZED)
           AND NOT CONTAINER_STATE_FULLSCREEN) n = bit st n"
    by (auto simp: bit_and_iff bit_or_iff bit_not_iff state_bit_iff)
qed


















end
